(* ===== verification/Nachos_Prelude.thy ===== *)
theory Nachos_Prelude
  imports Main "HOL-Library.Word" "HOL-Library.Signed_Division"
begin

text \<open>
  Shared vocabulary of the development: the ways a Nachos kernel operation can fail
  (an \<open>ASSERT\<close> of \<open>threads/utility.h\<close> that does not hold, a bad pointer, a bad index),
  the result type that carries them, the rounding macros of \<open>threads/utility.h\<close>, the
  C string functions the kernel uses, and the list lemmas several components share.
\<close>

named_theorems res_simps \<open>equations that evaluate a sequence of fallible operations\<close>
named_theorems c_arith \<open>C arithmetic macros on the operands they are used with\<close>

section \<open>Failures as values\<close>

text \<open>
  \<open>AssertFail\<close> is \<open>ASSERT(condition)\<close> with a false condition, which prints a message and
  calls \<open>Abort()\<close>. The others are executions C++ leaves undefined; a definition that
  reaches one returns it, so that a theorem that an operation returns \<open>Inr\<close> is also a
  theorem that it stays clear of undefined behaviour. \<open>HostTrap\<close> is an arithmetic operation
  the host processor traps on. \<open>NoFuel\<close> is a loop that did not
  stop within the bound its model gives it.
\<close>

datatype nachos_error = AssertFail | NullDeref | BadPointer | OutOfBounds | HostTrap | NoFuel

type_synonym 'a res = "nachos_error + 'a"

definition rbind :: "'a res \<Rightarrow> ('a \<Rightarrow> 'b res) \<Rightarrow> 'b res" where
  "rbind m f = (case m of Inl e \<Rightarrow> Inl e | Inr x \<Rightarrow> f x)"

text \<open>\<open>ASSERT\<close> (\<open>threads/utility.h\<close>): go on when the condition holds, abort otherwise.\<close>

definition ASSERT :: "bool \<Rightarrow> unit res" where
  "ASSERT c = (if c then Inr () else Inl AssertFail)"

lemma rbind_Inl [simp, res_simps]: "rbind (Inl e) f = Inl e"
  by (simp add: rbind_def)

lemma rbind_Inr [simp, res_simps]: "rbind (Inr x) f = f x"
  by (simp add: rbind_def)

lemma rbind_eq_Inr: "rbind m f = Inr y \<longleftrightarrow> (\<exists>x. m = Inr x \<and> f x = Inr y)"
  by (cases m) auto

lemma rbind_eq_Inl: "rbind m f = Inl e \<longleftrightarrow> m = Inl e \<or> (\<exists>x. m = Inr x \<and> f x = Inl e)"
  by (cases m) auto

lemma rbind_cong [fundef_cong]:
  "m = m' \<Longrightarrow> (\<And>x. m' = Inr x \<Longrightarrow> f x = f' x) \<Longrightarrow> rbind m f = rbind m' f'"
  by (cases m') auto

lemma ASSERT_eq_Inr [simp, res_simps]: "ASSERT c = Inr u \<longleftrightarrow> c"
  by (simp add: ASSERT_def)

lemma ASSERT_eq_Inl [simp, res_simps]: "ASSERT c = Inl e \<longleftrightarrow> \<not> c \<and> e = AssertFail"
  by (auto simp: ASSERT_def)

lemma rbind_ASSERT_true [simp]: "c \<Longrightarrow> rbind (ASSERT c) f = f ()"
  by (simp add: ASSERT_def)

lemma rbind_ASSERT_false [simp]: "\<not> c \<Longrightarrow> rbind (ASSERT c) f = Inl AssertFail"
  by (simp add: ASSERT_def)

section \<open>Rounding macros\<close>

text \<open>The macros of \<open>threads/utility.h\<close>, on C's \<open>int\<close> with its truncating division.\<close>

definition divRoundDown :: "int \<Rightarrow> int \<Rightarrow> int" where
  "divRoundDown n s = n sdiv s"

definition divRoundUp :: "int \<Rightarrow> int \<Rightarrow> int" where
  "divRoundUp n s = n sdiv s + (if n smod s > 0 then 1 else 0)"

lemma sdiv_nonneg [c_arith]: "0 \<le> n \<Longrightarrow> 0 < s \<Longrightarrow> (n::int) sdiv s = n div s"
  by (cases "n = 0") (simp_all add: signed_divide_int_def)

lemma smod_nonneg [c_arith]: "0 \<le> n \<Longrightarrow> 0 < s \<Longrightarrow> (n::int) smod s = n mod s"
  by (cases "n = 0") (simp_all add: signed_modulo_int_def)

lemma divRoundUp_bounds:
  assumes "0 \<le> n" "0 < s"
  shows "n \<le> divRoundUp n s * s" "divRoundUp n s * s < n + s" "0 \<le> divRoundUp n s"
proof -
  define q r where "q = n div s" and "r = n mod s"
  have n: "n = q * s + r" by (simp add: q_def r_def)
  have r: "0 \<le> r" "r < s" using assms by (simp_all add: r_def)
  have q: "0 \<le> q" using assms by (simp add: q_def pos_imp_zdiv_nonneg_iff)
  have up: "divRoundUp n s = (if r > 0 then q + 1 else q)"
    using assms by (simp add: divRoundUp_def c_arith q_def r_def)
  show "n \<le> divRoundUp n s * s" unfolding up using n r by (simp add: algebra_simps)
  show "divRoundUp n s * s < n + s" unfolding up using n r assms(2) by (auto simp: algebra_simps)
  show "0 \<le> divRoundUp n s" unfolding up using q by simp
qed

lemma less_divRoundUp:
  assumes "0 \<le> i" "i < n" "0 < s"
  shows "i div s < divRoundUp n s"
proof -
  have "i div s * s \<le> i" using assms(3) minus_mod_eq_div_mult [of i s] pos_mod_sign [of s i]
    by linarith
  also have "i < divRoundUp n s * s"
    using divRoundUp_bounds(1) [of n s] assms by linarith
  finally show ?thesis using assms(3) by (simp add: mult_less_cancel_right)
qed

text \<open>File positions and lengths are C's \<open>int\<close>: a sum wraps around at 32 bits.\<close>

definition wrap32 :: "int \<Rightarrow> int" where
  "wrap32 n = signed_take_bit 31 n"

lemma wrap32_id: "- (2 ^ 31) \<le> n \<Longrightarrow> n < 2 ^ 31 \<Longrightarrow> wrap32 n = n"
  by (simp add: wrap32_def signed_take_bit_int_eq_self)

section \<open>C strings\<close>

text \<open>
  A C string is its characters up to the terminating zero. \<open>strncmp a b n == 0\<close> compares
  the first \<open>n\<close> characters and stops at the terminator; \<open>strncpy\<close> copies at most \<open>n\<close>
  characters and pads with zeros.
\<close>

definition strncmp_eq :: "nat \<Rightarrow> string \<Rightarrow> string \<Rightarrow> bool" where
  "strncmp_eq n a b \<longleftrightarrow> take n a = take n b"

lemma strncmp_eq_refl [simp]: "strncmp_eq n a a"
  by (simp add: strncmp_eq_def)

lemma strncmp_eq_sym: "strncmp_eq n a b \<longleftrightarrow> strncmp_eq n b a"
  by (auto simp: strncmp_eq_def)

lemma strncmp_eq_take [simp]: "strncmp_eq n (take n a) b \<longleftrightarrow> strncmp_eq n a b"
  by (simp add: strncmp_eq_def)

section \<open>Pointers in tables\<close>

text \<open>A pointer kept in a kernel table: null, to an object that was deleted, or to an object.\<close>

datatype 'a cell = CNull | CFreed | CObj 'a

definition cell_deref :: "'a cell \<Rightarrow> 'a res" where
  "cell_deref c = (case c of CNull \<Rightarrow> Inl NullDeref | CFreed \<Rightarrow> Inl BadPointer | CObj x \<Rightarrow> Inr x)"

lemma cell_deref_simps [simp, res_simps]: "cell_deref CNull = Inl NullDeref" "cell_deref CFreed = Inl BadPointer" "cell_deref (CObj x) = Inr x"
  by (simp_all add: cell_deref_def)

lemma cell_deref_eq_Inr: "cell_deref c = Inr x \<longleftrightarrow> c = CObj x"
  by (cases c) auto

section \<open>Loops over an index range\<close>

text \<open>
  \<open>for (i = lo; i < hi; i++) if (p(i)) return i;\<close> is the first index of the range that
  satisfies \<open>p\<close>, or none.
\<close>

definition first_index :: "(nat \<Rightarrow> bool) \<Rightarrow> nat \<Rightarrow> nat option" where
  "first_index p n = find p [0..<n]"

lemma first_index_None: "first_index p n = None \<longleftrightarrow> (\<forall>i<n. \<not> p i)"
  by (auto simp: first_index_def find_None_iff)

lemma first_index_Some:
  "first_index p n = Some i \<longleftrightarrow> i < n \<and> p i \<and> (\<forall>j<i. \<not> p j)"
proof
  assume "first_index p n = Some i"
  then obtain k where k: "k < n" "p ([0..<n] ! k)" "i = [0..<n] ! k"
    "\<forall>j<k. \<not> p ([0..<n] ! j)"
    by (auto simp: first_index_def find_Some_iff)
  then show "i < n \<and> p i \<and> (\<forall>j<i. \<not> p j)" by auto
next
  assume "i < n \<and> p i \<and> (\<forall>j<i. \<not> p j)"
  then show "first_index p n = Some i"
    by (auto simp: first_index_def find_Some_iff intro!: exI [of _ i])
qed

lemma first_index_cong:
  "(\<And>i. i < n \<Longrightarrow> p i = q i) \<Longrightarrow> first_index p n = first_index q n"
  by (auto simp: first_index_def intro!: find_cong)

section \<open>Sequences of operations\<close>

text \<open>Several operations in a row, each on the state the one before left.\<close>

fun iter_res :: "('x \<Rightarrow> 's \<Rightarrow> 's res) \<Rightarrow> 'x list \<Rightarrow> 's \<Rightarrow> 's res" where
  "iter_res f [] s = Inr s"
| "iter_res f (x # xs) s = rbind (f x s) (iter_res f xs)"

lemma iter_res_append:
  "iter_res f (xs @ ys) s = rbind (iter_res f xs s) (iter_res f ys)"
proof (induction xs arbitrary: s)
  case (Cons x xs)
  then show ?case by (cases "f x s") auto
qed simp

section \<open>The interface of a slot allocator\<close>

text \<open>
  Page frames, disk sectors, process and semaphore identifiers and open-file descriptors
  are all handed out the same way: a search for the lowest free slot, which is then
  marked. \<open>alloc_many\<close> is the loop \<open>for (i = 0; i < n; i++) x[i] = map->Find();\<close>.
\<close>

fun alloc_many :: "('b \<Rightarrow> (int \<times> 'b) res) \<Rightarrow> nat \<Rightarrow> 'b \<Rightarrow> (int list \<times> 'b) res" where
  "alloc_many grab 0 b = Inr ([], b)"
| "alloc_many grab (Suc n) b = rbind (grab b) (\<lambda>(x, b').
     rbind (alloc_many grab n b') (\<lambda>(xs, b''). Inr (x # xs, b'')))"

locale slot_allocator =
  fixes ok :: "'b \<Rightarrow> bool"
    and used :: "'b \<Rightarrow> nat set"
    and cap :: "'b \<Rightarrow> nat"
    and grab :: "'b \<Rightarrow> (int \<times> 'b) res"
  assumes used_le: "ok b \<Longrightarrow> used b \<subseteq> {..<cap b}"
    and find_full: "ok b \<Longrightarrow> used b = {..<cap b} \<Longrightarrow> grab b = Inr (-1, b)"
    and find_free: "ok b \<Longrightarrow> used b \<noteq> {..<cap b} \<Longrightarrow>
      \<exists>i b'. grab b = Inr (int i, b') \<and> ok b' \<and> i < cap b \<and> i \<notin> used b \<and> (\<forall>j<i. j \<in> used b) \<and>
        used b' = insert i (used b) \<and> cap b' = cap b"
begin

lemma finite_used: "ok b \<Longrightarrow> finite (used b)"
  using used_le finite_subset by blast

lemma find_many:
  "ok b \<Longrightarrow> n \<le> cap b - card (used b) \<Longrightarrow>
   \<exists>xs b'. alloc_many grab n b = Inr (map int xs, b') \<and> ok b' \<and> length xs = n \<and> distinct xs \<and>
     set xs \<inter> used b = {} \<and> set xs \<subseteq> {..<cap b} \<and> used b' = used b \<union> set xs \<and> cap b' = cap b"
proof (induction n arbitrary: b)
  case (Suc n)
  have "used b \<noteq> {..<cap b}" using Suc.prems(2) by (metis card_lessThan diff_self_eq_0 not_less_eq_eq zero_le)
  from find_free [OF Suc.prems(1) this] obtain i b1 where
    i: "grab b = Inr (int i, b1)" "ok b1" "i < cap b" "i \<notin> used b"
      "used b1 = insert i (used b)" "cap b1 = cap b" by blast
  have "card (used b1) = Suc (card (used b))"
    using i finite_used [OF Suc.prems(1)] by simp
  then have "n \<le> cap b1 - card (used b1)" using Suc.prems(2) i(6) by simp
  from Suc.IH [OF i(2) this] obtain xs b2 where
    x: "alloc_many grab n b1 = Inr (map int xs, b2)" "ok b2" "length xs = n" "distinct xs"
      "set xs \<inter> used b1 = {}" "set xs \<subseteq> {..<cap b1}" "used b2 = used b1 \<union> set xs"
      "cap b2 = cap b1" by blast
  have "alloc_many grab (Suc n) b = Inr (map int (i # xs), b2)" using i(1) x(1) by simp
  with x i show ?case by (intro exI [of _ "i # xs"] exI [of _ b2]) auto
qed simp

end

text \<open>An allocator whose slots can be given back.\<close>

locale slot_pool = slot_allocator +
  fixes free :: "'a \<Rightarrow> int \<Rightarrow> 'a res"
  assumes free_ok: "ok b \<Longrightarrow> i < cap b \<Longrightarrow>
      \<exists>b'. free b (int i) = Inr b' \<and> ok b' \<and> used b' = used b - {i} \<and> cap b' = cap b"
begin

lemma free_many:
  "ok b \<Longrightarrow> set xs \<subseteq> {..<cap b} \<Longrightarrow>
   \<exists>b'. iter_res (\<lambda>x b. free b x) (map int xs) b = Inr b' \<and> ok b' \<and>
     used b' = used b - set xs \<and> cap b' = cap b"
proof (induction xs arbitrary: b)
  case (Cons x xs)
  then obtain b1 where b1: "free b (int x) = Inr b1" "ok b1" "used b1 = used b - {x}"
    "cap b1 = cap b" using free_ok [of b x] by auto
  with Cons.IH [of b1] Cons.prems show ?case by auto
qed simp

lemma alloc_free_roundtrip:
  assumes "ok b" "n \<le> cap b - card (used b)"
  shows "\<exists>xs b1 b2. alloc_many grab n b = Inr (xs, b1) \<and>
           iter_res (\<lambda>x b. free b x) xs b1 = Inr b2 \<and> ok b2 \<and> used b2 = used b"
proof -
  obtain xs b1 where a: "alloc_many grab n b = Inr (map int xs, b1)" "ok b1"
    "set xs \<inter> used b = {}" "set xs \<subseteq> {..<cap b}" "used b1 = used b \<union> set xs" "cap b1 = cap b"
    using find_many [OF assms] by blast
  then obtain b2 where "iter_res (\<lambda>x b. free b x) (map int xs) b1 = Inr b2" "ok b2"
    "used b2 = used b1 - set xs" using free_many [of b1 xs] by auto
  with a show ?thesis by (intro exI [of _ "map int xs"] exI [of _ b1] exI [of _ b2]) auto
qed

end

end
