(* ===== verification/Linked_List.thy ===== *)
theory Linked_List
  imports Nachos_Prelude "HOL-Library.Multiset"
begin

text \<open>
  The singly linked list of \<open>threads/list.h\<close> and \<open>threads/list.cc\<close>, on which the ready
  list, the semaphore queues and the pending-interrupt queue are built.

  The list is modelled with its pointers: list elements live in a store that maps
  addresses to elements, \<open>new ListElement\<close> takes a fresh address, \<open>delete\<close> removes one,
  and a pointer is an address or null (\<open>None\<close>). Following a null or a dangling pointer is
  an error value. Items are \<open>void *\<close>, so an item may itself be null; that matters, since
  \<open>Remove\<close> reports an empty list by returning null.

  The operations are then shown to implement operations on lists of keys and items, and
  the interface \<open>kernel_list\<close> collects what the clients of the list rely on.
\<close>

named_theorems llist \<open>rules that step through the pointer operations\<close>

section \<open>Elements, store and list\<close>

record 'a ListElement =
  nxt :: "nat option"
  key :: int
  item :: "'a option"

record 'a elt_store =
  cells :: "nat \<rightharpoonup> 'a ListElement"
  brk :: nat

record List =
  lfirst :: "nat option"
  llast :: "nat option"

type_synonym 'a lstate = "'a elt_store \<times> List"

definition new_ListElement :: "'a elt_store \<Rightarrow> 'a option \<Rightarrow> int \<Rightarrow> nat \<times> 'a elt_store" where
  "new_ListElement h itemPtr sortKey =
     (brk h, h\<lparr>cells := (cells h)(brk h \<mapsto> \<lparr>nxt = None, key = sortKey, item = itemPtr\<rparr>),
               brk := Suc (brk h)\<rparr>)"

definition deref :: "'a elt_store \<Rightarrow> nat option \<Rightarrow> 'a ListElement res" where
  "deref h p = (case p of None \<Rightarrow> Inl NullDeref
     | Some a \<Rightarrow> (case cells h a of None \<Rightarrow> Inl BadPointer | Some e \<Rightarrow> Inr e))"

definition set_next :: "'a elt_store \<Rightarrow> nat option \<Rightarrow> nat option \<Rightarrow> 'a elt_store res" where
  "set_next h p q = rbind (deref h p)
     (\<lambda>e. Inr (h\<lparr>cells := (cells h)(the p \<mapsto> e\<lparr>nxt := q\<rparr>)\<rparr>))"

definition delete_elt :: "'a elt_store \<Rightarrow> nat option \<Rightarrow> 'a elt_store res" where
  "delete_elt h p = rbind (deref h p)
     (\<lambda>_. Inr (h\<lparr>cells := (cells h)(the p := None)\<rparr>))"

definition List_new :: List where
  "List_new = \<lparr>lfirst = None, llast = None\<rparr>"

definition IsEmpty :: "List \<Rightarrow> bool" where
  "IsEmpty l \<longleftrightarrow> lfirst l = None"

definition Append :: "'a lstate \<Rightarrow> 'a option \<Rightarrow> 'a lstate res" where
  "Append s it = (case s of (h, l) \<Rightarrow>
     (case new_ListElement h it 0 of (element, h1) \<Rightarrow>
        if IsEmpty l then Inr (h1, l\<lparr>lfirst := Some element, llast := Some element\<rparr>)
        else rbind (set_next h1 (llast l) (Some element))
               (\<lambda>h2. Inr (h2, l\<lparr>llast := Some element\<rparr>))))"

definition Prepend :: "'a lstate \<Rightarrow> 'a option \<Rightarrow> 'a lstate res" where
  "Prepend s it = (case s of (h, l) \<Rightarrow>
     (case new_ListElement h it 0 of (element, h1) \<Rightarrow>
        if IsEmpty l then Inr (h1, l\<lparr>lfirst := Some element, llast := Some element\<rparr>)
        else rbind (set_next h1 (Some element) (lfirst l))
               (\<lambda>h2. Inr (h2, l\<lparr>lfirst := Some element\<rparr>))))"

text \<open>
  The search loop of \<open>SortedInsert\<close>: \<open>Some h'\<close> when the element was linked in before a
  bigger one (the early \<open>return\<close>), \<open>None\<close> when the loop ran to the last element.
\<close>

fun insert_walk ::
  "nat \<Rightarrow> 'a elt_store \<Rightarrow> nat \<Rightarrow> int \<Rightarrow> nat option \<Rightarrow> 'a elt_store option res" where
  "insert_walk 0 h element sortKey ptr = Inl NoFuel"
| "insert_walk (Suc fuel) h element sortKey ptr =
     rbind (deref h ptr) (\<lambda>e.
       if nxt e = None then Inr None
       else rbind (deref h (nxt e)) (\<lambda>e2.
         if sortKey < key e2
         then rbind (set_next h (Some element) (nxt e)) (\<lambda>h1.
              rbind (set_next h1 ptr (Some element)) (\<lambda>h2. Inr (Some h2)))
         else insert_walk fuel h element sortKey (nxt e)))"

definition SortedInsert :: "'a lstate \<Rightarrow> 'a option \<Rightarrow> int \<Rightarrow> 'a lstate res" where
  "SortedInsert s it sortKey = (case s of (h, l) \<Rightarrow>
     (case new_ListElement h it sortKey of (element, h1) \<Rightarrow>
        if IsEmpty l then Inr (h1, l\<lparr>lfirst := Some element, llast := Some element\<rparr>)
        else rbind (deref h1 (lfirst l)) (\<lambda>f.
          if sortKey < key f
          then rbind (set_next h1 (Some element) (lfirst l))
                 (\<lambda>h2. Inr (h2, l\<lparr>lfirst := Some element\<rparr>))
          else rbind (insert_walk (brk h1) h1 element sortKey (lfirst l)) (\<lambda>r.
            case r of Some h2 \<Rightarrow> Inr (h2, l)
            | None \<Rightarrow> rbind (set_next h1 (llast l) (Some element))
                 (\<lambda>h2. Inr (h2, l\<lparr>llast := Some element\<rparr>))))))"

text \<open>
  \<open>SortedRemove(keyPtr)\<close>: the removed item, what is stored through \<open>keyPtr\<close> (nothing on an
  empty list) and the new state. \<open>Remove()\<close> passes a null \<open>keyPtr\<close>.
\<close>

definition SortedRemove :: "'a lstate \<Rightarrow> ('a option \<times> int option \<times> 'a lstate) res" where
  "SortedRemove s = (case s of (h, l) \<Rightarrow>
     if IsEmpty l then Inr (None, None, s)
     else rbind (deref h (lfirst l)) (\<lambda>element.
       rbind (delete_elt h (lfirst l)) (\<lambda>h1.
         Inr (item element, Some (key element),
              (h1, if lfirst l = llast l then l\<lparr>lfirst := None, llast := None\<rparr>
                   else l\<lparr>lfirst := nxt element\<rparr>)))))"

definition Remove :: "'a lstate \<Rightarrow> ('a option \<times> 'a lstate) res" where
  "Remove s = rbind (SortedRemove s) (\<lambda>(thing, _, s'). Inr (thing, s'))"

text \<open>The destructor: \<open>while (Remove() != NULL);\<close>\<close>

fun List_delete :: "nat \<Rightarrow> 'a lstate \<Rightarrow> 'a lstate res" where
  "List_delete 0 s = Inl NoFuel"
| "List_delete (Suc fuel) s = rbind (Remove s) (\<lambda>(thing, s').
     if thing = None then Inr s' else List_delete fuel s')"

text \<open>\<open>Mapcar(func)\<close> from a given element on; \<open>func\<close> acts on a state of the caller.\<close>

fun mapcar_walk ::
  "nat \<Rightarrow> 'a elt_store \<Rightarrow> ('a option \<Rightarrow> 's \<Rightarrow> 's) \<Rightarrow> nat option \<Rightarrow> 's \<Rightarrow> 's res" where
  "mapcar_walk 0 h func ptr st = Inl NoFuel"
| "mapcar_walk (Suc fuel) h func ptr st =
     (if ptr = None then Inr st
      else rbind (deref h ptr) (\<lambda>e. mapcar_walk fuel h func (nxt e) (func (item e) st)))"

definition Mapcar :: "'a lstate \<Rightarrow> ('a option \<Rightarrow> 's \<Rightarrow> 's) \<Rightarrow> 's \<Rightarrow> 's res" where
  "Mapcar s func st = (case s of (h, l) \<Rightarrow> mapcar_walk (Suc (brk h)) h func (lfirst l) st)"

section \<open>Contents and well-formedness\<close>

text \<open>A path through the store along the \<open>next\<close> pointers.\<close>

fun lseg :: "(nat \<rightharpoonup> 'a ListElement) \<Rightarrow> nat option \<Rightarrow> nat list \<Rightarrow> nat option \<Rightarrow> bool" where
  "lseg c p [] q = (p = q)"
| "lseg c p (a # as) q =
     (p = Some a \<and> (case c a of None \<Rightarrow> False | Some e \<Rightarrow> lseg c (nxt e) as q))"

definition elem_of :: "(nat \<rightharpoonup> 'a ListElement) \<Rightarrow> nat \<Rightarrow> int \<times> 'a option" where
  "elem_of c a = (case c a of None \<Rightarrow> (0, None) | Some e \<Rightarrow> (key e, item e))"

text \<open>
  \<open>list_at s as\<close>: the list of \<open>s\<close> occupies exactly the addresses \<open>as\<close>, in this order, its
  last pointer is right, and the store hands out only fresh addresses.
\<close>

definition list_at :: "'a lstate \<Rightarrow> nat list \<Rightarrow> bool" where
  "list_at s as = (case s of (h, l) \<Rightarrow>
     lseg (cells h) (lfirst l) as None \<and> distinct as \<and>
     llast l = (if as = [] then None else Some (last as)) \<and>
     (\<forall>a\<in>dom (cells h). a < brk h))"

definition list_ok :: "'a lstate \<Rightarrow> bool" where
  "list_ok s \<longleftrightarrow> (\<exists>as. list_at s as)"

text \<open>The contents as the program can read them: follow the pointers, collect the elements.\<close>

fun collect :: "nat \<Rightarrow> (nat \<rightharpoonup> 'a ListElement) \<Rightarrow> nat option \<Rightarrow> (int \<times> 'a option) list" where
  "collect 0 c p = []"
| "collect (Suc fuel) c p = (case p of None \<Rightarrow> [] | Some a \<Rightarrow>
     (case c a of None \<Rightarrow> [] | Some e \<Rightarrow> (key e, item e) # collect fuel c (nxt e)))"

definition contents :: "'a lstate \<Rightarrow> (int \<times> 'a option) list" where
  "contents s = (case s of (h, l) \<Rightarrow> collect (brk h) (cells h) (lfirst l))"

section \<open>Paths\<close>

lemma lseg_append [simp]:
  "lseg c p (as @ bs) q \<longleftrightarrow> (\<exists>r. lseg c p as r \<and> lseg c r bs q)"
  by (induction as arbitrary: p) (auto split: option.splits)

lemma lseg_upd [simp]: "a \<notin> set as \<Longrightarrow> lseg (c(a := x)) p as q = lseg c p as q"
  by (induction as arbitrary: p) (auto split: option.splits)

lemma lseg_dom: "lseg c p as q \<Longrightarrow> set as \<subseteq> dom c"
  by (induction as arbitrary: p) (auto split: option.splits)

lemma lseg_null_start: "lseg c None as q \<longleftrightarrow> as = [] \<and> q = None"
  by (cases as) auto

lemma lseg_start: "lseg c p as None \<Longrightarrow> p = (if as = [] then None else Some (hd as))"
  by (cases as) auto

lemma collect_lseg:
  "lseg c p as None \<Longrightarrow> length as \<le> n \<Longrightarrow> collect n c p = map (elem_of c) as"
proof (induction as arbitrary: p n)
  case Nil
  then show ?case by (cases n) auto
next
  case (Cons a as)
  then obtain m where "n = Suc m" by (cases n) auto
  with Cons show ?case by (auto simp: elem_of_def split: option.splits)
qed

lemma list_atD:
  assumes "list_at (h, l) as"
  shows "lseg (cells h) (lfirst l) as None" "distinct as"
    "llast l = (if as = [] then None else Some (last as))"
    "\<And>a. a \<in> dom (cells h) \<Longrightarrow> a < brk h"
    "set as \<subseteq> dom (cells h)" "length as \<le> brk h" "brk h \<notin> set as" "cells h (brk h) = None"
proof -
  show p: "lseg (cells h) (lfirst l) as None" and d: "distinct as"
    and "llast l = (if as = [] then None else Some (last as))"
    and b: "\<And>a. a \<in> dom (cells h) \<Longrightarrow> a < brk h"
    using assms by (auto simp: list_at_def)
  show s: "set as \<subseteq> dom (cells h)" using p by (rule lseg_dom)
  then have "set as \<subseteq> {..<brk h}" using b by auto
  then show "brk h \<notin> set as" by auto
  have "card (set as) \<le> card {..<brk h}"
    using \<open>set as \<subseteq> {..<brk h}\<close> by (intro card_mono) auto
  then show "length as \<le> brk h" using d by (simp add: distinct_card)
  show "cells h (brk h) = None" using b [of "brk h"] by (cases "cells h (brk h)") auto
qed

lemma contents_at: "list_at (h, l) as \<Longrightarrow> contents (h, l) = map (elem_of (cells h)) as"
  by (simp add: contents_def collect_lseg list_atD)

lemma list_at_empty:
  assumes "list_at (h, l) as"
  shows "IsEmpty l \<longleftrightarrow> as = []"
  using lseg_start [OF list_atD(1) [OF assms]] by (simp add: IsEmpty_def)

lemma list_at_new: "\<forall>a\<in>dom (cells h). a < brk h \<Longrightarrow> list_at (h, List_new) []"
  by (auto simp: list_at_def List_new_def)

section \<open>Linking an element in\<close>

lemma elem_of_upd_other [simp]: "a \<noteq> b \<Longrightarrow> elem_of (c(a := x)) b = elem_of c b"
  by (simp add: elem_of_def)

lemma elem_of_upd_next [simp]:
  "c a = Some e \<Longrightarrow> elem_of (c(a \<mapsto> e\<lparr>nxt := q\<rparr>)) b = elem_of c b"
  by (simp add: elem_of_def)

lemma elem_of_upd_new [simp]:
  "elem_of (c(a \<mapsto> \<lparr>nxt = q, key = k, item = it\<rparr>)) a = (k, it)"
  by (simp add: elem_of_def)

lemma lseg_link_after:
  assumes "lseg c p (us @ u # vs) None" "distinct (us @ u # vs)" "el \<notin> set (us @ u # vs)"
    and "c u = Some e"
  shows "lseg (c(el \<mapsto> \<lparr>nxt = nxt e, key = k, item = it\<rparr>, u \<mapsto> e\<lparr>nxt := Some el\<rparr>))
           p (us @ u # el # vs) None"
  using assms by (auto split: option.splits)

lemma elems_link_after:
  assumes "distinct (us @ u # vs)" "el \<notin> set (us @ u # vs)" "c u = Some e"
  shows "map (elem_of (c(el \<mapsto> \<lparr>nxt = q, key = k, item = it\<rparr>, u \<mapsto> e\<lparr>nxt := Some el\<rparr>)))
           (us @ u # el # vs)
         = map (elem_of c) (us @ [u]) @ (k, it) # map (elem_of c) vs"
  using assms by (auto simp: elem_of_def)

text \<open>What every insertion gives: the element sits between \<open>xs\<close> and \<open>ys\<close> of the contents.\<close>

lemma list_at_link_after:
  fixes h :: "'a elt_store" and it :: "'a option" and k :: int
  assumes at: "list_at (h, l) (us @ u # vs)" and u: "cells h u = Some e"
    and h': "h' = h\<lparr>cells := (cells h)(brk h \<mapsto> \<lparr>nxt = nxt e, key = k, item = it\<rparr>,
                                     u \<mapsto> e\<lparr>nxt := Some (brk h)\<rparr>), brk := Suc (brk h)\<rparr>"
    and l': "l' = l\<lparr>llast := (if vs = [] then Some (brk h) else llast l)\<rparr>"
  shows "list_at (h', l') (us @ u # brk h # vs)"
    and "contents (h', l') =
      map (elem_of (cells h)) (us @ [u]) @ (k, it) # map (elem_of (cells h)) vs"
proof -
  note D = list_atD [OF at]
  have n: "brk h \<notin> set (us @ u # vs)" by (rule D(7))
  show at': "list_at (h', l') (us @ u # brk h # vs)"
    using lseg_link_after [OF D(1,2) n u, of k it] D(2,3,4) n u
    by (auto simp: list_at_def h' l' less_Suc_eq split: if_splits)
  show "contents (h', l') =
      map (elem_of (cells h)) (us @ [u]) @ (k, it) # map (elem_of (cells h)) vs"
    unfolding contents_at [OF at'] using elems_link_after [of us u vs "brk h" "cells h" e "nxt e" k it] D(2) n u
    by (simp add: h')
qed

lemma list_at_link_front:
  fixes h :: "'a elt_store" and it :: "'a option" and k :: int
  assumes at: "list_at (h, l) as"
    and h': "h' = h\<lparr>cells := (cells h)(brk h \<mapsto> \<lparr>nxt = lfirst l, key = k, item = it\<rparr>),
                    brk := Suc (brk h)\<rparr>"
    and l': "l' = l\<lparr>lfirst := Some (brk h),
                    llast := (if as = [] then Some (brk h) else llast l)\<rparr>"
  shows "list_at (h', l') (brk h # as)"
    and "contents (h', l') = (k, it) # map (elem_of (cells h)) as"
proof -
  note D = list_atD [OF at]
  show at': "list_at (h', l') (brk h # as)"
    using D(1-4,7) by (auto simp: list_at_def h' l' less_Suc_eq split: if_splits)
  have "map (elem_of (cells h')) as = map (elem_of (cells h)) as"
    using D(7) by (intro map_cong refl) (auto simp: h' intro!: elem_of_upd_other)
  then show "contents (h', l') = (k, it) # map (elem_of (cells h)) as"
    unfolding contents_at [OF at'] by (simp add: h')
qed

section \<open>The operations on a well-formed list\<close>

lemma deref_Some [llist]: "cells h a = Some e \<Longrightarrow> deref h (Some a) = Inr e"
  by (simp add: deref_def)

lemma set_next_Some [llist]:
  "cells h a = Some e \<Longrightarrow>
   set_next h (Some a) q = Inr (h\<lparr>cells := (cells h)(a \<mapsto> e\<lparr>nxt := q\<rparr>)\<rparr>)"
  by (simp add: set_next_def deref_Some)

lemma delete_elt_Some [llist]:
  "cells h a = Some e \<Longrightarrow> delete_elt h (Some a) = Inr (h\<lparr>cells := (cells h)(a := None)\<rparr>)"
  by (simp add: delete_elt_def deref_Some)

lemma list_at_lastE:
  assumes "list_at (h, l) as" "as \<noteq> []"
  obtains us u e where "as = us @ [u]" "llast l = Some u" "cells h u = Some e" "nxt e = None"
proof -
  obtain us u where as: "as = us @ [u]" using assms(2) by (metis rev_exhaust)
  with list_atD(1,3) [OF assms(1)] show thesis
    by (auto split: option.splits intro!: that)
qed

lemma Append_at:
  assumes at: "list_at (h, l) as"
  shows "\<exists>s'. Append (h, l) it = Inr s' \<and> list_at s' (as @ [brk h]) \<and>
           contents s' = contents (h, l) @ [(0, it)]"
proof (cases "as = []")
  case True
  then have e: "IsEmpty l" "lfirst l = None" "llast l = None"
    using at list_at_empty [OF at] list_atD(3) [OF at] by (auto simp: IsEmpty_def)
  let ?s = "(h\<lparr>cells := (cells h)(brk h \<mapsto> \<lparr>nxt = lfirst l, key = 0, item = it\<rparr>),
                brk := Suc (brk h)\<rparr>, l\<lparr>lfirst := Some (brk h), llast := Some (brk h)\<rparr>)"
  have "Append (h, l) it = Inr ?s"
    using e by (simp add: Append_def new_ListElement_def)
  then show ?thesis
    using list_at_link_front [OF at refl refl, of 0 it] True contents_at [OF at] by simp
next
  case False
  then obtain us u e where as: "as = us @ [u]" and u: "llast l = Some u" "cells h u = Some e"
    "nxt e = None" by (rule list_at_lastE [OF at])
  have ne: "\<not> IsEmpty l" "u \<noteq> brk h"
    using False list_at_empty [OF at] list_atD(7) [OF at] as by auto
  let ?s = "(h\<lparr>cells := (cells h)(brk h \<mapsto> \<lparr>nxt = nxt e, key = 0, item = it\<rparr>,
                 u \<mapsto> e\<lparr>nxt := Some (brk h)\<rparr>), brk := Suc (brk h)\<rparr>,
             l\<lparr>llast := Some (brk h)\<rparr>)"
  have "Append (h, l) it = Inr ?s"
    using ne u by (simp add: Append_def new_ListElement_def llist)
  then show ?thesis
    using list_at_link_after [OF at [unfolded as] u(2) refl refl, of 0 it] contents_at [OF at] as
    by simp
qed

lemma Prepend_at:
  assumes at: "list_at (h, l) as"
  shows "\<exists>s'. Prepend (h, l) it = Inr s' \<and> list_at s' (brk h # as) \<and>
           contents s' = (0, it) # contents (h, l)"
proof -
  let ?s = "(h\<lparr>cells := (cells h)(brk h \<mapsto> \<lparr>nxt = lfirst l, key = 0, item = it\<rparr>),
                brk := Suc (brk h)\<rparr>,
             l\<lparr>lfirst := Some (brk h), llast := (if as = [] then Some (brk h) else llast l)\<rparr>)"
  have "Prepend (h, l) it = Inr ?s"
    using list_at_empty [OF at]
    by (auto simp: Prepend_def new_ListElement_def llist IsEmpty_def)
  then show ?thesis
    using list_at_link_front [OF at refl refl, of 0 it] contents_at [OF at] by simp
qed


section \<open>The lists the operations implement\<close>

text \<open>
  The same operations on a list of keys and items. Components that only queue and dequeue
  (the scheduler, the semaphores, the interrupt queue) are modelled over these.
\<close>

type_synonym 'a klist = "(int \<times> 'a option) list"

definition kl_append :: "'a klist \<Rightarrow> 'a option \<Rightarrow> 'a klist" where
  "kl_append xs it = xs @ [(0, it)]"

definition kl_prepend :: "'a klist \<Rightarrow> 'a option \<Rightarrow> 'a klist" where
  "kl_prepend xs it = (0, it) # xs"

fun kl_insert :: "'a klist \<Rightarrow> 'a option \<Rightarrow> int \<Rightarrow> 'a klist" where
  "kl_insert [] it k = [(k, it)]"
| "kl_insert ((k0, it0) # xs) it k =
     (if k < k0 then (k, it) # (k0, it0) # xs else (k0, it0) # kl_insert xs it k)"

fun kl_remove :: "'a klist \<Rightarrow> 'a option \<times> int option \<times> 'a klist" where
  "kl_remove [] = (None, None, [])"
| "kl_remove ((k, it) # xs) = (it, Some k, xs)"

lemma kl_insert_middle:
  assumes "\<forall>x\<in>set xs. fst x \<le> k" and "ys = [] \<or> k < fst (hd ys)"
  shows "kl_insert (xs @ ys) it k = xs @ (k, it) # ys"
  using assms
proof (induction xs)
  case Nil
  then show ?case by (cases ys) auto
next
  case (Cons x xs)
  then show ?case by (cases x) auto
qed

lemma insert_walk_at:
  assumes "lseg (cells h) (Some a) (a # as) None" "distinct (a # as)" "el \<notin> set (a # as)"
    and "cells h el = Some E" "length as < n"
  shows "(\<forall>b\<in>set as. fst (elem_of (cells h) b) \<le> sk) \<and>
           insert_walk n h el sk (Some a) = Inr None \<or>
         (\<exists>us u v ws e. a # as = us @ u # v # ws \<and> cells h u = Some e \<and> nxt e = Some v \<and>
            (\<forall>b\<in>set (tl (us @ [u])). fst (elem_of (cells h) b) \<le> sk) \<and>
            sk < fst (elem_of (cells h) v) \<and>
            insert_walk n h el sk (Some a) = Inr (Some (h\<lparr>cells :=
              (cells h)(el \<mapsto> E\<lparr>nxt := Some v\<rparr>, u \<mapsto> e\<lparr>nxt := Some el\<rparr>)\<rparr>)))"
  using assms
proof (induction as arbitrary: a n)
  case Nil
  then obtain m where "n = Suc m" by (cases n) auto
  with Nil show ?case by (auto simp: deref_def split: option.splits)
next
  case (Cons b bs)
  obtain m where n: "n = Suc m" using Cons.prems(5) by (cases n) auto
  obtain e e2 where e: "cells h a = Some e" "nxt e = Some b" "cells h b = Some e2"
    "lseg (cells h) (Some b) (b # bs) None"
    using Cons.prems(1) by (auto split: option.splits)
  have kb: "fst (elem_of (cells h) b) = key e2" using e by (simp add: elem_of_def)
  have ne: "a \<noteq> el" "a \<noteq> b" using Cons.prems by auto
  show ?case
  proof (cases "sk < key e2")
    case True
    then have "insert_walk n h el sk (Some a) = Inr (Some (h\<lparr>cells :=
        (cells h)(el \<mapsto> E\<lparr>nxt := Some b\<rparr>, a \<mapsto> e\<lparr>nxt := Some el\<rparr>)\<rparr>))"
      using e ne Cons.prems(4) by (simp add: n llist)
    moreover have "a # b # bs = [] @ a # b # bs"
      "\<forall>b\<in>set (tl ([] @ [a])). fst (elem_of (cells h) b) \<le> sk"
      "sk < fst (elem_of (cells h) b)" using kb True by simp_all
    ultimately show ?thesis using e(1,2) by blast
  next
    case False
    then have w: "insert_walk n h el sk (Some a) = insert_walk m h el sk (Some b)"
      using e by (simp add: n llist)
    have IH: "(\<forall>b\<in>set bs. fst (elem_of (cells h) b) \<le> sk) \<and>
           insert_walk m h el sk (Some b) = Inr None \<or>
         (\<exists>us u v ws e. b # bs = us @ u # v # ws \<and> cells h u = Some e \<and> nxt e = Some v \<and>
            (\<forall>b\<in>set (tl (us @ [u])). fst (elem_of (cells h) b) \<le> sk) \<and>
            sk < fst (elem_of (cells h) v) \<and>
            insert_walk m h el sk (Some b) = Inr (Some (h\<lparr>cells :=
              (cells h)(el \<mapsto> E\<lparr>nxt := Some v\<rparr>, u \<mapsto> e\<lparr>nxt := Some el\<rparr>)\<rparr>)))"
      using Cons.prems e n by (intro Cons.IH) auto
    then show ?thesis
    proof (elim disjE exE conjE)
      assume "\<forall>b\<in>set bs. fst (elem_of (cells h) b) \<le> sk"
        "insert_walk m h el sk (Some b) = Inr None"
      then show ?thesis using False kb w by auto
    next
      fix us u v ws e
      assume *: "b # bs = us @ u # v # ws" "cells h u = Some e" "nxt e = Some v"
        "\<forall>b\<in>set (tl (us @ [u])). fst (elem_of (cells h) b) \<le> sk"
        "sk < fst (elem_of (cells h) v)"
        "insert_walk m h el sk (Some b) = Inr (Some (h\<lparr>cells :=
              (cells h)(el \<mapsto> E\<lparr>nxt := Some v\<rparr>, u \<mapsto> e\<lparr>nxt := Some el\<rparr>)\<rparr>))"
      have "us @ [u] = b # tl (us @ [u])" using *(1) by (cases us) auto
      then have "\<forall>c\<in>set (us @ [u]). fst (elem_of (cells h) c) \<le> sk"
        using *(4) False kb by (metis set_ConsD not_le)
      then have "\<forall>c\<in>set (tl ((a # us) @ [u])). fst (elem_of (cells h) c) \<le> sk"
        "a # b # bs = (a # us) @ u # v # ws" using *(1) by simp_all
      then show ?thesis using *(2,3,5,6) w by metis
    qed
  qed
qed

lemma inserted_intro:
  "S = Inr s' \<Longrightarrow> list_at s' as' \<Longrightarrow> set as' = A \<Longrightarrow> contents s' = xs \<Longrightarrow>
   \<exists>s' as'. S = Inr s' \<and> list_at s' as' \<and> set as' = A \<and> contents s' = xs"
  by blast

lemma SortedInsert_at:
  assumes at: "list_at (h, l) as"
  shows "\<exists>s' as'. SortedInsert (h, l) it k = Inr s' \<and> list_at s' as' \<and>
           set as' = insert (brk h) (set as) \<and> contents s' = kl_insert (contents (h, l)) it k"
proof (cases as)
  case Nil
  then have e: "IsEmpty l" "lfirst l = None"
    using list_at_empty [OF at] by (auto simp: IsEmpty_def)
  then have "SortedInsert (h, l) it k = Inr (h\<lparr>cells := (cells h)(brk h \<mapsto>
      \<lparr>nxt = lfirst l, key = k, item = it\<rparr>), brk := Suc (brk h)\<rparr>,
      l\<lparr>lfirst := Some (brk h), llast := (if as = [] then Some (brk h) else llast l)\<rparr>)"
    using Nil by (simp add: SortedInsert_def new_ListElement_def)
  then show ?thesis
    by (rule inserted_intro [OF _ list_at_link_front(1) [OF at refl refl]])
      (use list_at_link_front(2) [OF at refl refl, of k it] in
        \<open>simp_all add: Nil contents_at [OF at]\<close>)
next
  case (Cons a bs)
  note D = list_atD [OF at]
  have l: "lfirst l = Some a" "\<not> IsEmpty l"
    using lseg_start [OF D(1)] Cons by (auto simp: IsEmpty_def)
  obtain f where f: "cells h a = Some f" using D(5) Cons by auto
  have ne: "a \<noteq> brk h" using D(7) Cons by auto
  have kf: "fst (elem_of (cells h) a) = key f" using f by (simp add: elem_of_def)
  let ?E = "\<lparr>nxt = None, key = k, item = it\<rparr>"
  let ?h1 = "h\<lparr>cells := (cells h)(brk h \<mapsto> ?E), brk := Suc (brk h)\<rparr>"
  have el1: "\<And>b. b \<in> set as \<Longrightarrow> elem_of (cells ?h1) b = elem_of (cells h) b"
    using D(7) by (auto intro!: elem_of_upd_other)
  show ?thesis
  proof (cases "k < key f")
    case True
    then have "SortedInsert (h, l) it k = Inr (h\<lparr>cells := (cells h)(brk h \<mapsto>
        \<lparr>nxt = lfirst l, key = k, item = it\<rparr>), brk := Suc (brk h)\<rparr>,
        l\<lparr>lfirst := Some (brk h), llast := (if as = [] then Some (brk h) else llast l)\<rparr>)"
      using l f ne Cons by (simp add: SortedInsert_def new_ListElement_def llist)
    moreover have "kl_insert (contents (h, l)) it k = (k, it) # map (elem_of (cells h)) as"
      using True kf Cons by (cases "elem_of (cells h) a") (auto simp: contents_at [OF at])
    ultimately show ?thesis
      using list_at_link_front [OF at refl refl, of k it] by (intro inserted_intro) auto
  next
    case False
    let ?W = "insert_walk (brk ?h1) ?h1 (brk h) k (lfirst l)"
    have S: "SortedInsert (h, l) it k = rbind ?W (\<lambda>r. case r of Some h2 \<Rightarrow> Inr (h2, l)
        | None \<Rightarrow> rbind (set_next ?h1 (llast l) (Some (brk h)))
             (\<lambda>h2. Inr (h2, l\<lparr>llast := Some (brk h)\<rparr>)))"
      using l f ne False by (simp add: SortedInsert_def new_ListElement_def llist)
    have "lseg (cells ?h1) (Some a) (a # bs) None" "length bs < brk ?h1"
      using D(1,6,7) Cons l by (auto split: option.splits)
    then consider
      (last) "\<forall>b\<in>set bs. fst (elem_of (cells ?h1) b) \<le> k" "?W = Inr None"
    | (mid) us u v ws e where "a # bs = us @ u # v # ws" "cells ?h1 u = Some e"
        "nxt e = Some v" "\<forall>b\<in>set (tl (us @ [u])). fst (elem_of (cells ?h1) b) \<le> k"
        "k < fst (elem_of (cells ?h1) v)"
        "?W = Inr (Some (?h1\<lparr>cells :=
           (cells ?h1)(brk h \<mapsto> ?E\<lparr>nxt := Some v\<rparr>, u \<mapsto> e\<lparr>nxt := Some (brk h)\<rparr>)\<rparr>))"
      using insert_walk_at [of ?h1 a bs "brk h" ?E "brk ?h1" k] D(2,7) Cons l by auto
    then show ?thesis
    proof cases
      case last
      obtain us u e where as: "as = us @ [u]" and u: "llast l = Some u" "cells h u = Some e"
        "nxt e = None" using list_at_lastE [OF at] Cons by auto
      have "u \<noteq> brk h" using D(7) as by auto
      then have "SortedInsert (h, l) it k = Inr (h\<lparr>cells := (cells h)(brk h \<mapsto>
          \<lparr>nxt = nxt e, key = k, item = it\<rparr>, u \<mapsto> e\<lparr>nxt := Some (brk h)\<rparr>),
          brk := Suc (brk h)\<rparr>, l\<lparr>llast := Some (brk h)\<rparr>)"
        using u last(2) by (simp add: S llist)
      moreover have "\<forall>x\<in>set (contents (h, l)). fst x \<le> k"
        using last(1) el1 kf False Cons by (auto simp: contents_at [OF at])
      then have "kl_insert (contents (h, l)) it k = contents (h, l) @ [(k, it)]"
        using kl_insert_middle [of "contents (h, l)" k "[]" it] by simp
      moreover note list_at_link_after [OF at [unfolded as] u(2) refl refl, of k it]
      ultimately show ?thesis
        using as contents_at [OF at] by (intro inserted_intro) auto
    next
      case mid
      have as: "as = us @ u # v # ws" using mid(1) Cons by simp
      have u: "cells h u = Some e" and ub: "u \<noteq> brk h" using mid(2) D(7) as by auto
      have "SortedInsert (h, l) it k = Inr (h\<lparr>cells := (cells h)(brk h \<mapsto>
          \<lparr>nxt = nxt e, key = k, item = it\<rparr>, u \<mapsto> e\<lparr>nxt := Some (brk h)\<rparr>),
          brk := Suc (brk h)\<rparr>, l\<lparr>llast := (if v # ws = [] then Some (brk h) else llast l)\<rparr>)"
        unfolding S mid(6) using mid(3) by simp
      moreover have "us @ [u] = a # tl (us @ [u])" using mid(1) by (cases us) auto
      then have "\<forall>b\<in>set (us @ [u]). fst (elem_of (cells h) b) \<le> k"
        using mid(4) el1 kf False as
        by (metis Un_iff append_Cons append_Nil append_assoc not_le set_ConsD set_append)
      then have "kl_insert (contents (h, l)) it k
          = map (elem_of (cells h)) (us @ [u]) @ (k, it) # map (elem_of (cells h)) (v # ws)"
        using mid(5) el1 [of v] as kl_insert_middle
          [of "map (elem_of (cells h)) (us @ [u])" k "map (elem_of (cells h)) (v # ws)" it]
        by (auto simp: contents_at [OF at])
      moreover note list_at_link_after [OF at [unfolded as] u refl refl, of k it]
      ultimately show ?thesis using as by (intro inserted_intro) auto
    qed
  qed
qed

lemma SortedRemove_at:
  assumes at: "list_at (h, l) as"
  shows "\<exists>s'. SortedRemove (h, l) =
             Inr (fst (kl_remove (contents (h, l))), fst (snd (kl_remove (contents (h, l)))), s') \<and>
           list_at s' (tl as) \<and> contents s' = snd (snd (kl_remove (contents (h, l))))"
proof (cases as)
  case Nil
  then show ?thesis
    using at list_at_empty [OF at] contents_at [OF at] by (auto simp: SortedRemove_def)
next
  case (Cons a bs)
  note D = list_atD [OF at]
  have l: "lfirst l = Some a" "\<not> IsEmpty l"
    using lseg_start [OF D(1)] Cons by (auto simp: IsEmpty_def)
  obtain e where e: "cells h a = Some e" using D(5) Cons by auto
  let ?h = "h\<lparr>cells := (cells h)(a := None)\<rparr>"
  let ?l = "if lfirst l = llast l then l\<lparr>lfirst := None, llast := None\<rparr> else l\<lparr>lfirst := nxt e\<rparr>"
  have R: "SortedRemove (h, l) = Inr (item e, Some (key e), (?h, ?l))"
    using l e by (simp add: SortedRemove_def llist)
  have at': "list_at (?h, ?l) bs"
    using D(1-4) Cons l e by (cases bs) (auto simp: list_at_def split: option.splits)
  have "a \<notin> set bs" using D(2) Cons by simp
  then have "map (elem_of (cells ?h)) bs = map (elem_of (cells h)) bs"
    by (intro map_cong refl) (auto intro!: elem_of_upd_other)
  then have "contents (?h, ?l) = map (elem_of (cells h)) bs" by (simp only: contents_at [OF at'])
  moreover have "contents (h, l) = (key e, item e) # map (elem_of (cells h)) bs"
    using Cons e by (simp add: contents_at [OF at] elem_of_def)
  ultimately show ?thesis using R at' Cons by simp
qed

lemma Remove_at:
  assumes at: "list_at (h, l) as"
  shows "\<exists>s'. Remove (h, l) = Inr (fst (kl_remove (contents (h, l))), s') \<and>
           list_at s' (tl as) \<and> contents s' = snd (snd (kl_remove (contents (h, l))))"
  using SortedRemove_at [OF at] by (auto simp: Remove_def)

lemma mapcar_walk_lseg:
  "lseg (cells h) p as None \<Longrightarrow> length as < n \<Longrightarrow>
   mapcar_walk n h f p st = Inr (fold f (map (snd \<circ> elem_of (cells h)) as) st)"
proof (induction as arbitrary: p n st)
  case Nil
  then show ?case by (cases n) auto
next
  case (Cons a as)
  then obtain m where "n = Suc m" by (cases n) auto
  with Cons show ?case by (auto simp: llist elem_of_def split: option.splits)
qed

lemma Mapcar_at:
  "list_at (h, l) as \<Longrightarrow> Mapcar (h, l) f st = Inr (fold f (map snd (contents (h, l))) st)"
  using mapcar_walk_lseg [of h "lfirst l" as "Suc (brk h)" f st]
  by (simp add: Mapcar_def list_atD contents_at le_imp_less_Suc)

section \<open>The interface of a kernel list\<close>

text \<open>
  What the rest of the kernel relies on, for any representation \<open>'q\<close> with an invariant and
  a list of its elements: every operation succeeds on a good list, keeps it good and has
  the stated effect on the elements.
\<close>

fun drain :: "('q \<Rightarrow> ('a option \<times> int option \<times> 'q) res) \<Rightarrow> nat \<Rightarrow> 'q \<Rightarrow> ('a option list \<times> 'q) res"
where
  "drain rem 0 q = Inr ([], q)"
| "drain rem (Suc n) q = rbind (rem q) (\<lambda>(it, _, q').
     rbind (drain rem n q') (\<lambda>(its, q''). Inr (it # its, q'')))"

lemma sorted_kl_insert:
  "sorted (map fst xs) \<Longrightarrow> sorted (map fst (kl_insert xs it k))"
proof (induction xs it k rule: kl_insert.induct)
  case (2 k0 it0 xs it k)
  have "\<forall>x\<in>set (kl_insert xs it k). k0 \<le> fst x \<or> fst x = k" if "\<forall>x\<in>set xs. k0 \<le> fst x"
    using that by (induction xs it k rule: kl_insert.induct) auto
  with 2 show ?case by (fastforce)
qed simp

lemma mset_kl_insert [simp]: "mset (kl_insert xs it k) = add_mset (k, it) (mset xs)"
  by (induction xs it k rule: kl_insert.induct) auto

lemma kl_insert_stable:
  "filter (\<lambda>x. fst x = j) (kl_insert xs it k) =
     filter (\<lambda>x. fst x = j) xs @ (if j = k then [(k, it)] else [])"
  if "sorted (map fst xs)"
  using that
proof (induction xs it k rule: kl_insert.induct)
  case (2 k0 it0 xs it k)
  then have "filter (\<lambda>x. fst x = k) xs = []" if "k < k0"
    using that by (fastforce simp: filter_empty_conv)
  with 2 show ?case by auto
qed simp

locale kernel_list =
  fixes ok :: "'q \<Rightarrow> bool"
    and elems :: "'q \<Rightarrow> (int \<times> 'a option) list"
    and append :: "'q \<Rightarrow> 'a option \<Rightarrow> 'q res"
    and insert :: "'q \<Rightarrow> 'a option \<Rightarrow> int \<Rightarrow> 'q res"
    and remove :: "'q \<Rightarrow> ('a option \<times> int option \<times> 'q) res"
  assumes append_ok:
      "ok q \<Longrightarrow> \<exists>q'. append q it = Inr q' \<and> ok q' \<and> elems q' = elems q @ [(0, it)]"
    and insert_ok:
      "ok q \<Longrightarrow> \<exists>q'. insert q it k = Inr q' \<and> ok q' \<and> elems q' = kl_insert (elems q) it k"
    and remove_ok:
      "ok q \<Longrightarrow> \<exists>q'. remove q = Inr (fst (kl_remove (elems q)), fst (snd (kl_remove (elems q))), q')
         \<and> ok q' \<and> elems q' = snd (snd (kl_remove (elems q)))"
begin

lemma append_many:
  "ok q \<Longrightarrow> \<exists>q'. iter_res (\<lambda>it s. append s it) its q = Inr q' \<and> ok q' \<and>
     elems q' = elems q @ map (Pair 0) its"
proof (induction its arbitrary: q)
  case (Cons it its)
  obtain q1 where "append q it = Inr q1" "ok q1" "elems q1 = elems q @ [(0, it)]"
    using append_ok [OF Cons.prems] by blast
  with Cons.IH [of q1] show ?case by auto
qed simp

lemma insert_many:
  "ok q \<Longrightarrow> sorted (map fst (elems q)) \<Longrightarrow>
   \<exists>q'. iter_res (\<lambda>(it, k) s. insert s it k) xs q = Inr q' \<and> ok q' \<and>
     sorted (map fst (elems q')) \<and>
     mset (elems q') = mset (elems q) + mset (map (\<lambda>(it, k). (k, it)) xs)"
proof (induction xs arbitrary: q)
  case (Cons x xs)
  obtain it k where x: "x = (it, k)" by (cases x)
  obtain q1 where q1: "insert q it k = Inr q1" "ok q1" "elems q1 = kl_insert (elems q) it k"
    using insert_ok [OF Cons.prems(1)] by blast
  have "sorted (map fst (elems q1))" using Cons.prems(2) by (simp add: q1 sorted_kl_insert)
  from Cons.IH [OF q1(2) this] q1 show ?case by (auto simp: x)
qed simp

lemma drain_all:
  "ok q \<Longrightarrow> \<exists>q'. drain remove (length (elems q)) q = Inr (map snd (elems q), q') \<and>
     ok q' \<and> elems q' = []"
proof (induction "length (elems q)" arbitrary: q)
  case (Suc n)
  then obtain k it xs where e: "elems q = (k, it) # xs" by (cases "elems q") auto
  obtain q1 where "remove q = Inr (it, Some k, q1)" "ok q1" "elems q1 = xs"
    using remove_ok [OF Suc.prems] by (auto simp: e)
  with Suc.hyps(1) [of q1] Suc.hyps(2) show ?case by (auto simp: e)
qed simp

lemma fifo_order:
  assumes "ok q" "elems q = []"
  shows "\<exists>q1 q2. iter_res (\<lambda>it s. append s it) its q = Inr q1 \<and>
           drain remove (length its) q1 = Inr (its, q2) \<and> ok q2 \<and> elems q2 = []"
proof -
  obtain q1 where q1: "iter_res (\<lambda>it s. append s it) its q = Inr q1" "ok q1"
    "elems q1 = map (Pair 0) its" using append_many [OF assms(1), of its] assms(2) by auto
  have "length (elems q1) = length its" "map snd (elems q1) = its"
    by (simp_all add: q1 comp_def)
  with drain_all [OF q1(2)] q1(1) show ?thesis by auto
qed

lemma priority_order:
  assumes "ok q" "elems q = []"
  shows "\<exists>q1 q2 ks. iter_res (\<lambda>(it, k) s. insert s it k) xs q = Inr q1 \<and>
           drain remove (length xs) q1 = Inr (map snd ks, q2) \<and> elems q2 = [] \<and>
           sorted (map fst ks) \<and> mset ks = mset (map (\<lambda>(it, k). (k, it)) xs)"
proof -
  obtain q1 where q1: "iter_res (\<lambda>(it, k) s. insert s it k) xs q = Inr q1" "ok q1"
    "sorted (map fst (elems q1))" "mset (elems q1) = mset (map (\<lambda>(it, k). (k, it)) xs)"
    using insert_many [OF assms(1), of xs] assms(2) by auto
  have "length (elems q1) = length xs" using arg_cong [OF q1(4), of size] by simp
  with drain_all [OF q1(2)] q1 show ?thesis by auto
qed

end

interpretation ptr_list: kernel_list list_ok contents Append SortedInsert SortedRemove
proof unfold_locales
  fix q :: "'a lstate" and it :: "'a option" and k :: int
  assume "list_ok q"
  then obtain h l as where q: "q = (h, l)" and at: "list_at (h, l) as"
    by (cases q) (auto simp: list_ok_def)
  show "\<exists>q'. Append q it = Inr q' \<and> list_ok q' \<and> contents q' = contents q @ [(0, it)]"
    using Append_at [OF at, of it] unfolding q list_ok_def by blast
  show "\<exists>q'. SortedInsert q it k = Inr q' \<and> list_ok q' \<and>
          contents q' = kl_insert (contents q) it k"
    using SortedInsert_at [OF at, of it k] unfolding q list_ok_def by blast
  show "\<exists>q'. SortedRemove q =
          Inr (fst (kl_remove (contents q)), fst (snd (kl_remove (contents q))), q') \<and>
          list_ok q' \<and> contents q' = snd (snd (kl_remove (contents q)))"
    using SortedRemove_at [OF at] unfolding q list_ok_def by blast
qed

interpretation klist: kernel_list "\<lambda>_. True" "\<lambda>xs. xs"
    "\<lambda>xs it. Inr (kl_append xs it)" "\<lambda>xs it k. Inr (kl_insert xs it k)" "\<lambda>xs. Inr (kl_remove xs)"
  by unfold_locales (auto simp: kl_append_def prod_eq_iff)

section \<open>Properties\<close>

text \<open>The empty store with an empty list, as \<open>new List\<close> leaves it.\<close>

definition empty_state :: "'a lstate" where
  "empty_state = (\<lparr>cells = Map.empty, brk = 0\<rparr>, List_new)"

lemma empty_state_ok [simp]: "list_ok empty_state" "contents empty_state = []"
  using list_at_new [of "\<lparr>cells = Map.empty, brk = 0\<rparr>"]
  by (auto simp: empty_state_def list_ok_def contents_def)

lemma destroy_at:
  "list_at (h, l) as \<Longrightarrow> length as < n \<Longrightarrow>
   \<exists>s'. List_delete n (h, l) = Inr s' \<and> list_ok s' \<and>
     contents s' = tl (dropWhile (\<lambda>x. snd x \<noteq> None) (contents (h, l)))"
proof (induction n arbitrary: h l as)
  case (Suc n)
  obtain s1 where s1: "Remove (h, l) = Inr (fst (kl_remove (contents (h, l))), s1)"
    "list_at s1 (tl as)" "contents s1 = snd (snd (kl_remove (contents (h, l))))"
    using Remove_at [OF Suc.prems(1)] by blast
  obtain h' l' where eq: "s1 = (h', l')" by (cases s1)
  note r = s1 [unfolded eq]
  show ?case
  proof (cases as)
    case Nil
    then have "contents (h, l) = []" using contents_at [OF Suc.prems(1)] by simp
    moreover have "list_ok (h', l')" using r(2) unfolding list_ok_def by blast
    ultimately show ?thesis using r(1,3) by simp
  next
    case (Cons a bs)
    obtain k it where "elem_of (cells h) a = (k, it)" by (cases "elem_of (cells h) a")
    then have c: "contents (h, l) = (k, it) # contents (h', l')"
      using r(3) contents_at [OF Suc.prems(1)] Cons by simp
    show ?thesis
    proof (cases it)
      case None
      moreover have "list_ok (h', l')" using r(2) unfolding list_ok_def by blast
      ultimately show ?thesis using r(1) c by simp
    next
      case (Some x)
      have "\<exists>s'. List_delete n (h', l') = Inr s' \<and> list_ok s' \<and>
          contents s' = tl (dropWhile (\<lambda>x. snd x \<noteq> None) (contents (h', l')))"
        using r(2) Suc.prems(2) Cons by (intro Suc.IH [of h' l' bs]) auto
      with r(1) c Some show ?thesis by simp
    qed
  qed
qed simp

lemma kl_insert_eq:
  "kl_insert xs it k =
     takeWhile (\<lambda>x. fst x \<le> k) xs @ (k, it) # dropWhile (\<lambda>x. fst x \<le> k) xs"
  by (induction xs it k rule: kl_insert.induct) auto

text \<open>
  C12: \<open>List::SortedInsert\<close> on a well-formed list always succeeds: no null or dangling
  pointer is followed and the search loop ends. It leaves a well-formed list whose
  elements are the old ones with the new one put after every element of smaller or equal
  key and before the first bigger one; a list sorted by key stays sorted, and elements
  with equal keys stay in order of insertion.
\<close>

theorem SortedInsert_correct:
  assumes "list_ok s"
  shows "\<exists>s'. SortedInsert s it k = Inr s' \<and> list_ok s' \<and>
     contents s' = takeWhile (\<lambda>x. fst x \<le> k) (contents s) @ (k, it)
                     # dropWhile (\<lambda>x. fst x \<le> k) (contents s) \<and>
     (sorted (map fst (contents s)) \<longrightarrow> sorted (map fst (contents s')) \<and>
        filter (\<lambda>x. fst x = k) (contents s') = filter (\<lambda>x. fst x = k) (contents s) @ [(k, it)])"
proof -
  obtain s' where s': "SortedInsert s it k = Inr s'" "list_ok s'"
    "contents s' = kl_insert (contents s) it k" using ptr_list.insert_ok [OF assms] by blast
  then show ?thesis
    using sorted_kl_insert [of "contents s" it k] kl_insert_stable [of "contents s" k it k]
    by (simp add: kl_insert_eq [symmetric])
qed

definition two_elements :: "string lstate" where
  "two_elements =
     (\<lparr>cells = [4 \<mapsto> \<lparr>nxt = Some 7, key = 10, item = Some ''timer''\<rparr>,
                7 \<mapsto> \<lparr>nxt = None, key = 20, item = Some ''disk''\<rparr>], brk = 9\<rparr>,
      \<lparr>lfirst = Some 4, llast = Some 7\<rparr>)"

lemma two_elements_at: "list_at two_elements [4, 7]"
  by (auto simp: two_elements_def list_at_def)

lemma two_elements_ok: "list_ok two_elements"
  using two_elements_at by (auto simp: list_ok_def)

lemma two_elements_contents:
  "contents two_elements = [(10, Some ''timer''), (20, Some ''disk'')]"
  using contents_at [of "fst two_elements" "snd two_elements" "[4, 7]"] two_elements_at
  by (simp add: two_elements_def elem_of_def)

theorem SortedInsert_correct_witness:
  "list_ok two_elements \<and>
   (\<exists>s'. SortedInsert two_elements (Some ''console'') 10 = Inr s' \<and> list_ok s' \<and>
     contents s' = [(10, Some ''timer''), (10, Some ''console''), (20, Some ''disk'')])"
  using two_elements_ok SortedInsert_correct [OF two_elements_ok, of "Some ''console''" 10]
  by (auto simp: two_elements_contents)

text \<open>
  The list is a queue. Starting from a new \<open>List\<close>, any number of \<open>Append\<close>s followed by
  as many \<open>SortedRemove\<close>s (which \<open>Remove\<close> is) gives the items back in the order they were
  appended, with no failure, and leaves the list empty.
\<close>

theorem Append_Remove_fifo:
  "\<exists>q1 q2. iter_res (\<lambda>it s. Append s it) its empty_state = Inr q1 \<and>
     drain SortedRemove (length its) q1 = Inr (its, q2) \<and> list_ok q2 \<and> contents q2 = []"
  by (rule ptr_list.fifo_order) simp_all


text \<open>
  C34: the destructor \<open>~List\<close> ends on every well-formed list and takes elements off the
  front up to and including the first whose item is null; in particular it empties a list
  without null items, and it stops early (leaving the elements after a null item in
  the store) otherwise.
\<close>

theorem List_delete_stops_at_null:
  assumes "list_ok s" "length (contents s) < n"
  shows "\<exists>s'. List_delete n s = Inr s' \<and> list_ok s' \<and>
     contents s' = tl (dropWhile (\<lambda>x. snd x \<noteq> None) (contents s)) \<and>
     ((\<forall>x\<in>set (contents s). snd x \<noteq> None) \<longrightarrow> contents s' = [])"
proof -
  obtain h l as where s: "s = (h, l)" and at: "list_at (h, l) as"
    using assms(1) by (cases s) (auto simp: list_ok_def)
  have "length as < n" using assms(2) contents_at [OF at] by (simp add: s)
  then obtain s' where s': "List_delete n s = Inr s'" "list_ok s'"
    "contents s' = tl (dropWhile (\<lambda>x. snd x \<noteq> None) (contents s))"
    using destroy_at [OF at] unfolding s by blast
  have "contents s' = []" if "\<forall>x\<in>set (contents s). snd x \<noteq> None"
    using that by (simp add: s'(3) dropWhile_eq_Nil_conv [THEN iffD2])
  with s' show ?thesis by blast
qed

theorem List_delete_stops_at_null_witness:
  "list_ok two_elements \<and> length (contents two_elements) < 3 \<and>
   (\<exists>s'. List_delete 3 two_elements = Inr s' \<and> contents s' = [])"
  using two_elements_ok List_delete_stops_at_null [OF two_elements_ok, of 3]
  by (auto simp: two_elements_contents)

end
