(* ===== verification/Bit_Map.thy ===== *)
theory Bit_Map
  imports Nachos_Prelude
begin

text \<open>
  The bitmap of \<open>userprog/bitmap.h\<close> and \<open>userprog/bitmap.cc\<close>: an array of 32-bit words
  that records which page frames, disk sectors, process slots and semaphore slots are in
  use. The words are machine words and the bit operations are the ones of the code; the
  set of bits that are on is the abstraction, and the bitmap is shown to be a
  \<open>slot_pool\<close> over it.
\<close>

unbundle bit_operations_syntax

named_theorems bitmap \<open>effect of the bitmap operations on the set of marked bits\<close>

section \<open>Data and operations\<close>

abbreviation BitsInWord :: int where "BitsInWord \<equiv> 32"

record BitMap =
  numBits :: int
  numWords :: int
  bmap :: "32 word list"

definition word_of_bit :: "int \<Rightarrow> nat" where
  "word_of_bit which = nat (which sdiv BitsInWord)"

definition mask_of_bit :: "int \<Rightarrow> 32 word" where
  "mask_of_bit which = push_bit (nat (which smod BitsInWord)) 1"

definition BitMap_Mark :: "BitMap \<Rightarrow> int \<Rightarrow> BitMap res" where
  "BitMap_Mark bm which =
     rbind (ASSERT (0 \<le> which \<and> which < numBits bm)) (\<lambda>_.
       Inr (bm\<lparr>bmap := (bmap bm)[word_of_bit which :=
              bmap bm ! word_of_bit which OR mask_of_bit which]\<rparr>))"

definition BitMap_Clear :: "BitMap \<Rightarrow> int \<Rightarrow> BitMap res" where
  "BitMap_Clear bm which =
     rbind (ASSERT (0 \<le> which \<and> which < numBits bm)) (\<lambda>_.
       Inr (bm\<lparr>bmap := (bmap bm)[word_of_bit which :=
              bmap bm ! word_of_bit which AND NOT (mask_of_bit which)]\<rparr>))"

definition BitMap_Test :: "BitMap \<Rightarrow> int \<Rightarrow> bool res" where
  "BitMap_Test bm which =
     rbind (ASSERT (0 \<le> which \<and> which < numBits bm)) (\<lambda>_.
       Inr (bmap bm ! word_of_bit which AND mask_of_bit which \<noteq> 0))"

text \<open>
  \<open>new unsigned int[numWords]\<close> is uninitialised memory: \<open>mem\<close> is what it happens to hold.
  The constructor clears the bits one by one.
\<close>

definition BitMap_new :: "(nat \<Rightarrow> 32 word) \<Rightarrow> int \<Rightarrow> BitMap res" where
  "BitMap_new mem nitems =
     iter_res (\<lambda>i bm. BitMap_Clear bm (int i)) [0..<nat nitems]
       \<lparr>numBits = nitems, numWords = divRoundUp nitems BitsInWord,
        bmap = map mem [0..<nat (divRoundUp nitems BitsInWord)]\<rparr>"

text \<open>The loops of \<open>Find\<close>, \<open>NumClear\<close> and \<open>Print\<close>, from bit \<open>i\<close> on with \<open>n\<close> bits to go.\<close>

fun find_loop :: "BitMap \<Rightarrow> nat \<Rightarrow> nat \<Rightarrow> (int \<times> BitMap) res" where
  "find_loop bm i 0 = Inr (-1, bm)"
| "find_loop bm i (Suc n) = rbind (BitMap_Test bm (int i)) (\<lambda>t.
     if \<not> t then rbind (BitMap_Mark bm (int i)) (\<lambda>bm'. Inr (int i, bm'))
     else find_loop bm (Suc i) n)"

definition BitMap_Find :: "BitMap \<Rightarrow> (int \<times> BitMap) res" where
  "BitMap_Find bm = find_loop bm 0 (nat (numBits bm))"

fun numclear_loop :: "BitMap \<Rightarrow> nat \<Rightarrow> nat \<Rightarrow> int \<Rightarrow> int res" where
  "numclear_loop bm i 0 count = Inr count"
| "numclear_loop bm i (Suc n) count = rbind (BitMap_Test bm (int i)) (\<lambda>t.
     numclear_loop bm (Suc i) n (if \<not> t then count + 1 else count))"

definition BitMap_NumClear :: "BitMap \<Rightarrow> int res" where
  "BitMap_NumClear bm = numclear_loop bm 0 (nat (numBits bm)) 0"

fun print_loop :: "BitMap \<Rightarrow> nat \<Rightarrow> nat \<Rightarrow> int list res" where
  "print_loop bm i 0 = Inr []"
| "print_loop bm i (Suc n) = rbind (BitMap_Test bm (int i)) (\<lambda>t.
     rbind (print_loop bm (Suc i) n) (\<lambda>out. Inr (if t then int i # out else out)))"

text \<open>The numbers \<open>Print\<close> writes, in order.\<close>

definition BitMap_Print :: "BitMap \<Rightarrow> int list res" where
  "BitMap_Print bm = print_loop bm 0 (nat (numBits bm))"

section \<open>The set of marked bits\<close>

definition bitmap_ok :: "BitMap \<Rightarrow> bool" where
  "bitmap_ok bm \<longleftrightarrow> 0 \<le> numBits bm \<and> numWords bm = divRoundUp (numBits bm) BitsInWord \<and>
     length (bmap bm) = nat (numWords bm)"

definition nbits :: "BitMap \<Rightarrow> nat" where
  "nbits bm = nat (numBits bm)"

definition bit_on :: "BitMap \<Rightarrow> nat \<Rightarrow> bool" where
  "bit_on bm i \<longleftrightarrow> bit (bmap bm ! (i div 32)) (i mod 32)"

definition marked :: "BitMap \<Rightarrow> nat set" where
  "marked bm = {i. i < nbits bm \<and> bit_on bm i}"

lemma in_range_iff: "0 \<le> w \<and> w < numBits bm \<longleftrightarrow> (\<exists>i. w = int i \<and> i < nbits bm)"
  by (auto simp: nbits_def intro!: exI [of _ "nat w"])

lemma word_of_bit_int [simp]: "word_of_bit (int i) = i div 32"
  by (simp add: word_of_bit_def c_arith nat_div_distrib)

lemma mask_of_bit_int [simp]: "mask_of_bit (int i) = 2 ^ (i mod 32)"
  by (simp add: mask_of_bit_def c_arith nat_mod_distrib push_bit_of_1)

lemma word_index_in_range:
  assumes "bitmap_ok bm" "i < nbits bm"
  shows "i div 32 < length (bmap bm)"
proof -
  have "int i div 32 < divRoundUp (numBits bm) 32"
    using assms by (intro less_divRoundUp) (auto simp: bitmap_ok_def nbits_def)
  then show ?thesis using assms(1) by (simp add: bitmap_ok_def zless_nat_eq_int_zless zdiv_int)
qed

lemma mark_raw: "i < nbits bm \<Longrightarrow> BitMap_Mark bm (int i) =
   Inr (bm\<lparr>bmap := (bmap bm)[i div 32 := bmap bm ! (i div 32) OR 2 ^ (i mod 32)]\<rparr>)"
  by (simp add: BitMap_Mark_def nbits_def)

lemma clear_raw: "i < nbits bm \<Longrightarrow> BitMap_Clear bm (int i) =
   Inr (bm\<lparr>bmap := (bmap bm)[i div 32 := bmap bm ! (i div 32) AND NOT (2 ^ (i mod 32))]\<rparr>)"
  by (simp add: BitMap_Clear_def nbits_def)

lemma test_marked [bitmap]: "i < nbits bm \<Longrightarrow> BitMap_Test bm (int i) = Inr (i \<in> marked bm)"
  by (simp add: BitMap_Test_def nbits_def marked_def bit_on_def and_exp_eq_0_iff_not_bit)

lemma same_slot_iff: "(i::nat) div 32 = j div 32 \<and> i mod 32 = j mod 32 \<longleftrightarrow> i = j"
  by (metis div_mult_mod_eq)

lemma bit_on_update:
  assumes "bitmap_ok bm" "i < nbits bm" "j < nbits bm"
    and "\<And>n. n < 32 \<Longrightarrow> bit v n = (if n = i mod 32 then b else bit (bmap bm ! (i div 32)) n)"
  shows "bit_on (bm\<lparr>bmap := (bmap bm)[i div 32 := v]\<rparr>) j = (if j = i then b else bit_on bm j)"
  using word_index_in_range [OF assms(1,2)] word_index_in_range [OF assms(1,3)] assms(4) [of "j mod 32"]
    same_slot_iff [of i j]
  by (auto simp: bit_on_def nth_list_update)

lemma mark_ok [bitmap]:
  assumes "bitmap_ok bm" "i < nbits bm"
  shows "\<exists>bm'. BitMap_Mark bm (int i) = Inr bm' \<and> bitmap_ok bm' \<and> numBits bm' = numBits bm \<and>
           marked bm' = insert i (marked bm)"
proof -
  let ?v = "bmap bm ! (i div 32) OR 2 ^ (i mod 32)"
  have v: "bit ?v n = (if n = i mod 32 then True else bit (bmap bm ! (i div 32)) n)" if "n < 32" for n
    using that by (auto simp: bit_simps)
  show ?thesis
    using bit_on_update [OF assms _ v] assms
    by (auto simp: mark_raw bitmap_ok_def marked_def nbits_def split: if_splits)
qed

lemma clear_ok [bitmap]:
  assumes "bitmap_ok bm" "i < nbits bm"
  shows "\<exists>bm'. BitMap_Clear bm (int i) = Inr bm' \<and> bitmap_ok bm' \<and> numBits bm' = numBits bm \<and>
           marked bm' = marked bm - {i}"
proof -
  let ?v = "bmap bm ! (i div 32) AND NOT (2 ^ (i mod 32))"
  have v: "bit ?v n = (if n = i mod 32 then False else bit (bmap bm ! (i div 32)) n)" if "n < 32" for n
    using that by (auto simp: bit_simps)
  show ?thesis
    using bit_on_update [OF assms _ v] assms
    by (auto simp: clear_raw bitmap_ok_def marked_def nbits_def split: if_splits)
qed

lemma marked_subset: "marked bm \<subseteq> {..<nbits bm}"
  by (auto simp: marked_def)

lemma finite_marked [simp]: "finite (marked bm)"
  using marked_subset finite_subset by blast

section \<open>The loops\<close>

lemma find_loop_eq:
  "i + n \<le> nbits bm \<Longrightarrow> find_loop bm i n =
     (case find (\<lambda>j. j \<notin> marked bm) [i..<i + n] of None \<Rightarrow> Inr (-1, bm)
      | Some j \<Rightarrow> rbind (BitMap_Mark bm (int j)) (\<lambda>bm'. Inr (int j, bm')))"
proof (induction n arbitrary: i)
  case (Suc n)
  have "[i..<i + Suc n] = i # [Suc i..<Suc i + n]" by (simp add: upt_rec)
  with Suc.IH [of "Suc i"] Suc.prems show ?case
    by (simp del: upt_Suc add: test_marked)
qed simp

lemma BitMap_Find_eq:
  "BitMap_Find bm = (case first_index (\<lambda>j. j \<notin> marked bm) (nbits bm) of None \<Rightarrow> Inr (-1, bm)
      | Some j \<Rightarrow> rbind (BitMap_Mark bm (int j)) (\<lambda>bm'. Inr (int j, bm')))"
  using find_loop_eq [of 0 "nbits bm" bm] by (simp add: BitMap_Find_def nbits_def first_index_def)

lemma numclear_loop_eq:
  "i + n \<le> nbits bm \<Longrightarrow> numclear_loop bm i n c = Inr (c + int (card ({i..<i + n} - marked bm)))"
proof (induction n arbitrary: i c)
  case (Suc n)
  have e: "{i..<i + Suc n} = insert i {Suc i..<Suc i + n}" by auto
  have "numclear_loop bm i (Suc n) c =
      Inr ((if i \<notin> marked bm then c + 1 else c) + int (card ({Suc i..<Suc i + n} - marked bm)))"
    using Suc.prems Suc.IH [of "Suc i"] by (simp add: test_marked)
  moreover have "card ({i..<i + Suc n} - marked bm) =
      (if i \<notin> marked bm then 1 else 0) + card ({Suc i..<Suc i + n} - marked bm)"
    unfolding e by (simp add: insert_Diff_if)
  ultimately show ?case by (simp del: numclear_loop.simps)
qed simp

lemma NumClear_eq [bitmap]: "BitMap_NumClear bm = Inr (int (nbits bm - card (marked bm)))"
proof -
  have "card ({..<nbits bm} - marked bm) = nbits bm - card (marked bm)"
    by (subst card_Diff_subset) (auto simp: marked_subset)
  then show ?thesis
    using numclear_loop_eq [of 0 "nbits bm" bm 0]
    by (simp add: BitMap_NumClear_def nbits_def [symmetric] atLeast0LessThan)
qed

lemma print_loop_eq:
  "i + n \<le> nbits bm \<Longrightarrow> print_loop bm i n = Inr (map int (filter (\<lambda>j. j \<in> marked bm) [i..<i + n]))"
proof (induction n arbitrary: i)
  case (Suc n)
  have "[i..<i + Suc n] = i # [Suc i..<Suc i + n]" by (simp add: upt_rec)
  with Suc.IH [of "Suc i"] Suc.prems show ?case
    by (simp del: upt_Suc add: test_marked)
qed simp

lemma clear_prefix:
  "bitmap_ok bm \<Longrightarrow> n \<le> nbits bm \<Longrightarrow>
   \<exists>bm'. iter_res (\<lambda>i bm. BitMap_Clear bm (int i)) [0..<n] bm = Inr bm' \<and> bitmap_ok bm' \<and>
     numBits bm' = numBits bm \<and> marked bm' = marked bm - {..<n}"
proof (induction n)
  case (Suc n)
  then obtain b1 where b1: "iter_res (\<lambda>i bm. BitMap_Clear bm (int i)) [0..<n] bm = Inr b1"
    "bitmap_ok b1" "numBits b1 = numBits bm" "marked b1 = marked bm - {..<n}" by auto
  with clear_ok [of b1 n] Suc.prems show ?case
    by (auto simp: iter_res_append nbits_def lessThan_Suc)
qed simp

section \<open>The bitmap as an allocator\<close>

lemma find_slot_full:
  "marked b = {..<nbits b} \<Longrightarrow> BitMap_Find b = Inr (-1, b)"
  using first_index_None [of "\<lambda>j. j \<notin> marked b" "nbits b"] by (simp add: BitMap_Find_eq)

lemma find_slot_free:
  assumes "bitmap_ok b" "marked b \<noteq> {..<nbits b}"
  shows "\<exists>i b'. BitMap_Find b = Inr (int i, b') \<and> bitmap_ok b' \<and> i < nbits b \<and> i \<notin> marked b \<and>
           (\<forall>j<i. j \<in> marked b) \<and> marked b' = insert i (marked b) \<and> nbits b' = nbits b"
proof -
  have "first_index (\<lambda>j. j \<notin> marked b) (nbits b) \<noteq> None"
    using assms(2) marked_subset [of b] by (auto simp: first_index_None)
  then obtain i where f: "first_index (\<lambda>j. j \<notin> marked b) (nbits b) = Some i" by auto
  then have i: "i < nbits b" "i \<notin> marked b" "\<forall>j<i. j \<in> marked b"
    by (auto simp: first_index_Some)
  obtain b' where "BitMap_Mark b (int i) = Inr b'" "bitmap_ok b'" "numBits b' = numBits b"
    "marked b' = insert i (marked b)" using mark_ok [OF assms(1) i(1)] by blast
  moreover from this have "BitMap_Find b = Inr (int i, b')" unfolding BitMap_Find_eq f by simp
  moreover have "nbits b' = nbits b" using \<open>numBits b' = numBits b\<close> by (simp add: nbits_def)
  ultimately show ?thesis using i by blast
qed

interpretation bits: slot_pool bitmap_ok marked nbits BitMap_Find BitMap_Clear
proof unfold_locales
  fix b :: BitMap and i :: nat
  assume ok: "bitmap_ok b"
  show "marked b \<subseteq> {..<nbits b}" by (rule marked_subset)
  show "marked b = {..<nbits b} \<Longrightarrow> BitMap_Find b = Inr (-1, b)" by (rule find_slot_full)
  show "marked b \<noteq> {..<nbits b} \<Longrightarrow> \<exists>i b'. BitMap_Find b = Inr (int i, b') \<and> bitmap_ok b' \<and>
      i < nbits b \<and> i \<notin> marked b \<and> (\<forall>j<i. j \<in> marked b) \<and> marked b' = insert i (marked b) \<and>
      nbits b' = nbits b" by (rule find_slot_free [OF ok])
  show "i < nbits b \<Longrightarrow> \<exists>b'. BitMap_Clear b (int i) = Inr b' \<and> bitmap_ok b' \<and>
      marked b' = marked b - {i} \<and> nbits b' = nbits b"
    using clear_ok [OF ok, of i] by (auto simp: nbits_def)
qed

text \<open>
  A new \<open>BitMap\<close> of \<open>nitems\<close> bits is well formed and has every bit clear, whatever the
  freshly allocated words held before.
\<close>

lemma BitMap_new_ok:
  assumes "0 \<le> nitems"
  shows "\<exists>bm. BitMap_new mem nitems = Inr bm \<and> bitmap_ok bm \<and> numBits bm = nitems \<and> marked bm = {}"
proof -
  let ?raw = "\<lparr>numBits = nitems, numWords = divRoundUp nitems BitsInWord,
      bmap = map mem [0..<nat (divRoundUp nitems BitsInWord)]\<rparr>"
  have ok: "bitmap_ok ?raw" using assms by (simp add: bitmap_ok_def)
  obtain bm where bm: "BitMap_new mem nitems = Inr bm" "bitmap_ok bm" "numBits bm = nitems"
    "marked bm = marked ?raw - {..<nat nitems}"
    using clear_prefix [OF ok, of "nat nitems"] by (auto simp: BitMap_new_def nbits_def)
  have "marked ?raw \<subseteq> {..<nat nitems}" using marked_subset [of ?raw] by (simp add: nbits_def)
  then show ?thesis using bm by simp
qed

lemma BitMap_new_all_clear:
  assumes "0 \<le> nitems"
  shows "\<exists>bm. BitMap_new mem nitems = Inr bm \<and> bitmap_ok bm \<and> numBits bm = nitems \<and>
           marked bm = {} \<and> BitMap_NumClear bm = Inr nitems"
  using BitMap_new_ok [OF assms, of mem] assms by (auto simp: NumClear_eq nbits_def)

section \<open>Properties\<close>

text \<open>
  \<open>BitMap::Find\<close> returns the lowest clear bit and marks it and nothing else; when every
  bit is marked it returns -1 and changes nothing. Its assertions never fail.
\<close>

theorem BitMap_Find_lowest_clear:
  assumes "bitmap_ok bm"
  shows "if marked bm = {..<nbits bm} then BitMap_Find bm = Inr (-1, bm)
         else \<exists>i bm'. BitMap_Find bm = Inr (int i, bm') \<and> bitmap_ok bm' \<and> i < nbits bm \<and>
                i \<notin> marked bm \<and> (\<forall>j<i. j \<in> marked bm) \<and>
                marked bm' = insert i (marked bm) \<and> nbits bm' = nbits bm"
  using bits.find_full [OF assms] bits.find_free [OF assms] by simp

definition sample_map :: BitMap where
  "sample_map = \<lparr>numBits = 34, numWords = 2, bmap = [4294967295, 1]\<rparr>"

lemma sample_map_ok [simp]: "bitmap_ok sample_map" "nbits sample_map = 34"
  by (simp_all add: sample_map_def bitmap_ok_def divRoundUp_def c_arith nbits_def)

lemma sample_map_33: "33 \<notin> marked sample_map"
  by (simp add: sample_map_def marked_def nbits_def bit_on_def)

theorem BitMap_Find_lowest_clear_witness:
  "bitmap_ok sample_map \<and> (\<exists>i bm'. BitMap_Find sample_map = Inr (int i, bm') \<and> i < 34 \<and>
     i \<notin> marked sample_map \<and> marked bm' = insert i (marked sample_map))"
proof -
  have "33 \<in> {..<nbits sample_map}" by simp
  then have "marked sample_map \<noteq> {..<nbits sample_map}" using sample_map_33 by metis
  with BitMap_Find_lowest_clear [OF sample_map_ok(1)] show ?thesis
    unfolding sample_map_ok(2) by (metis sample_map_ok(1))
qed

text \<open>
  Allocating \<open>n\<close> slots with \<open>Find\<close>, when \<open>NumClear\<close> says that there are that many, gives
  \<open>n\<close> different slots that were all free, marks exactly these, and clearing them again
  restores the set of marked bits.
\<close>

theorem BitMap_alloc_free_roundtrip:
  assumes "bitmap_ok bm" "BitMap_NumClear bm = Inr c" "int n \<le> c"
  shows "\<exists>xs b1 b2. alloc_many BitMap_Find n bm = Inr (map int xs, b1) \<and> length xs = n \<and>
     distinct xs \<and> set xs \<inter> marked bm = {} \<and> set xs \<subseteq> {..<nbits bm} \<and>
     marked b1 = marked bm \<union> set xs \<and> BitMap_NumClear b1 = Inr (c - int n) \<and>
     iter_res (\<lambda>x b. BitMap_Clear b x) (map int xs) b1 = Inr b2 \<and> marked b2 = marked bm"
proof -
  have n: "n \<le> nbits bm - card (marked bm)" using assms(2,3) by (simp add: NumClear_eq)
  obtain xs b1 where a: "alloc_many BitMap_Find n bm = Inr (map int xs, b1)" "bitmap_ok b1"
    "length xs = n" "distinct xs" "set xs \<inter> marked bm = {}" "set xs \<subseteq> {..<nbits bm}"
    "marked b1 = marked bm \<union> set xs" "nbits b1 = nbits bm"
    using bits.find_many [OF assms(1) n] by blast
  have "set xs \<subseteq> {..<nbits b1}" using a(6,8) by simp
  then obtain b2 where "iter_res (\<lambda>x b. BitMap_Clear b x) (map int xs) b1 = Inr b2"
    "marked b2 = marked b1 - set xs" using bits.free_many [OF a(2)] by blast
  moreover have "card (marked b1) = card (marked bm) + n"
    using a(3,4,5) by (simp add: a(7) card_Un_disjoint distinct_card Int_commute)
  moreover have "marked b1 - set xs = marked bm" using a(5,7) by auto
  moreover have "BitMap_NumClear b1 = Inr (c - int n)"
    using a(8) n assms(2) calculation(3) by (simp add: NumClear_eq of_nat_diff)
  ultimately show ?thesis using a(1,3-7) by (metis (no_types, lifting))
qed

theorem BitMap_alloc_free_roundtrip_witness:
  "\<exists>bm xs b1 b2. BitMap_new (\<lambda>i. 7) 128 = Inr bm \<and> alloc_many BitMap_Find 100 bm = Inr (map int xs, b1) \<and>
     distinct xs \<and> BitMap_NumClear b1 = Inr 28 \<and>
     iter_res (\<lambda>x b. BitMap_Clear b x) (map int xs) b1 = Inr b2 \<and> marked b2 = {}"
proof -
  obtain bm where bm: "BitMap_new (\<lambda>i. 7) 128 = Inr bm" "bitmap_ok bm" "marked bm = {}"
    "numBits bm = 128" using BitMap_new_ok [of 128 "\<lambda>i. 7"] by auto
  then have "BitMap_NumClear bm = Inr 128" by (simp add: NumClear_eq nbits_def)
  from BitMap_alloc_free_roundtrip [OF bm(2) this, of 100] obtain xs b1 b2 where
    "alloc_many BitMap_Find 100 bm = Inr (map int xs, b1)" "distinct xs"
    "BitMap_NumClear b1 = Inr 28"
    "iter_res (\<lambda>x b. BitMap_Clear b x) (map int xs) b1 = Inr b2" "marked b2 = {}"
    unfolding bm(3) by auto
  with bm(1) show ?thesis by blast
qed

end
