(* ===== verification/Kernel_Table.thy ===== *)
theory Kernel_Table
  imports Nachos_Prelude
begin

text \<open>
  The fixed-size table of object pointers of \<open>threads/table.h\<close> and \<open>threads/table.cc\<close>, which
  holds the open files. An entry is a pointer to an object or null. The table is a
  \<open>slot_pool\<close> whose used slots are the entries that are not null.
\<close>

section \<open>Data and operations\<close>

record 'a Table =
  m_entries :: "'a option list"
  m_size :: int

definition Table_new :: "int \<Rightarrow> 'a Table" where
  "Table_new sz = \<lparr>m_entries = replicate (nat sz) None, m_size = sz\<rparr>"

text \<open>The constructor without argument: no entries.\<close>

definition Table_default :: "'a Table" where
  "Table_default = \<lparr>m_entries = [], m_size = 0\<rparr>"

definition Table_Alloc :: "'a option \<Rightarrow> 'a Table \<Rightarrow> int \<times> 'a Table" where
  "Table_Alloc obj t =
     (case first_index (\<lambda>i. m_entries t ! i = None) (nat (m_size t)) of
        Some i \<Rightarrow> (int i, t\<lparr>m_entries := (m_entries t)[i := obj]\<rparr>)
      | None \<Rightarrow> (-1, t))"

definition Table_Set :: "'a option \<Rightarrow> int \<Rightarrow> 'a Table \<Rightarrow> int \<times> 'a Table" where
  "Table_Set obj idx t =
     (if idx < 0 \<or> m_size t \<le> idx then (-1, t)
      else if m_entries t ! nat idx \<noteq> None then (-1, t)
      else (idx, t\<lparr>m_entries := (m_entries t)[nat idx := obj]\<rparr>))"

definition Table_Get :: "int \<Rightarrow> 'a Table \<Rightarrow> 'a option" where
  "Table_Get idx t = (if idx < 0 \<or> m_size t \<le> idx then None else m_entries t ! nat idx)"

definition Table_Release :: "int \<Rightarrow> 'a Table \<Rightarrow> int \<times> 'a Table" where
  "Table_Release idx t =
     (if idx < 0 \<or> m_size t \<le> idx then (-1, t)
      else if m_entries t ! nat idx = None then (-1, t)
      else (0, t\<lparr>m_entries := (m_entries t)[nat idx := None]\<rparr>))"

section \<open>The table as an allocator\<close>

definition table_ok :: "'a Table \<Rightarrow> bool" where
  "table_ok t \<longleftrightarrow> m_size t = int (length (m_entries t))"

definition in_use :: "'a Table \<Rightarrow> nat set" where
  "in_use t = {i. i < length (m_entries t) \<and> m_entries t ! i \<noteq> None}"

abbreviation table_length :: "'a Table \<Rightarrow> nat" where
  "table_length t \<equiv> length (m_entries t)"

lemma table_new_ok [simp]: "0 \<le> sz \<Longrightarrow> table_ok (Table_new sz)" "in_use (Table_new sz) = {}"
  "table_length (Table_new sz) = nat sz"
  by (auto simp: table_ok_def in_use_def Table_new_def)

lemma Alloc_cases:
  assumes "table_ok t"
  shows "if in_use t = {..<table_length t} then Table_Alloc obj t = (-1, t)
         else \<exists>i. Table_Alloc obj t = (int i, t\<lparr>m_entries := (m_entries t)[i := obj]\<rparr>) \<and>
                i < table_length t \<and> i \<notin> in_use t \<and> (\<forall>j<i. j \<in> in_use t)"
proof (cases "first_index (\<lambda>i. m_entries t ! i = None) (table_length t)")
  case None
  then have "in_use t = {..<table_length t}" by (auto simp: first_index_None in_use_def)
  with None assms show ?thesis by (simp add: Table_Alloc_def table_ok_def)
next
  case (Some i)
  then have i: "i < table_length t" "i \<notin> in_use t" "\<forall>j<i. j \<in> in_use t"
    by (auto simp: first_index_Some in_use_def)
  then have "in_use t \<noteq> {..<table_length t}" by auto
  with Some assms i show ?thesis by (auto simp: Table_Alloc_def table_ok_def)
qed

lemma in_use_update:
  "i < table_length t \<Longrightarrow> in_use (t\<lparr>m_entries := (m_entries t)[i := p]\<rparr>) =
     (if p = None then in_use t - {i} else insert i (in_use t))"
  by (auto simp: in_use_def nth_list_update)

lemma table_ok_update [simp]:
  "table_ok (t\<lparr>m_entries := (m_entries t)[i := p]\<rparr>) = table_ok t"
  by (simp add: table_ok_def)

lemma Release_in_range:
  "table_ok t \<Longrightarrow> i < table_length t \<Longrightarrow>
   table_ok (snd (Table_Release (int i) t)) \<and> in_use (snd (Table_Release (int i) t)) = in_use t - {i}
   \<and> table_length (snd (Table_Release (int i) t)) = table_length t"
  by (auto simp: Table_Release_def table_ok_def in_use_update) (auto simp: in_use_def)

interpretation tab: slot_pool table_ok in_use table_length
  "\<lambda>t. Inr (Table_Alloc (Some obj) t)" "\<lambda>t i. Inr (snd (Table_Release i t))" for obj
proof unfold_locales
  fix t :: "'a Table" and i :: nat
  assume ok: "table_ok t"
  show "in_use t \<subseteq> {..<table_length t}" by (auto simp: in_use_def)
  show "in_use t = {..<table_length t} \<Longrightarrow> Inr (Table_Alloc (Some obj) t) = Inr (-1, t)"
    using Alloc_cases [OF ok, of "Some obj"] by simp
  show "\<exists>i b'. Inr (Table_Alloc (Some obj) t) = Inr (int i, b') \<and> table_ok b' \<and> i < table_length t \<and>
      i \<notin> in_use t \<and> (\<forall>j<i. j \<in> in_use t) \<and> in_use b' = insert i (in_use t) \<and>
      table_length b' = table_length t" if nf: "in_use t \<noteq> {..<table_length t}"
  proof -
    obtain i where i: "Table_Alloc (Some obj) t =
        (int i, t\<lparr>m_entries := (m_entries t)[i := Some obj]\<rparr>)"
      "i < table_length t" "i \<notin> in_use t" "\<forall>j<i. j \<in> in_use t"
      using Alloc_cases [OF ok, of "Some obj"] nf by auto
    then show ?thesis using ok
      by (intro exI [of _ i] exI [of _ "t\<lparr>m_entries := (m_entries t)[i := Some obj]\<rparr>"])
        (simp add: in_use_update)
  qed
  show "i < table_length t \<Longrightarrow> \<exists>b'. Inr (snd (Table_Release (int i) t)) = Inr b' \<and> table_ok b' \<and>
      in_use b' = in_use t - {i} \<and> table_length b' = table_length t"
    using Release_in_range [OF ok, of i] by simp
qed

section \<open>Properties\<close>

text \<open>
  \<open>Table::Alloc\<close> puts a (non-null) object into the lowest free entry, or returns -1 and
  changes nothing when the table is full; \<open>Get\<close> then returns that object under the
  returned index and what it returned before under every other index; and \<open>Release\<close> of
  the index restores the table exactly.
\<close>

theorem Table_Alloc_Get_Release:
  assumes "table_ok t" "Table_Alloc (Some obj) t = (idx, t')"
  shows "if idx = -1 then t' = t \<and> in_use t = {..<table_length t}
         else table_ok t' \<and> Table_Get idx t = None \<and> (\<forall>j. 0 \<le> j \<and> j < idx \<longrightarrow> Table_Get j t \<noteq> None) \<and>
           Table_Get idx t' = Some obj \<and> (\<forall>j. j \<noteq> idx \<longrightarrow> Table_Get j t' = Table_Get j t) \<and>
           Table_Release idx t' = (0, t)"
proof (cases "in_use t = {..<table_length t}")
  case True
  then show ?thesis using Alloc_cases [OF assms(1), of "Some obj"] assms(2) by simp
next
  case False
  then obtain i where i: "idx = int i" "t' = t\<lparr>m_entries := (m_entries t)[i := Some obj]\<rparr>"
    "i < table_length t" "i \<notin> in_use t" "\<forall>j<i. j \<in> in_use t"
    using Alloc_cases [OF assms(1), of "Some obj"] assms(2) by auto
  have none: "m_entries t ! i = None" using i(3,4) by (simp add: in_use_def)
  have sz: "m_size t = int (table_length t)" using assms(1) by (simp add: table_ok_def)
  have "Table_Get j t \<noteq> None" if "0 \<le> j" "j < idx" for j
    using that i(1,3,5) sz by (auto simp: Table_Get_def in_use_def dest!: spec [of _ "nat j"])
  moreover have "Table_Get j t' = Table_Get j t" if "j \<noteq> idx" for j
    using that i(1,2) by (auto simp: Table_Get_def nth_list_update nat_eq_iff)
  moreover have "Table_Release idx t' = (0, t)"
    using i sz none by (simp add: Table_Release_def list_update_same_conv [THEN iffD2])
  ultimately show ?thesis using i sz none assms(1) by (simp add: Table_Get_def)
qed

theorem Table_Alloc_Get_Release_witness:
  "let t = \<lparr>m_entries = [Some ''fs'', None, Some ''a''], m_size = 3\<rparr>;
       (idx, t') = Table_Alloc (Some ''b'') t in
   table_ok t \<and> idx = 1 \<and> Table_Get 1 t' = Some ''b'' \<and> Table_Get 2 t' = Some ''a'' \<and>
   Table_Release 1 t' = (0, t)"
proof -
  let ?t = "\<lparr>m_entries = [Some ''fs'', None, Some ''a''], m_size = 3\<rparr>"
  have ok: "table_ok ?t" by (simp add: table_ok_def)
  have a: "Table_Alloc (Some ''b'') ?t = (1, ?t\<lparr>m_entries := [Some ''fs'', Some ''b'', Some ''a'']\<rparr>)"
    by (simp add: Table_Alloc_def first_index_def upt_rec)
  show ?thesis using Table_Alloc_Get_Release [OF ok a] ok a by (simp add: Table_Get_def)
qed

end
