(* ===== verification/Machine_Memory.thy ===== *)
theory Machine_Memory
  imports Nachos_Prelude
begin

text \<open>
  The simulated user machine of \<open>machine/machine.h\<close>, \<open>machine/machine.cc\<close> and
  \<open>machine/translate.cc\<close>: registers, main memory, address translation through a page
  table or a TLB, reads and writes of user memory, and the copying of data between user
  and kernel space. Registers and addresses are 32-bit words; the host is little endian,
  as on the i386 the makefiles select.
\<close>

unbundle bit_operations_syntax

named_theorems mem_ops \<open>definitions of the user-memory operations\<close>

section \<open>Data\<close>

abbreviation SectorSize :: nat where "SectorSize \<equiv> 128"
abbreviation PageSize :: nat where "PageSize \<equiv> 128"
abbreviation NumPhysPages :: nat where "NumPhysPages \<equiv> 128"
abbreviation MemorySize :: nat where "MemorySize \<equiv> 16384"
abbreviation TLBSize :: nat where "TLBSize \<equiv> 4"
abbreviation NumTotalRegs :: nat where "NumTotalRegs \<equiv> 40"
abbreviation StackReg :: nat where "StackReg \<equiv> 29"
abbreviation HiReg :: nat where "HiReg \<equiv> 32"
abbreviation LoReg :: nat where "LoReg \<equiv> 33"
abbreviation PCReg :: nat where "PCReg \<equiv> 34"
abbreviation NextPCReg :: nat where "NextPCReg \<equiv> 35"
abbreviation PrevPCReg :: nat where "PrevPCReg \<equiv> 36"
abbreviation LoadReg :: nat where "LoadReg \<equiv> 37"
abbreviation LoadValueReg :: nat where "LoadValueReg \<equiv> 38"
abbreviation BadVAddrReg :: nat where "BadVAddrReg \<equiv> 39"

datatype ExceptionType = NoException | SyscallException | PageFaultException
  | ReadOnlyException | BusErrorException | AddressErrorException | OverflowException
  | IllegalInstrException | NumExceptionTypes

record TranslationEntry =
  virtualPage :: "32 word"
  physicalPage :: "32 word"
  te_valid :: bool
  te_readOnly :: bool
  te_use :: bool
  te_dirty :: bool

text \<open>
  \<open>pageTable\<close> is a pointer to an array that belongs to an address space: the machine sets
  use and dirty bits through it. \<open>ptables\<close> is the memory those arrays live in.
\<close>

record Machine =
  mainMemory :: "nat \<Rightarrow> 8 word"
  regs :: "nat \<Rightarrow> 32 word"
  tlb :: "TranslationEntry list option"
  pageTable :: "nat option"
  pageTableSize :: nat
  ptables :: "nat \<rightharpoonup> TranslationEntry list"

definition Machine_new :: "nat \<Rightarrow> Machine" where
  "Machine_new garbage = \<lparr>mainMemory = (\<lambda>_. 0), regs = (\<lambda>_. 0), tlb = None, pageTable = None,
     pageTableSize = garbage, ptables = Map.empty\<rparr>"

definition ReadRegister :: "Machine \<Rightarrow> int \<Rightarrow> 32 word res" where
  "ReadRegister m num =
     rbind (ASSERT (0 \<le> num \<and> num < int NumTotalRegs)) (\<lambda>_. Inr (regs m (nat num)))"

definition WriteRegister :: "Machine \<Rightarrow> int \<Rightarrow> 32 word \<Rightarrow> Machine res" where
  "WriteRegister m num v =
     rbind (ASSERT (0 \<le> num \<and> num < int NumTotalRegs))
       (\<lambda>_. Inr (m\<lparr>regs := (regs m)(nat num := v)\<rparr>))"

definition AdjustPCRegs :: "Machine \<Rightarrow> Machine res" where
  "AdjustPCRegs m =
     rbind (ReadRegister m (int PCReg)) (\<lambda>pc.
     rbind (WriteRegister m (int PrevPCReg) pc) (\<lambda>m1.
     rbind (ReadRegister m1 (int NextPCReg)) (\<lambda>npc.
     rbind (WriteRegister m1 (int PCReg) npc) (\<lambda>m2.
     WriteRegister m2 (int NextPCReg) (npc + 4)))))"

section \<open>Address translation\<close>

text \<open>
  \<open>WordToHost\<close> and \<open>ShortToHost\<close> with and without \<open>HOST_IS_BIG_ENDIAN\<close>: the host of this
  development is little endian, where they do nothing.
\<close>

definition WordToHost :: "bool \<Rightarrow> 32 word \<Rightarrow> 32 word" where
  "WordToHost host_is_big_endian w = (if host_is_big_endian then
       (drop_bit 24 w AND 0xff) OR (drop_bit 8 w AND 0xff00) OR
       (push_bit 8 w AND 0xff0000) OR (push_bit 24 w AND 0xff000000)
     else w)"

definition ShortToHost :: "bool \<Rightarrow> 16 word \<Rightarrow> 16 word" where
  "ShortToHost host_is_big_endian w = (if host_is_big_endian then
       (push_bit 8 w AND 0xff00) OR (drop_bit 8 w AND 0xff) else w)"

text \<open>
  The entry a virtual page number selects: where it is (the index into the page table or
  the TLB) and its contents, or the exception.
\<close>

definition find_entry ::
  "Machine \<Rightarrow> nat \<Rightarrow> (ExceptionType + (nat \<times> TranslationEntry)) res" where
  "find_entry m vpn =
     (case tlb m of
        None \<Rightarrow>
          if pageTableSize m \<le> vpn then Inr (Inl AddressErrorException)
          else (case pageTable m of None \<Rightarrow> Inl NullDeref
                | Some p \<Rightarrow> (case ptables m p of None \<Rightarrow> Inl BadPointer
                  | Some es \<Rightarrow> if length es \<le> vpn then Inl OutOfBounds
                      else if \<not> te_valid (es ! vpn) then Inr (Inl PageFaultException)
                      else Inr (Inr (vpn, es ! vpn))))
      | Some es \<Rightarrow>
          (case first_index (\<lambda>i. te_valid (es ! i) \<and> unat (virtualPage (es ! i)) = vpn) TLBSize of
             None \<Rightarrow> Inr (Inl PageFaultException)
           | Some i \<Rightarrow> Inr (Inr (i, es ! i))))"

definition store_entry :: "Machine \<Rightarrow> nat \<Rightarrow> TranslationEntry \<Rightarrow> Machine" where
  "store_entry m i e =
     (case tlb m of
        None \<Rightarrow> m\<lparr>ptables := (ptables m)(the (pageTable m) \<mapsto>
                   (the (ptables m (the (pageTable m))))[i := e])\<rparr>
      | Some es \<Rightarrow> m\<lparr>tlb := Some (es[i := e])\<rparr>)"

text \<open>
  \<open>Machine::Translate\<close>: an exception code, or the physical address and the machine with
  the use and dirty bits of the entry set.
\<close>

definition Translate ::
  "Machine \<Rightarrow> 32 word \<Rightarrow> nat \<Rightarrow> bool \<Rightarrow> (ExceptionType + (nat \<times> Machine)) res" where
  "Translate m virtAddr sz writing =
     (if (sz = 4 \<and> virtAddr AND 3 \<noteq> 0) \<or> (sz = 2 \<and> virtAddr AND 1 \<noteq> 0)
      then Inr (Inl AddressErrorException)
      else rbind (ASSERT (tlb m = None \<or> pageTable m = None)) (\<lambda>_.
           rbind (ASSERT (tlb m \<noteq> None \<or> pageTable m \<noteq> None)) (\<lambda>_.
           rbind (find_entry m (unat virtAddr div PageSize)) (\<lambda>r.
             case r of Inl ex \<Rightarrow> Inr (Inl ex)
             | Inr (i, entry) \<Rightarrow>
                 if te_readOnly entry \<and> writing then Inr (Inl ReadOnlyException)
                 else if NumPhysPages \<le> unat (physicalPage entry) then Inr (Inl BusErrorException)
                 else let m' = store_entry m i
                            (entry\<lparr>te_use := True, te_dirty := te_dirty entry \<or> writing\<rparr>);
                          physAddr = unat (physicalPage entry) * PageSize + unat virtAddr mod PageSize
                      in rbind (ASSERT (physAddr + sz \<le> MemorySize))
                           (\<lambda>_. Inr (Inr (physAddr, m')))))))"

section \<open>Reading and writing user memory\<close>

definition load_le :: "(nat \<Rightarrow> 8 word) \<Rightarrow> nat \<Rightarrow> nat \<Rightarrow> 32 word" where
  "load_le mem a n = (if n = 2 then ucast (mem a) OR push_bit 8 (ucast (mem (a + 1)))
     else ucast (mem a) OR push_bit 8 (ucast (mem (a + 1))) OR
          push_bit 16 (ucast (mem (a + 2))) OR push_bit 24 (ucast (mem (a + 3))))"

definition store_le :: "(nat \<Rightarrow> 8 word) \<Rightarrow> nat \<Rightarrow> nat \<Rightarrow> 32 word \<Rightarrow> nat \<Rightarrow> 8 word" where
  "store_le mem a n v = (\<lambda>x. if a \<le> x \<and> x < a + n then ucast (drop_bit (8 * (x - a)) v) else mem x)"

text \<open>
  \<open>Machine::ReadMem\<close> and \<open>Machine::WriteMem\<close>: \<open>Inl ex\<close> where the code calls
  \<open>RaiseException(ex, addr)\<close> and returns FALSE. A one-byte read goes through \<open>char\<close>, which
  is signed: the value is sign extended.
\<close>

definition ReadMem ::
  "Machine \<Rightarrow> 32 word \<Rightarrow> nat \<Rightarrow> (ExceptionType + (32 word \<times> Machine)) res" where
  "ReadMem m addr sz = rbind (Translate m addr sz False) (\<lambda>r.
     case r of Inl ex \<Rightarrow> Inr (Inl ex)
     | Inr (pa, m') \<Rightarrow>
         if sz = 1 then Inr (Inr (scast (mainMemory m' pa), m'))
         else if sz = 2 \<or> sz = 4 then Inr (Inr (load_le (mainMemory m') pa sz, m'))
         else Inl AssertFail)"

definition WriteMem ::
  "Machine \<Rightarrow> 32 word \<Rightarrow> nat \<Rightarrow> 32 word \<Rightarrow> (ExceptionType + Machine) res" where
  "WriteMem m addr sz v = rbind (Translate m addr sz True) (\<lambda>r.
     case r of Inl ex \<Rightarrow> Inr (Inl ex)
     | Inr (pa, m') \<Rightarrow>
         if sz = 1 \<or> sz = 2 \<or> sz = 4
         then Inr (Inr (m'\<lparr>mainMemory := store_le (mainMemory m') pa sz v\<rparr>))
         else Inl AssertFail)"

section \<open>Copying between user and kernel space\<close>

text \<open>
  Both loops stop where \<open>ReadMem\<close> or \<open>WriteMem\<close> raises an exception, since the exception
  handler halts the machine for every exception these raise: \<open>Inl (ex, addr)\<close>.
\<close>

fun user2system_loop ::
  "Machine \<Rightarrow> 32 word \<Rightarrow> nat \<Rightarrow> ((ExceptionType \<times> 32 word) + (8 word list \<times> Machine)) res" where
  "user2system_loop m a 0 = Inr (Inr ([], m))"
| "user2system_loop m a (Suc n) = rbind (ReadMem m a 1) (\<lambda>r.
     case r of Inl ex \<Rightarrow> Inr (Inl (ex, a))
     | Inr (oneChar, m') \<Rightarrow>
         if oneChar = 0 then Inr (Inr ([0], m'))
         else rbind (user2system_loop m' (a + 1) n) (\<lambda>r'.
           case r' of Inl x \<Rightarrow> Inr (Inl x)
           | Inr (buf, m'') \<Rightarrow> Inr (Inr (ucast oneChar # buf, m''))))"

text \<open>\<open>User2System\<close>: the kernel buffer has \<open>limit + 1\<close> bytes and starts out zeroed.\<close>

definition User2System ::
  "Machine \<Rightarrow> 32 word \<Rightarrow> nat \<Rightarrow> ((ExceptionType \<times> 32 word) + (8 word list \<times> Machine)) res" where
  "User2System m virtAddr limit = rbind (user2system_loop m virtAddr limit) (\<lambda>r.
     case r of Inl x \<Rightarrow> Inr (Inl x)
     | Inr (buf, m') \<Rightarrow> Inr (Inr (buf @ replicate (limit + 1 - length buf) 0, m')))"

text \<open>The body of \<open>System2User\<close>: the do-while loop over the bytes still to copy.\<close>

fun system2user_loop ::
  "Machine \<Rightarrow> 32 word \<Rightarrow> 8 word list \<Rightarrow> ((ExceptionType \<times> 32 word) + (nat \<times> Machine)) res" where
  "system2user_loop m a [] = Inr (Inr (0, m))"
| "system2user_loop m a (c # cs) = rbind (WriteMem m a 1 (scast c)) (\<lambda>r.
     case r of Inl ex \<Rightarrow> Inr (Inl (ex, a))
     | Inr m' \<Rightarrow>
         if c = 0 then Inr (Inr (1, m'))
         else rbind (system2user_loop m' (a + 1) cs) (\<lambda>r'.
           case r' of Inl x \<Rightarrow> Inr (Inl x) | Inr (n, m'') \<Rightarrow> Inr (Inr (Suc n, m''))))"

definition System2User ::
  "Machine \<Rightarrow> 32 word \<Rightarrow> int \<Rightarrow> 8 word list \<Rightarrow> ((ExceptionType \<times> 32 word) + (int \<times> Machine)) res" where
  "System2User m virtAddr len buffer =
     (if len < 0 then Inr (Inr (-1, m))
      else if len = 0 then Inr (Inr (0, m))
      else if int (length buffer) < len then Inl OutOfBounds
      else rbind (system2user_loop m virtAddr (take (nat len) buffer)) (\<lambda>r.
        case r of Inl x \<Rightarrow> Inr (Inl x) | Inr (n, m') \<Rightarrow> Inr (Inr (int n, m'))))"

section \<open>Bytes in words\<close>

lemma load_store_4 [simp]: "load_le (store_le mem a 4 v) a 4 = v"
proof (rule bit_word_eqI)
  fix k :: nat assume "k < LENGTH(32)"
  then consider "k < 8" | "8 \<le> k" "k < 16" | "16 \<le> k" "k < 24" | "24 \<le> k" "k < 32" by fastforce
  then show "bit (load_le (store_le mem a 4 v) a 4) k = bit v k"
    by cases (auto simp: load_le_def store_le_def bit_simps less_diff_conv2)
qed

lemma load_store_2 [simp]: "load_le (store_le mem a 2 v) a 2 = take_bit 16 v"
proof (rule bit_word_eqI)
  fix k :: nat assume "k < LENGTH(32)"
  then consider "k < 8" | "8 \<le> k" "k < 16" | "16 \<le> k" "k < 24" | "24 \<le> k" "k < 32" by fastforce
  then show "bit (load_le (store_le mem a 2 v) a 2) k = bit (take_bit 16 v) k"
    by cases (auto simp: load_le_def store_le_def bit_simps less_diff_conv2)
qed

lemma byte_masks:
  "(0xff :: 32 word) = mask 8" "(0xff00 :: 32 word) = push_bit 8 (mask 8)"
  "(0xff0000 :: 32 word) = push_bit 16 (mask 8)" "(0xff000000 :: 32 word) = push_bit 24 (mask 8)"
  by (simp_all add: mask_eq_exp_minus_1)

lemma WordToHost_involution: "WordToHost b (WordToHost b w) = w"
proof (cases b)
  case True
  have "bit (WordToHost True (WordToHost True w)) k = bit w k" if "k < 32" for k
  proof -
    from that consider "k < 8" | "8 \<le> k" "k < 16" | "16 \<le> k" "k < 24" | "24 \<le> k" "k < 32" by fastforce
    then show ?thesis
      by cases (auto simp: WordToHost_def byte_masks bit_simps less_diff_conv2)
  qed
  then show ?thesis using True by (intro bit_word_eqI) simp
qed (simp add: WordToHost_def)

lemma aligned_4: "(va :: 32 word) AND 3 = 0 \<longleftrightarrow> unat va mod 4 = 0"
proof -
  have "va AND 3 = take_bit 2 va" by (simp add: take_bit_eq_mask mask_eq_exp_minus_1)
  then have "unat (va AND 3) = take_bit 2 (unat va)" by (simp only: unsigned_take_bit_eq)
  then have "unat (va AND 3) = unat va mod 4" by (simp add: take_bit_eq_mod)
  then show ?thesis by (metis unsigned_0 unat_eq_zero)
qed

lemma aligned_2: "(va :: 32 word) AND 1 = 0 \<longleftrightarrow> unat va mod 2 = 0"
proof -
  have "va AND 1 = take_bit 1 va" by (simp add: take_bit_eq_mask mask_eq_exp_minus_1)
  then have "unat (va AND 1) = take_bit 1 (unat va)" by (simp only: unsigned_take_bit_eq)
  then have "unat (va AND 1) = unat va mod 2" by (simp add: take_bit_eq_mod)
  then show ?thesis by (metis unsigned_0 unat_eq_zero)
qed

section \<open>Translation as a function of the current mapping\<close>

definition trans_ok :: "Machine \<Rightarrow> bool" where
  "trans_ok m \<longleftrightarrow> (case tlb m of
       Some es \<Rightarrow> pageTable m = None \<and> length es = TLBSize
     | None \<Rightarrow> (\<exists>p es. pageTable m = Some p \<and> ptables m p = Some es \<and> pageTableSize m = length es))"

definition entries :: "Machine \<Rightarrow> TranslationEntry list" where
  "entries m = (case tlb m of Some es \<Rightarrow> es | None \<Rightarrow> the (ptables m (the (pageTable m))))"

definition locate :: "Machine \<Rightarrow> nat \<Rightarrow> ExceptionType + nat" where
  "locate m vpn = (if tlb m = None
     then if length (entries m) \<le> vpn then Inl AddressErrorException
          else if \<not> te_valid (entries m ! vpn) then Inl PageFaultException else Inr vpn
     else case first_index (\<lambda>i. te_valid (entries m ! i) \<and> unat (virtualPage (entries m ! i)) = vpn)
            (length (entries m)) of None \<Rightarrow> Inl PageFaultException | Some i \<Rightarrow> Inr i)"

definition phys :: "Machine \<Rightarrow> 32 word \<Rightarrow> nat \<Rightarrow> bool \<Rightarrow> ExceptionType + nat" where
  "phys m va sz writing =
     (if unat va mod sz \<noteq> 0 then Inl AddressErrorException
      else case locate m (unat va div PageSize) of Inl ex \<Rightarrow> Inl ex
      | Inr i \<Rightarrow> if te_readOnly (entries m ! i) \<and> writing then Inl ReadOnlyException
          else if NumPhysPages \<le> unat (physicalPage (entries m ! i)) then Inl BusErrorException
          else Inr (unat (physicalPage (entries m ! i)) * PageSize + unat va mod PageSize))"

definition touch :: "Machine \<Rightarrow> 32 word \<Rightarrow> bool \<Rightarrow> Machine" where
  "touch m va writing = (case locate m (unat va div PageSize) of Inl _ \<Rightarrow> m
     | Inr i \<Rightarrow> store_entry m i ((entries m ! i)\<lparr>te_use := True,
                  te_dirty := te_dirty (entries m ! i) \<or> writing\<rparr>))"

lemma find_entry_locate:
  assumes "trans_ok m"
  shows "find_entry m vpn = Inr (case locate m vpn of Inl ex \<Rightarrow> Inl ex
           | Inr i \<Rightarrow> Inr (i, entries m ! i))"
  using assms by (auto simp: trans_ok_def find_entry_def entries_def locate_def split: option.splits)

lemma locate_bound: "locate m vpn = Inr i \<Longrightarrow> i < length (entries m) \<and> te_valid (entries m ! i)"
  by (auto simp: locate_def first_index_Some split: if_splits option.splits)

lemma access_in_page:
  fixes va sz :: nat
  assumes "sz = 1 \<or> sz = 2 \<or> sz = 4" "va mod sz = 0"
  shows "va mod PageSize + sz \<le> PageSize"
proof -
  obtain k where k: "PageSize = sz * k" using assms(1) by (auto intro: that [of 128] that [of 64] that [of 32])
  then have "va mod PageSize mod sz = 0" using assms(2) by (metis dvd_triv_left mod_mod_cancel)
  then obtain q where q: "va mod PageSize = sz * q" by (metis mod_0_imp_dvd dvdE)
  have "sz * q < sz * k" using q k by (metis mod_less_divisor zero_less_numeral)
  then have "sz * (q + 1) \<le> sz * k" by (intro mult_le_mono2) simp
  moreover have "sz * (q + 1) = va mod PageSize + sz" using q by simp
  ultimately show ?thesis using k by linarith
qed

lemma phys_bound:
  assumes "phys m va sz w = Inr pa" "sz = 1 \<or> sz = 2 \<or> sz = 4"
  shows "pa mod PageSize + sz \<le> PageSize" "pa + sz \<le> MemorySize" "pa mod PageSize = unat va mod PageSize"
proof -
  from assms(1) obtain f where f: "f < NumPhysPages" "pa = f * PageSize + unat va mod PageSize"
    and al: "unat va mod sz = 0"
    by (auto simp: phys_def split: sum.splits if_splits)
  have o: "unat va mod PageSize + sz \<le> PageSize" using access_in_page [OF assms(2) al] .
  then show "pa mod PageSize + sz \<le> PageSize" "pa mod PageSize = unat va mod PageSize" by (simp_all add: f)
  show "pa + sz \<le> MemorySize" using f o by simp
qed

lemma in_page_div:
  fixes f off sz pa x :: nat
  assumes "pa = f * PageSize + off" "pa \<le> x" "x < pa + sz" "off + sz \<le> PageSize"
  shows "x div PageSize = f"
proof -
  obtain d where d: "x = pa + d" using assms(2) le_Suc_ex by blast
  then have "x = off + d + f * PageSize" "off + d < PageSize" using assms by auto
  then show ?thesis by simp
qed

lemma Translate_phys:
  assumes "trans_ok m" "sz = 1 \<or> sz = 2 \<or> sz = 4"
  shows "Translate m va sz w = Inr (case phys m va sz w of Inl ex \<Rightarrow> Inl ex
           | Inr pa \<Rightarrow> Inr (pa, touch m va w))"
proof -
  have al: "(sz = 4 \<and> va AND 3 \<noteq> 0) \<or> (sz = 2 \<and> va AND 1 \<noteq> 0) \<longleftrightarrow> unat va mod sz \<noteq> 0"
    using assms(2) by (auto simp: aligned_4 aligned_2)
  have tl: "tlb m = None \<or> pageTable m = None" "tlb m \<noteq> None \<or> pageTable m \<noteq> None"
    using assms(1) by (auto simp: trans_ok_def split: option.splits)
  show ?thesis
  proof (cases "phys m va sz w")
    case (Inl ex)
    then show ?thesis unfolding Translate_def al using tl
      by (auto simp: phys_def find_entry_locate [OF assms(1)] split: sum.splits if_splits)
  next
    case (Inr pa)
    note b = phys_bound(2) [OF Inr assms(2)]
    from Inr b show ?thesis unfolding Translate_def al using tl
      by (auto simp: phys_def touch_def find_entry_locate [OF assms(1)] Let_def split: sum.splits if_splits)
  qed
qed

section \<open>Machines with the same mapping\<close>

definition same_mapping :: "TranslationEntry \<Rightarrow> TranslationEntry \<Rightarrow> bool" where
  "same_mapping e e' \<longleftrightarrow> virtualPage e' = virtualPage e \<and> physicalPage e' = physicalPage e \<and>
     te_valid e' = te_valid e \<and> te_readOnly e' = te_readOnly e"

definition remap :: "Machine \<Rightarrow> Machine \<Rightarrow> bool" where
 "remap m m' \<longleftrightarrow> trans_ok m' \<and> (tlb m' = None \<longleftrightarrow> tlb m = None) \<and> pageTable m' = pageTable m \<and>
    pageTableSize m' = pageTableSize m \<and> list_all2 same_mapping (entries m) (entries m')"

lemma store_entry_simps [simp]:
  "(tlb (store_entry m i e) = None) = (tlb m = None)" 
  "pageTable (store_entry m i e) = pageTable m"
  "pageTableSize (store_entry m i e) = pageTableSize m"
  "mainMemory (store_entry m i e) = mainMemory m"
  "regs (store_entry m i e) = regs m"
  by (auto simp: store_entry_def split: option.splits)

lemma store_entry_ok:
  assumes "trans_ok m"
  shows "trans_ok (store_entry m i e)" "entries (store_entry m i e) = (entries m)[i := e]"
  using assms by (auto simp: trans_ok_def entries_def store_entry_def split: option.splits)

lemma remap_refl [simp]: "trans_ok m \<Longrightarrow> remap m m"
  by (auto simp: remap_def same_mapping_def list_all2_same)

lemma remap_trans:
  assumes "remap m m'" "remap m' m''" shows "remap m m''"
proof -
  have "list_all2 same_mapping (entries m) (entries m'')"
    by (rule list_all2_trans [OF _ assms(1) [unfolded remap_def, THEN conjunct2, THEN conjunct2, THEN conjunct2, THEN conjunct2]
       assms(2) [unfolded remap_def, THEN conjunct2, THEN conjunct2, THEN conjunct2, THEN conjunct2]])
      (auto simp: same_mapping_def)
  then show ?thesis using assms by (auto simp: remap_def)
qed

lemma remap_touch:
  assumes "trans_ok m" shows "remap m (touch m va w)"
proof (cases "locate m (unat va div PageSize)")
  case (Inr i)
  then show ?thesis using store_entry_ok [OF assms] assms locate_bound [OF Inr, THEN conjunct1]
    by (simp add: touch_def remap_def list_all2_conv_all_nth same_mapping_def nth_list_update)
qed (simp add: touch_def assms)

lemma touch_simps [simp]:
  "mainMemory (touch m va w) = mainMemory m" "regs (touch m va w) = regs m"
  by (auto simp: touch_def split: sum.splits)

lemma entries_mem [simp]: "entries (m\<lparr>mainMemory := mem\<rparr>) = entries m" "entries (m\<lparr>regs := r\<rparr>) = entries m"
  by (simp_all add: entries_def split: option.split)

lemma trans_ok_mem [simp]: "trans_ok (m\<lparr>mainMemory := mem\<rparr>) = trans_ok m" "trans_ok (m\<lparr>regs := r\<rparr>) = trans_ok m"
  by (simp_all add: trans_ok_def split: option.split)

lemma remap_mem [simp]: "remap m (m'\<lparr>mainMemory := mem\<rparr>) = remap m m'" "remap m (m'\<lparr>regs := r\<rparr>) = remap m m'"
  by (simp_all add: remap_def)

lemma remap_locate:
  assumes "remap m m'" shows "locate m' vpn = locate m vpn"
proof -
  have *: "length (entries m') = length (entries m)" "\<And>i. i < length (entries m) \<Longrightarrow> same_mapping (entries m ! i) (entries m' ! i)"
    "(tlb m' = None) = (tlb m = None)"
    using assms by (auto simp: remap_def list_all2_conv_all_nth)
  have "first_index (\<lambda>i. te_valid (entries m' ! i) \<and> unat (virtualPage (entries m' ! i)) = vpn) (length (entries m))
   = first_index (\<lambda>i. te_valid (entries m ! i) \<and> unat (virtualPage (entries m ! i)) = vpn) (length (entries m))"
    by (rule first_index_cong) (use *(2) in \<open>auto simp: same_mapping_def\<close>)
  then show ?thesis using *(2) [of vpn] *(1,3) by (auto simp: locate_def same_mapping_def)
qed

lemma remap_phys:
  assumes "remap m m'" shows "phys m' va sz w = phys m va sz w"
proof (cases "locate m (unat va div PageSize)")
  case (Inr i)
  have "same_mapping (entries m ! i) (entries m' ! i)"
    using assms locate_bound [OF Inr] by (auto simp: remap_def list_all2_conv_all_nth)
  then show ?thesis by (simp add: phys_def remap_locate [OF assms] Inr same_mapping_def)
qed (simp add: phys_def remap_locate [OF assms])

section \<open>Reads and writes\<close>

lemma phys_write_page:
  assumes "phys m va sz True = Inr pa" "sz = 1 \<or> sz = 2 \<or> sz = 4"
  obtains i where "i < length (entries m)" "te_valid (entries m ! i)" "\<not> te_readOnly (entries m ! i)"
    "\<And>x. pa \<le> x \<Longrightarrow> x < pa + sz \<Longrightarrow> x div PageSize = unat (physicalPage (entries m ! i))"
proof -
  from assms(1) obtain i where i: "locate m (unat va div PageSize) = Inr i" "\<not> te_readOnly (entries m ! i)"
    "pa = unat (physicalPage (entries m ! i)) * PageSize + unat va mod PageSize"
    by (auto simp: phys_def split: if_splits sum.splits)
  note b = phys_bound [OF assms]
  have "x div PageSize = unat (physicalPage (entries m ! i))" if "pa \<le> x" "x < pa + sz" for x
    using in_page_div [OF _ that] i(3) b(1,3) by simp
  then show thesis using that locate_bound [OF i(1)] i(2) by blast
qed

definition read_value :: "(nat \<Rightarrow> 8 word) \<Rightarrow> nat \<Rightarrow> nat \<Rightarrow> 32 word" where
  "read_value mem pa sz = (if sz = 1 then scast (mem pa) else load_le mem pa sz)"

lemma ReadMem_phys:
  assumes "trans_ok m" "sz = 1 \<or> sz = 2 \<or> sz = 4"
  shows "ReadMem m va sz = Inr (case phys m va sz False of Inl ex \<Rightarrow> Inl ex
           | Inr pa \<Rightarrow> Inr (read_value (mainMemory m) pa sz, touch m va False))"
  using assms(2) by (auto simp: ReadMem_def Translate_phys [OF assms] read_value_def split: sum.splits)

lemma WriteMem_phys:
  assumes "trans_ok m" "sz = 1 \<or> sz = 2 \<or> sz = 4"
  shows "WriteMem m va sz v = Inr (case phys m va sz True of Inl ex \<Rightarrow> Inl ex
           | Inr pa \<Rightarrow> Inr ((touch m va True)\<lparr>mainMemory := store_le (mainMemory m) pa sz v\<rparr>))"
  using assms(2) by (auto simp: WriteMem_def Translate_phys [OF assms] split: sum.splits)

lemma phys_read_of_write: "phys m va sz True = Inr pa \<Longrightarrow> phys m va sz False = Inr pa"
  by (auto simp: phys_def split: sum.splits if_splits)

lemma read_store_value:
  "sz = 1 \<or> sz = 2 \<or> sz = 4 \<Longrightarrow> read_value (store_le mem a sz v) a sz =
     (if sz = 1 then scast (ucast v :: 8 word) else if sz = 2 then take_bit 16 v else v)"
  by (elim disjE) (simp_all add: read_value_def, simp add: store_le_def)

section \<open>Copies of byte strings\<close>

lemma ucast_scast_byte [simp]: "ucast (scast (c :: 8 word) :: 32 word) = c"
  by (rule bit_word_eqI) (auto simp: bit_simps)

lemma scast_byte_0 [simp]: "(scast (c :: 8 word) :: 32 word) = 0 \<longleftrightarrow> c = 0"
  by (metis ucast_scast_byte ucast_0 scast_0)

fun upto_nul :: "8 word list \<Rightarrow> 8 word list" where
  "upto_nul [] = []"
| "upto_nul (c # cs) = (if c = 0 then [0] else c # upto_nul cs)"

lemma upto_nul_idem [simp]: "upto_nul (upto_nul bs) = upto_nul bs"
  by (induction bs) auto

lemma zero_in_upto_nul: "0 \<in> set bs \<Longrightarrow> 0 \<in> set (upto_nul bs)"
  by (induction bs) auto

fun maps_to :: "Machine \<Rightarrow> 32 word \<Rightarrow> bool \<Rightarrow> nat list \<Rightarrow> bool" where
  "maps_to m a w [] = True"
| "maps_to m a w (p # ps) = (phys m a 1 w = Inr p \<and> maps_to m (a + 1) w ps)"

lemma maps_to_remap: "remap m m' \<Longrightarrow> maps_to m' a w ps = maps_to m a w ps"
  by (induction ps arbitrary: a) (simp_all add: remap_phys)

lemma maps_to_read: "maps_to m a True ps \<Longrightarrow> maps_to m a False ps"
  by (induction ps arbitrary: a) (simp_all add: phys_read_of_write)

lemma remap_ok: "remap m m' \<Longrightarrow> trans_ok m'"
  by (simp add: remap_def)

lemma user2system_loop_eq:
  "trans_ok m \<Longrightarrow> maps_to m a False pas \<Longrightarrow> length pas = n \<or> length pas \<le> n \<and> 0 \<in> mainMemory m ` set pas \<Longrightarrow>
   \<exists>m'. user2system_loop m a n = Inr (Inr (upto_nul (map (mainMemory m) pas), m')) \<and>
      remap m m' \<and> mainMemory m' = mainMemory m \<and> regs m' = regs m"
proof (induction n arbitrary: m a pas)
  case 0
  then show ?case by auto
next
  case (Suc n)
  then obtain p ps where p: "pas = p # ps" by (cases pas) auto
  let ?m = "touch m a False"
  have t: "remap m ?m" "trans_ok ?m" using remap_touch [OF Suc.prems(1)] remap_ok by blast+
  have r: "ReadMem m a 1 = Inr (Inr (scast (mainMemory m p), ?m))"
    using Suc.prems(2) by (simp add: ReadMem_phys [OF Suc.prems(1)] p read_value_def)
  show ?case
  proof (cases "mainMemory m p = 0")
    case True
    then show ?thesis using r t(1) by (simp add: p)
  next
    case False
    have "maps_to ?m (a + 1) False ps" using Suc.prems(2) by (simp add: p maps_to_remap [OF t(1)])
    moreover have "length ps = n \<or> length ps \<le> n \<and> 0 \<in> mainMemory ?m ` set ps"
      using Suc.prems(3) False by (auto simp: p)
    ultimately obtain m' where "user2system_loop ?m (a + 1) n =
        Inr (Inr (upto_nul (map (mainMemory m) ps), m'))" "remap ?m m'"
      "mainMemory m' = mainMemory m" "regs m' = regs m"
      using Suc.IH [OF t(2)] by fastforce
    then show ?thesis using r False remap_trans [OF t(1)] by (auto simp: p)
  qed
qed

lemma system2user_loop_eq:
  "trans_ok m \<Longrightarrow> maps_to m a True pas \<Longrightarrow> length pas = length (upto_nul bs) \<Longrightarrow> distinct pas \<Longrightarrow>
   \<exists>m'. system2user_loop m a bs = Inr (Inr (length pas, m')) \<and> remap m m' \<and>
     map (mainMemory m') pas = upto_nul bs \<and> (\<forall>x. x \<notin> set pas \<longrightarrow> mainMemory m' x = mainMemory m x) \<and>
     regs m' = regs m"
proof (induction bs arbitrary: m a pas)
  case Nil
  then show ?case by auto
next
  case (Cons c cs)
  then obtain p ps where p: "pas = p # ps" by (cases pas) (auto split: if_splits)
  define m1 where "m1 = (touch m a True)\<lparr>mainMemory := (mainMemory m)(p := c)\<rparr>"
  have mem1: "mainMemory m1 = (mainMemory m)(p := c)" "regs m1 = regs m" by (simp_all add: m1_def)
  have t: "remap m m1" by (simp add: m1_def remap_touch Cons.prems(1))
  have s: "store_le (mainMemory m) p 1 (scast c) = (mainMemory m)(p := c)"
    by (auto simp: store_le_def)
  have w: "WriteMem m a 1 (scast c) = Inr (Inr m1)"
    using Cons.prems(2) by (simp add: WriteMem_phys [OF Cons.prems(1)] p s [simplified] m1_def)
  show ?case
  proof (cases "c = 0")
    case True
    then show ?thesis using w t Cons.prems(3) by (simp add: p mem1)
  next
    case False
    have "maps_to m1 (a + 1) True ps" using Cons.prems(2) by (simp add: p maps_to_remap [OF t])
    then obtain m' where m': "system2user_loop m1 (a + 1) cs = Inr (Inr (length ps, m'))"
      "remap m1 m'" "map (mainMemory m') ps = upto_nul cs"
      "\<forall>x. x \<notin> set ps \<longrightarrow> mainMemory m' x = mainMemory m1 x" "regs m' = regs m1"
      using Cons.IH [OF remap_ok [OF t], of "a + 1" ps] Cons.prems(3,4) False by (auto simp: p)
    then show ?thesis using w False remap_trans [OF t] Cons.prems(4) by (auto simp: p mem1)
  qed
qed


section \<open>Properties\<close>

text \<open>A machine with two pages, in frames 5 and 3, the second one read only.\<close>

definition page_entry :: "nat \<Rightarrow> nat \<Rightarrow> bool \<Rightarrow> TranslationEntry" where
  "page_entry vpn frame ro = \<lparr>virtualPage = word_of_nat vpn, physicalPage = word_of_nat frame,
     te_valid = True, te_readOnly = ro, te_use = False, te_dirty = False\<rparr>"

definition two_pages :: Machine where
  "two_pages = (Machine_new 0)\<lparr>pageTable := Some 0, pageTableSize := 2,
     ptables := [0 \<mapsto> [page_entry 0 5 False, page_entry 1 3 True]]\<rparr>"

lemma two_pages_simps [simp]: "trans_ok two_pages" "tlb two_pages = None"
  "entries two_pages = [page_entry 0 5 False, page_entry 1 3 True]"
  by (simp_all add: two_pages_def Machine_new_def trans_ok_def entries_def)

text \<open>
  C11: address translation is safe on every machine whose page table or TLB is set up. It never
  aborts and never reads outside the table; it gives one of four exceptions, or a physical
  address with the whole access inside the simulated memory, in the frame of a valid entry
  that permits the access, at the offset of the virtual address. Only the use and dirty bits
  of that entry change.
\<close>

theorem Translate_safe:
  assumes "trans_ok m" "sz = 1 \<or> sz = 2 \<or> sz = 4"
  shows "(\<exists>ex \<in> {AddressErrorException, PageFaultException, ReadOnlyException, BusErrorException}.
            Translate m va sz writing = Inr (Inl ex)) \<or>
         (\<exists>pa m' i e. Translate m va sz writing = Inr (Inr (pa, m')) \<and> pa + sz \<le> MemorySize \<and>
            i < length (entries m) \<and> e = entries m ! i \<and> te_valid e \<and> \<not> (te_readOnly e \<and> writing) \<and>
            pa = unat (physicalPage e) * PageSize + unat va mod PageSize \<and>
            trans_ok m' \<and> mainMemory m' = mainMemory m \<and> regs m' = regs m \<and>
            entries m' = (entries m)[i := e\<lparr>te_use := True, te_dirty := te_dirty e \<or> writing\<rparr>])"
proof (cases "phys m va sz writing")
  case (Inl ex)
  then have "ex \<in> {AddressErrorException, PageFaultException, ReadOnlyException, BusErrorException}"
    by (auto simp: phys_def locate_def split: if_splits sum.splits option.splits)
  then show ?thesis by (simp add: Translate_phys [OF assms] Inl)
next
  case (Inr pa)
  then obtain i where i: "locate m (unat va div PageSize) = Inr i"
    "\<not> (te_readOnly (entries m ! i) \<and> writing)"
    "pa = unat (physicalPage (entries m ! i)) * PageSize + unat va mod PageSize"
    by (auto simp: phys_def split: if_splits sum.splits)
  have m': "touch m va writing = store_entry m i ((entries m ! i)\<lparr>te_use := True,
      te_dirty := te_dirty (entries m ! i) \<or> writing\<rparr>)" by (simp add: touch_def i)
  have "Translate m va sz writing = Inr (Inr (pa, touch m va writing))"
    by (simp add: Translate_phys [OF assms] Inr)
  then show ?thesis
    using i locate_bound [OF i(1)] phys_bound(2) [OF Inr assms(2)] store_entry_ok [OF assms(1)]
    unfolding m' by fastforce
qed

theorem Translate_safe_witness:
  "trans_ok two_pages \<and> Translate two_pages 140 4 True = Inr (Inl ReadOnlyException) \<and>
   (\<exists>pa m' i. Translate two_pages 12 4 True = Inr (Inr (pa, m')) \<and> pa = 652 \<and> i < 2 \<and>
      te_dirty (entries m' ! i))"
proof -
  have a: "Translate two_pages 140 4 True = Inr (Inl ReadOnlyException)"
    by (simp add: Translate_phys phys_def locate_def page_entry_def)
  have b: "Translate two_pages 12 4 True = Inr (Inr (652, touch two_pages 12 True))"
    by (simp add: Translate_phys phys_def locate_def page_entry_def)
  have "length (entries two_pages) = 2" by simp
  then have "\<exists>i<2. te_dirty (entries (touch two_pages 12 True) ! i)"
    using Translate_safe [of two_pages 4 12 True] b by (auto simp del: two_pages_simps(3))
  with a b show ?thesis by auto
qed

text \<open>
  C35: a value written to user memory is read back: all of it at size 4, its low half (zero
  extended) at size 2, its low byte (sign extended) at size 1. Neither access touches a register.
\<close>

theorem WriteMem_ReadMem_roundtrip:
  assumes "trans_ok m" "sz = 1 \<or> sz = 2 \<or> sz = 4" "WriteMem m va sz v = Inr (Inr m')"
  shows "\<exists>m''. ReadMem m' va sz = Inr (Inr (if sz = 1 then scast (ucast v :: 8 word)
            else if sz = 2 then take_bit 16 v else v, m'')) \<and> mainMemory m'' = mainMemory m' \<and> regs m' = regs m"
proof -
  obtain pa where pa: "phys m va sz True = Inr pa"
    and m': "m' = (touch m va True)\<lparr>mainMemory := store_le (mainMemory m) pa sz v\<rparr>"
    using assms(3) by (auto simp: WriteMem_phys [OF assms(1,2)] split: sum.splits)
  have r: "remap m m'" by (simp add: m' remap_touch assms(1))
  then have ok: "trans_ok m'" by (simp add: remap_def)
  have "phys m' va sz False = Inr pa" using pa remap_phys [OF r] phys_read_of_write by metis
  moreover have "mainMemory m' = store_le (mainMemory m) pa sz v" "regs m' = regs m"
    by (simp_all add: m')
  ultimately show ?thesis
    by (simp add: ReadMem_phys [OF ok assms(2)] read_store_value [OF assms(2)])
qed

theorem WriteMem_ReadMem_roundtrip_witness:
  "\<exists>m' m''. WriteMem two_pages 8 2 0x12345678 = Inr (Inr m') \<and>
     ReadMem m' 8 2 = Inr (Inr (0x5678, m'')) \<and> mainMemory m'' = mainMemory m'"
proof -
  have "phys two_pages 8 2 True = Inr 648"
    by (simp add: phys_def locate_def page_entry_def)
  then obtain m' where w: "WriteMem two_pages 8 2 0x12345678 = Inr (Inr m')"
    using WriteMem_phys [OF two_pages_simps(1), of 2] by simp
  from WriteMem_ReadMem_roundtrip [OF two_pages_simps(1) _ this] obtain m'' where
    "ReadMem m' 8 2 = Inr (Inr (take_bit 16 0x12345678, m''))" "mainMemory m'' = mainMemory m'" by auto
  with w show ?thesis by simp
qed

text \<open>
  C19: a write to user memory is confined. Only the bytes of the access change, and each of
  them lies in a frame that the current page table or TLB maps by a valid, writable entry.
\<close>

theorem WriteMem_confined:
  assumes "trans_ok m" "sz = 1 \<or> sz = 2 \<or> sz = 4" "WriteMem m va sz v = Inr (Inr m')"
  shows "\<exists>pa. pa mod PageSize = unat va mod PageSize \<and>
           (\<forall>x. \<not> (pa \<le> x \<and> x < pa + sz) \<longrightarrow> mainMemory m' x = mainMemory m x) \<and>
           (\<exists>e \<in> set (entries m). te_valid e \<and> \<not> te_readOnly e \<and>
              (\<forall>x. pa \<le> x \<and> x < pa + sz \<longrightarrow> x div PageSize = unat (physicalPage e)))"
proof -
  obtain pa where pa: "phys m va sz True = Inr pa"
    and m': "m' = (touch m va True)\<lparr>mainMemory := store_le (mainMemory m) pa sz v\<rparr>"
    using assms(3) by (auto simp: WriteMem_phys [OF assms(1,2)] split: sum.splits)
  obtain i where i: "i < length (entries m)" "te_valid (entries m ! i)" "\<not> te_readOnly (entries m ! i)"
    and w: "\<And>x. pa \<le> x \<Longrightarrow> x < pa + sz \<Longrightarrow> x div PageSize = unat (physicalPage (entries m ! i))"
    using phys_write_page [OF pa assms(2)] by blast
  have "\<forall>x. \<not> (pa \<le> x \<and> x < pa + sz) \<longrightarrow> mainMemory m' x = mainMemory m x"
    by (simp add: m' store_le_def)
  then show ?thesis using phys_bound(3) [OF pa assms(2)] i(2,3) w nth_mem [OF i(1)] by blast
qed

theorem WriteMem_confined_witness:
  "\<exists>m' pa. WriteMem two_pages 12 4 99 = Inr (Inr m') \<and> pa mod PageSize = 12 \<and>
     (\<forall>x. \<not> (pa \<le> x \<and> x < pa + 4) \<longrightarrow> mainMemory m' x = mainMemory two_pages x)"
proof -
  have "phys two_pages 12 4 True = Inr 652"
    by (simp add: phys_def locate_def page_entry_def)
  then obtain m' where w: "WriteMem two_pages 12 4 99 = Inr (Inr m')"
    using WriteMem_phys [OF two_pages_simps(1), of 4] by simp
  from WriteMem_confined [OF two_pages_simps(1) _ this] show ?thesis using w by auto
qed

text \<open>
  C36: a zero-terminated string that the kernel copies out with \<open>System2User\<close> and copies in
  again with \<open>User2System\<close> comes back, up to and including its terminator, provided the
  addresses are mapped to different writable bytes. \<open>System2User\<close> returns how many bytes it
  copied, and no other byte of memory changes: everything after the first zero is dropped.
\<close>

theorem System2User_User2System_roundtrip:
  assumes "trans_ok m" "0 < len" "len \<le> length buffer" "0 \<in> set (take len buffer)"
    and "maps_to m va True pas" "distinct pas" "length pas = length (upto_nul (take len buffer))"
    and "length pas \<le> limit"
  shows "\<exists>m' m''. System2User m va (int len) buffer = Inr (Inr (int (length pas), m')) \<and>
           (\<forall>x. x \<notin> set pas \<longrightarrow> mainMemory m' x = mainMemory m x) \<and>
           User2System m' va limit = Inr (Inr (upto_nul (take len buffer) @
             replicate (limit + 1 - length pas) 0, m''))"
proof -
  let ?bs = "take len buffer"
  obtain m' where m': "system2user_loop m va ?bs = Inr (Inr (length pas, m'))" "remap m m'"
    "map (mainMemory m') pas = upto_nul ?bs" "\<forall>x. x \<notin> set pas \<longrightarrow> mainMemory m' x = mainMemory m x"
    using system2user_loop_eq [OF assms(1,5,7,6)] by blast
  have z: "0 \<in> mainMemory m' ` set pas"
    using zero_in_upto_nul [OF assms(4)] by (simp flip: m'(3))
  have "maps_to m' va False pas"
    using assms(5) maps_to_read by (simp add: maps_to_remap [OF m'(2)])
  then obtain m'' where "user2system_loop m' va limit =
      Inr (Inr (upto_nul (map (mainMemory m') pas), m''))"
    using user2system_loop_eq [OF remap_ok [OF m'(2)], of va pas limit] z assms(8) by blast
  then have "User2System m' va limit = Inr (Inr (upto_nul ?bs @ replicate (limit + 1 - length pas) 0, m''))"
    by (simp add: User2System_def m'(3) assms(7))
  moreover have "System2User m va (int len) buffer = Inr (Inr (int (length pas), m'))"
    using assms(2,3) m'(1) by (simp add: System2User_def)
  ultimately show ?thesis using m'(4) by blast
qed

theorem System2User_User2System_roundtrip_witness:
  "\<exists>m' m''. System2User two_pages 126 2 [104, 0, 7] = Inr (Inr (2, m')) \<and>
     User2System m' 126 4 = Inr (Inr ([104, 0, 0, 0, 0], m''))"
proof -
  have "maps_to two_pages 126 True [766, 767]"
    by (simp add: phys_def locate_def page_entry_def)
  from System2User_User2System_roundtrip [OF two_pages_simps(1) _ _ _ this, of 2 "[104, 0, 7]" 4]
  show ?thesis by (auto simp: numeral_3_eq_3)
qed

end
