(* ===== verification/Mips_Sim.thy ===== *)
theory Mips_Sim
  imports Machine_Memory
begin

text \<open>
  The MIPS R2/3000 simulator of \<open>machine/mipssim.cc\<close>: decoding (\<open>Instruction::Decode\<close> with the
  tables of \<open>machine/mipssim.h\<close>), one definition per case of the switch of
  \<open>Machine::OneInstruction\<close>, the delayed load and the 64-bit multiplication.

  Registers are 32-bit words; C's \<open>int\<close> arithmetic on them wraps as it does on the host, and
  the signed comparisons, divisions and right shifts are the signed ones. An operation ends
  the instruction in one of two ways: \<open>Next\<close>, with the machine, the value of \<open>pcAfter\<close> and the
  delayed load to schedule, or \<open>Trap\<close>, where the code calls \<open>RaiseException\<close> and returns.
\<close>

unbundle bit_operations_syntax

named_theorems op_defs \<open>definitions of the instruction cases\<close>

section \<open>Instructions and their decoding\<close>

datatype OpCode = OP_ADD | OP_ADDI | OP_ADDIU | OP_ADDU | OP_AND | OP_ANDI | OP_BEQ | OP_BGEZ
  | OP_BGEZAL | OP_BGTZ | OP_BLEZ | OP_BLTZ | OP_BLTZAL | OP_BNE | OP_DIV | OP_DIVU | OP_J | OP_JAL
  | OP_JALR | OP_JR | OP_LB | OP_LBU | OP_LH | OP_LHU | OP_LUI | OP_LW | OP_LWL | OP_LWR | OP_MFHI
  | OP_MFLO | OP_MTHI | OP_MTLO | OP_MULT | OP_MULTU | OP_NOR | OP_OR | OP_ORI | OP_RFE | OP_SB
  | OP_SH | OP_SLL | OP_SLLV | OP_SLT | OP_SLTI | OP_SLTIU | OP_SLTU | OP_SRA | OP_SRAV | OP_SRL
  | OP_SRLV | OP_SUB | OP_SUBU | OP_SW | OP_SWL | OP_SWR | OP_XOR | OP_XORI | OP_SYSCALL
  | OP_UNIMP | OP_RES | SPECIAL | BCOND

datatype OpFormat = IFMT | JFMT | RFMT

record Instruction =
  ivalue :: "32 word"
  opCode :: OpCode
  rs :: nat
  rt :: nat
  rd :: nat
  extra :: "32 word"

definition opTable :: "(OpCode \<times> OpFormat) list" where
  "opTable =
    [(SPECIAL, RFMT), (BCOND, IFMT), (OP_J, JFMT), (OP_JAL, JFMT),
     (OP_BEQ, IFMT), (OP_BNE, IFMT), (OP_BLEZ, IFMT), (OP_BGTZ, IFMT),
     (OP_ADDI, IFMT), (OP_ADDIU, IFMT), (OP_SLTI, IFMT), (OP_SLTIU, IFMT),
     (OP_ANDI, IFMT), (OP_ORI, IFMT), (OP_XORI, IFMT), (OP_LUI, IFMT),
     (OP_UNIMP, IFMT), (OP_UNIMP, IFMT), (OP_UNIMP, IFMT), (OP_UNIMP, IFMT),
     (OP_RES, IFMT), (OP_RES, IFMT), (OP_RES, IFMT), (OP_RES, IFMT),
     (OP_RES, IFMT), (OP_RES, IFMT), (OP_RES, IFMT), (OP_RES, IFMT),
     (OP_RES, IFMT), (OP_RES, IFMT), (OP_RES, IFMT), (OP_RES, IFMT),
     (OP_LB, IFMT), (OP_LH, IFMT), (OP_LWL, IFMT), (OP_LW, IFMT),
     (OP_LBU, IFMT), (OP_LHU, IFMT), (OP_LWR, IFMT), (OP_RES, IFMT),
     (OP_SB, IFMT), (OP_SH, IFMT), (OP_SWL, IFMT), (OP_SW, IFMT),
     (OP_RES, IFMT), (OP_RES, IFMT), (OP_SWR, IFMT), (OP_RES, IFMT),
     (OP_UNIMP, IFMT), (OP_UNIMP, IFMT), (OP_UNIMP, IFMT), (OP_UNIMP, IFMT),
     (OP_RES, IFMT), (OP_RES, IFMT), (OP_RES, IFMT), (OP_RES, IFMT),
     (OP_UNIMP, IFMT), (OP_UNIMP, IFMT), (OP_UNIMP, IFMT), (OP_UNIMP, IFMT),
     (OP_RES, IFMT), (OP_RES, IFMT), (OP_RES, IFMT), (OP_RES, IFMT)]"

definition specialTable :: "OpCode list" where
  "specialTable =
    [OP_SLL, OP_RES, OP_SRL, OP_SRA, OP_SLLV, OP_RES, OP_SRLV, OP_SRAV,
     OP_JR, OP_JALR, OP_RES, OP_RES, OP_SYSCALL, OP_UNIMP, OP_RES, OP_RES,
     OP_MFHI, OP_MTHI, OP_MFLO, OP_MTLO, OP_RES, OP_RES, OP_RES, OP_RES,
     OP_MULT, OP_MULTU, OP_DIV, OP_DIVU, OP_RES, OP_RES, OP_RES, OP_RES,
     OP_ADD, OP_ADDU, OP_SUB, OP_SUBU, OP_AND, OP_OR, OP_XOR, OP_NOR,
     OP_RES, OP_RES, OP_SLT, OP_SLTU, OP_RES, OP_RES, OP_RES, OP_RES,
     OP_RES, OP_RES, OP_RES, OP_RES, OP_RES, OP_RES, OP_RES, OP_RES,
     OP_RES, OP_RES, OP_RES, OP_RES, OP_RES, OP_RES, OP_RES, OP_RES]"

text \<open>The fields of the instruction word; \<open>field v k n\<close> is \<open>(v >> k)\<close> masked to \<open>n\<close> bits.\<close>

definition field :: "32 word \<Rightarrow> nat \<Rightarrow> nat \<Rightarrow> nat" where
  "field v k n = unat (drop_bit k v AND mask n)"

definition extra_of :: "OpFormat \<Rightarrow> 32 word \<Rightarrow> 32 word" where
  "extra_of fmt v = (case fmt of
       IFMT \<Rightarrow> let e = v AND 0xffff in if e AND 0x8000 \<noteq> 0 then e OR 0xffff0000 else e
     | RFMT \<Rightarrow> drop_bit 6 v AND 0x1f
     | JFMT \<Rightarrow> v AND 0x3ffffff)"

definition Decode :: "32 word \<Rightarrow> Instruction" where
  "Decode v =
     (let opPtr = opTable ! field v 26 6;
          op = fst opPtr;
          i = v AND 0x1f0000
      in \<lparr>ivalue = v,
          opCode = (if op = SPECIAL then specialTable ! field v 0 6
            else if op = BCOND
            then if i = 0 then OP_BLTZ else if i = 0x10000 then OP_BGEZ
                 else if i = 0x100000 then OP_BLTZAL else if i = 0x110000 then OP_BGEZAL
                 else OP_UNIMP
            else op),
          rs = field v 21 5, rt = field v 16 5, rd = field v 11 5,
          extra = extra_of (snd opPtr) v\<rparr>)"

section \<open>Multiplication\<close>

text \<open>
  The main loop of \<open>Mult\<close>, with \<open>n\<close> iterations to go: \<open>a\<close> is shifted right as a signed number.
\<close>

fun mult_loop :: "nat \<Rightarrow> 32 word \<Rightarrow> 32 word \<Rightarrow> 32 word \<Rightarrow> 32 word \<Rightarrow> 32 word \<Rightarrow> 32 word \<times> 32 word" where
  "mult_loop 0 a bHi bLo hi lo = (hi, lo)"
| "mult_loop (Suc n) a bHi bLo hi lo =
     (let lo' = (if a AND 1 \<noteq> 0 then lo + bLo else lo);
          hi' = (if a AND 1 \<noteq> 0 then (if lo' < bLo then hi + 1 else hi) + bHi else hi)
      in if a AND 1 \<noteq> 0 \<and> a AND 0xfffffffe = 0 then (hi', lo')
         else mult_loop n (signed_drop_bit 1 a)
                (if bLo AND 0x80000000 \<noteq> 0 then push_bit 1 bHi OR 1 else push_bit 1 bHi)
                (push_bit 1 bLo) hi' lo')"

definition Mult :: "32 word \<Rightarrow> 32 word \<Rightarrow> bool \<Rightarrow> 32 word \<times> 32 word" where
  "Mult a b signedArith =
     (if a = 0 \<or> b = 0 then (0, 0)
      else let negative = signedArith \<and> (a <s 0) \<noteq> (b <s 0);
               a' = (if signedArith \<and> a <s 0 then - a else a);
               b' = (if signedArith \<and> b <s 0 then - b else b)
           in case mult_loop 32 a' 0 b' 0 0 of (hi, lo) \<Rightarrow>
                if negative
                then let lo' = NOT lo + 1
                     in (if lo' = 0 then NOT hi + 1 else NOT hi, lo')
                else (hi, lo))"

section \<open>The cases of the switch\<close>

datatype exec = Next Machine "32 word" "32 word" "32 word"
  | Trap ExceptionType "32 word" Machine

type_synonym operation = "Machine \<Rightarrow> Instruction \<Rightarrow> 32 word \<Rightarrow> exec res"

abbreviation SIGN_BIT :: "32 word" where "SIGN_BIT \<equiv> 0x80000000"
abbreviation R31 :: nat where "R31 \<equiv> 31"

definition IndexToAddr :: "32 word \<Rightarrow> 32 word" where
  "IndexToAddr x = push_bit 2 x"

definition setreg :: "Machine \<Rightarrow> nat \<Rightarrow> 32 word \<Rightarrow> Machine" where
  "setreg m r v = m\<lparr>regs := (regs m)(r := v)\<rparr>"

text \<open>An operation that goes on after the switch with no delayed load of its own.\<close>

definition go :: "Machine \<Rightarrow> 32 word \<Rightarrow> exec res" where
  "go m pcAfter = Inr (Next m pcAfter 0 0)"

definition branch_target :: "Machine \<Rightarrow> Instruction \<Rightarrow> 32 word" where
  "branch_target m i = regs m NextPCReg + IndexToAddr (extra i)"

definition op_ADD :: operation where [op_defs]:
  "op_ADD m i pcAfter = 
     (let sum = regs m (rs i) + regs m (rt i)
      in if (regs m (rs i) XOR regs m (rt i)) AND SIGN_BIT = 0 \<and> (regs m (rs i) XOR sum) AND SIGN_BIT \<noteq> 0
         then Inr (Trap OverflowException 0 m)
         else go (setreg m (rd i) sum) pcAfter)"

definition op_ADDI :: operation where [op_defs]:
  "op_ADDI m i pcAfter = 
     (let sum = regs m (rs i) + extra i
      in if (regs m (rs i) XOR extra i) AND SIGN_BIT = 0 \<and> (extra i XOR sum) AND SIGN_BIT \<noteq> 0
         then Inr (Trap OverflowException 0 m)
         else go (setreg m (rt i) sum) pcAfter)"

definition op_ADDIU :: operation where [op_defs]:
  "op_ADDIU m i pcAfter = go (setreg m (rt i) (regs m (rs i) + extra i)) pcAfter"

definition op_ADDU :: operation where [op_defs]:
  "op_ADDU m i pcAfter = go (setreg m (rd i) (regs m (rs i) + regs m (rt i))) pcAfter"

definition op_AND :: operation where [op_defs]:
  "op_AND m i pcAfter = go (setreg m (rd i) (regs m (rs i) AND regs m (rt i))) pcAfter"

definition op_ANDI :: operation where [op_defs]:
  "op_ANDI m i pcAfter = go (setreg m (rt i) (regs m (rs i) AND (extra i AND 0xffff))) pcAfter"

definition op_BEQ :: operation where [op_defs]:
  "op_BEQ m i pcAfter = 
     go m (if regs m (rs i) = regs m (rt i) then branch_target m i else pcAfter)"

definition op_BGEZ :: operation where [op_defs]:
  "op_BGEZ m i pcAfter = 
     go m (if regs m (rs i) AND SIGN_BIT = 0 then branch_target m i else pcAfter)"

definition op_BGEZAL :: operation where [op_defs]:
  "op_BGEZAL m i pcAfter = 
     op_BGEZ (setreg m R31 (regs m NextPCReg + 4)) i pcAfter"

definition op_BGTZ :: operation where [op_defs]:
  "op_BGTZ m i pcAfter = 
     go m (if 0 <s regs m (rs i) then branch_target m i else pcAfter)"

definition op_BLEZ :: operation where [op_defs]:
  "op_BLEZ m i pcAfter = 
     go m (if regs m (rs i) \<le>s 0 then branch_target m i else pcAfter)"

definition op_BLTZ :: operation where [op_defs]:
  "op_BLTZ m i pcAfter = 
     go m (if regs m (rs i) AND SIGN_BIT \<noteq> 0 then branch_target m i else pcAfter)"

definition op_BLTZAL :: operation where [op_defs]:
  "op_BLTZAL m i pcAfter = 
     op_BLTZ (setreg m R31 (regs m NextPCReg + 4)) i pcAfter"

definition op_BNE :: operation where [op_defs]:
  "op_BNE m i pcAfter = 
     go m (if regs m (rs i) \<noteq> regs m (rt i) then branch_target m i else pcAfter)"

text \<open>
  The host traps on the one quotient that does not fit, the smallest number divided by -1.
\<close>

definition op_DIV :: operation where [op_defs]:
  "op_DIV m i pcAfter = 
     (if regs m (rt i) = 0 then go (setreg (setreg m LoReg 0) HiReg 0) pcAfter
      else if regs m (rs i) = SIGN_BIT \<and> regs m (rt i) = -1 then Inl HostTrap
      else go (setreg (setreg m LoReg (word_of_int (sint (regs m (rs i)) sdiv sint (regs m (rt i)))))
                 HiReg (word_of_int (sint (regs m (rs i)) smod sint (regs m (rt i))))) pcAfter)"

definition op_DIVU :: operation where [op_defs]:
  "op_DIVU m i pcAfter = 
     (if regs m (rt i) = 0 then go (setreg (setreg m LoReg 0) HiReg 0) pcAfter
      else go (setreg (setreg m LoReg (regs m (rs i) div regs m (rt i)))
                 HiReg (regs m (rs i) mod regs m (rt i))) pcAfter)"

definition op_J :: operation where [op_defs]:
  "op_J m i pcAfter = 
     go m ((pcAfter AND 0xf0000000) OR IndexToAddr (extra i))"

definition op_JAL :: operation where [op_defs]:
  "op_JAL m i pcAfter = 
     op_J (setreg m R31 (regs m NextPCReg + 4)) i pcAfter"

definition op_JR :: operation where [op_defs]:
  "op_JR m i pcAfter = go m (regs m (rs i))"

definition op_JALR :: operation where [op_defs]:
  "op_JALR m i pcAfter = 
     op_JR (setreg m (rd i) (regs m NextPCReg + 4)) i pcAfter"

text \<open>
  A case that starts with \<open>if (!machine->ReadMem(addr, size, &value)) return;\<close> and, with the
  value, goes on as \<open>k\<close>; and one that ends with \<open>if (!machine->WriteMem(...)) return;\<close>.
\<close>

definition with_ReadMem ::
  "Machine \<Rightarrow> 32 word \<Rightarrow> nat \<Rightarrow> (32 word \<Rightarrow> Machine \<Rightarrow> exec res) \<Rightarrow> exec res" where
  "with_ReadMem m addr sz k = rbind (ReadMem m addr sz) (\<lambda>r.
     case r of Inl ex \<Rightarrow> Inr (Trap ex addr m) | Inr (v, m') \<Rightarrow> k v m')"

definition with_WriteMem :: "Machine \<Rightarrow> 32 word \<Rightarrow> nat \<Rightarrow> 32 word \<Rightarrow> 32 word \<Rightarrow> exec res" where
  "with_WriteMem m addr sz v pcAfter = rbind (WriteMem m addr sz v) (\<lambda>r.
     case r of Inl ex \<Rightarrow> Inr (Trap ex addr m) | Inr m' \<Rightarrow> go m' pcAfter)"

definition schedule_load :: "Machine \<Rightarrow> Instruction \<Rightarrow> 32 word \<Rightarrow> 32 word \<Rightarrow> exec res" where
  "schedule_load m i pcAfter v = Inr (Next m pcAfter (word_of_nat (rt i)) v)"

definition eff_addr :: "Machine \<Rightarrow> Instruction \<Rightarrow> 32 word" where
  "eff_addr m i = regs m (rs i) + extra i"

definition op_LB :: operation where [op_defs]:
  "op_LB m i pcAfter = 
     with_ReadMem m (eff_addr m i) 1 (\<lambda>value m'.
       schedule_load m' i pcAfter
         (if value AND 0x80 \<noteq> 0 \<and> opCode i = OP_LB then value OR 0xffffff00 else value AND 0xff))"

definition op_LH :: operation where [op_defs]:
  "op_LH m i pcAfter = 
     (if eff_addr m i AND 1 \<noteq> 0 then Inr (Trap AddressErrorException (eff_addr m i) m)
      else with_ReadMem m (eff_addr m i) 2 (\<lambda>value m'.
        schedule_load m' i pcAfter
          (if value AND 0x8000 \<noteq> 0 \<and> opCode i = OP_LH then value OR 0xffff0000
           else value AND 0xffff)))"

definition op_LUI :: operation where [op_defs]:
  "op_LUI m i pcAfter = go (setreg m (rt i) (push_bit 16 (extra i))) pcAfter"

definition op_LW :: operation where [op_defs]:
  "op_LW m i pcAfter = 
     (if eff_addr m i AND 3 \<noteq> 0 then Inr (Trap AddressErrorException (eff_addr m i) m)
      else with_ReadMem m (eff_addr m i) 4 (\<lambda>value m'. schedule_load m' i pcAfter value))"

text \<open>
  The unaligned loads and stores assert that the address is aligned, so only the case 0 of
  their inner switches runs; the other cases are translated all the same.
\<close>

definition pending_or_reg :: "Machine \<Rightarrow> nat \<Rightarrow> 32 word" where
  "pending_or_reg m r =
     (if regs m LoadReg = word_of_nat r then regs m LoadValueReg else regs m r)"

definition lwl_merge :: "32 word \<Rightarrow> 32 word \<Rightarrow> 32 word \<Rightarrow> 32 word" where
  "lwl_merge sel old value =
     (if sel = 0 then value
      else if sel = 1 then (old AND 0xff) OR push_bit 8 value
      else if sel = 2 then (old AND 0xffff) OR push_bit 16 value
      else (old AND 0xffffff) OR push_bit 24 value)"

definition lwr_merge :: "32 word \<Rightarrow> 32 word \<Rightarrow> 32 word \<Rightarrow> 32 word" where
  "lwr_merge sel old value =
     (if sel = 0 then (old AND 0xffffff00) OR (signed_drop_bit 24 value AND 0xff)
      else if sel = 1 then (old AND 0xffff0000) OR (signed_drop_bit 16 value AND 0xffff)
      else if sel = 2 then (old AND 0xff000000) OR (signed_drop_bit 8 value AND 0xffffff)
      else value)"

definition swl_merge :: "32 word \<Rightarrow> 32 word \<Rightarrow> 32 word \<Rightarrow> 32 word" where
  "swl_merge sel value r =
     (if sel = 0 then r
      else if sel = 1 then (value AND 0xff000000) OR (signed_drop_bit 8 r AND 0xffffff)
      else if sel = 2 then (value AND 0xffff0000) OR (signed_drop_bit 16 r AND 0xffff)
      else (value AND 0xffffff00) OR (signed_drop_bit 24 r AND 0xff))"

definition swr_merge :: "32 word \<Rightarrow> 32 word \<Rightarrow> 32 word \<Rightarrow> 32 word" where
  "swr_merge sel value r =
     (if sel = 0 then (value AND 0xffffff) OR push_bit 24 r
      else if sel = 1 then (value AND 0xffff) OR push_bit 16 r
      else if sel = 2 then (value AND 0xff) OR push_bit 8 r
      else r)"

definition op_LWL :: operation where [op_defs]:
  "op_LWL m i pcAfter = 
     (let tmp = eff_addr m i in rbind (ASSERT (tmp AND 3 = 0)) (\<lambda>_.
        with_ReadMem m tmp 4 (\<lambda>value m'.
          schedule_load m' i pcAfter (lwl_merge (tmp AND 3) (pending_or_reg m' (rt i)) value))))"

definition op_LWR :: operation where [op_defs]:
  "op_LWR m i pcAfter = 
     (let tmp = eff_addr m i in rbind (ASSERT (tmp AND 3 = 0)) (\<lambda>_.
        with_ReadMem m tmp 4 (\<lambda>value m'.
          schedule_load m' i pcAfter (lwr_merge (tmp AND 3) (pending_or_reg m' (rt i)) value))))"

definition op_MFHI :: operation where [op_defs]:
  "op_MFHI m i pcAfter = go (setreg m (rd i) (regs m HiReg)) pcAfter"

definition op_MFLO :: operation where [op_defs]:
  "op_MFLO m i pcAfter = go (setreg m (rd i) (regs m LoReg)) pcAfter"

definition op_MTHI :: operation where [op_defs]:
  "op_MTHI m i pcAfter = go (setreg m HiReg (regs m (rs i))) pcAfter"

definition op_MTLO :: operation where [op_defs]:
  "op_MTLO m i pcAfter = go (setreg m LoReg (regs m (rs i))) pcAfter"

definition op_MULT :: operation where [op_defs]:
  "op_MULT m i pcAfter = 
     (case Mult (regs m (rs i)) (regs m (rt i)) True of (hi, lo) \<Rightarrow>
        go (setreg (setreg m HiReg hi) LoReg lo) pcAfter)"

definition op_MULTU :: operation where [op_defs]:
  "op_MULTU m i pcAfter = 
     (case Mult (regs m (rs i)) (regs m (rt i)) False of (hi, lo) \<Rightarrow>
        go (setreg (setreg m HiReg hi) LoReg lo) pcAfter)"

definition op_NOR :: operation where [op_defs]:
  "op_NOR m i pcAfter = go (setreg m (rd i) (NOT (regs m (rs i) OR regs m (rt i)))) pcAfter"

definition op_OR :: operation where [op_defs]:
  "op_OR m i pcAfter = go (setreg m (rd i) (regs m (rs i) OR regs m (rs i))) pcAfter"

definition op_ORI :: operation where [op_defs]:
  "op_ORI m i pcAfter = go (setreg m (rt i) (regs m (rs i) OR (extra i AND 0xffff))) pcAfter"

definition op_SB :: operation where [op_defs]:
  "op_SB m i pcAfter = with_WriteMem m (eff_addr m i) 1 (regs m (rt i)) pcAfter"

definition op_SH :: operation where [op_defs]:
  "op_SH m i pcAfter = with_WriteMem m (eff_addr m i) 2 (regs m (rt i)) pcAfter"

definition op_SLL :: operation where [op_defs]:
  "op_SLL m i pcAfter = go (setreg m (rd i) (push_bit (unat (extra i)) (regs m (rt i)))) pcAfter"

definition op_SLLV :: operation where [op_defs]:
  "op_SLLV m i pcAfter = 
     go (setreg m (rd i) (push_bit (unat (regs m (rs i) AND 0x1f)) (regs m (rt i)))) pcAfter"

definition op_SLT :: operation where [op_defs]:
  "op_SLT m i pcAfter = 
     go (setreg m (rd i) (if regs m (rs i) <s regs m (rt i) then 1 else 0)) pcAfter"

definition op_SLTI :: operation where [op_defs]:
  "op_SLTI m i pcAfter = 
     go (setreg m (rt i) (if regs m (rs i) <s extra i then 1 else 0)) pcAfter"

definition op_SLTIU :: operation where [op_defs]:
  "op_SLTIU m i pcAfter = 
     go (setreg m (rt i) (if regs m (rs i) < extra i then 1 else 0)) pcAfter"

definition op_SLTU :: operation where [op_defs]:
  "op_SLTU m i pcAfter = 
     go (setreg m (rd i) (if regs m (rs i) < regs m (rt i) then 1 else 0)) pcAfter"

definition op_SRA :: operation where [op_defs]:
  "op_SRA m i pcAfter = go (setreg m (rd i) (signed_drop_bit (unat (extra i)) (regs m (rt i)))) pcAfter"

definition op_SRAV :: operation where [op_defs]:
  "op_SRAV m i pcAfter = 
     go (setreg m (rd i) (signed_drop_bit (unat (regs m (rs i) AND 0x1f)) (regs m (rt i)))) pcAfter"

text \<open>The logical shifts go through the \<open>int\<close> variable \<open>tmp\<close>: they shift as signed numbers.\<close>

definition op_SRL :: operation where [op_defs]:
  "op_SRL m i pcAfter = 
     (let tmp = regs m (rt i)
      in go (setreg m (rd i) (signed_drop_bit (unat (extra i)) tmp)) pcAfter)"

definition op_SRLV :: operation where [op_defs]:
  "op_SRLV m i pcAfter = 
     (let tmp = regs m (rt i)
      in go (setreg m (rd i) (signed_drop_bit (unat (regs m (rs i) AND 0x1f)) tmp)) pcAfter)"

definition op_SUB :: operation where [op_defs]:
  "op_SUB m i pcAfter = 
     (let diff = regs m (rs i) - regs m (rt i)
      in if (regs m (rs i) XOR regs m (rt i)) AND SIGN_BIT \<noteq> 0 \<and> (regs m (rs i) XOR diff) AND SIGN_BIT \<noteq> 0
         then Inr (Trap OverflowException 0 m)
         else go (setreg m (rd i) diff) pcAfter)"

definition op_SUBU :: operation where [op_defs]:
  "op_SUBU m i pcAfter = go (setreg m (rd i) (regs m (rs i) - regs m (rt i))) pcAfter"

definition op_SW :: operation where [op_defs]:
  "op_SW m i pcAfter = with_WriteMem m (eff_addr m i) 4 (regs m (rt i)) pcAfter"

definition op_SWL :: operation where [op_defs]:
  "op_SWL m i pcAfter = 
     (let tmp = eff_addr m i in rbind (ASSERT (tmp AND 3 = 0)) (\<lambda>_.
        with_ReadMem m (tmp AND NOT 3) 4 (\<lambda>value m'.
          with_WriteMem m' (tmp AND NOT 3) 4 (swl_merge (tmp AND 3) value (regs m' (rt i))) pcAfter)))"

definition op_SWR :: operation where [op_defs]:
  "op_SWR m i pcAfter = 
     (let tmp = eff_addr m i in rbind (ASSERT (tmp AND 3 = 0)) (\<lambda>_.
        with_ReadMem m (tmp AND NOT 3) 4 (\<lambda>value m'.
          with_WriteMem m' (tmp AND NOT 3) 4 (swr_merge (tmp AND 3) value (regs m' (rt i))) pcAfter)))"

definition op_SYSCALL :: operation where [op_defs]:
  "op_SYSCALL m i pcAfter = Inr (Trap SyscallException 0 m)"

definition op_XOR :: operation where [op_defs]:
  "op_XOR m i pcAfter = go (setreg m (rd i) (regs m (rs i) XOR regs m (rt i))) pcAfter"

definition op_XORI :: operation where [op_defs]:
  "op_XORI m i pcAfter = go (setreg m (rt i) (regs m (rs i) XOR (extra i AND 0xffff))) pcAfter"

definition op_ILLEGAL :: operation where [op_defs]:
  "op_ILLEGAL m i pcAfter = Inr (Trap IllegalInstrException 0 m)"

text \<open>The switch itself; \<open>OP_RFE\<close>, \<open>SPECIAL\<close> and \<open>BCOND\<close> fall to its default, \<open>ASSERT(FALSE)\<close>.\<close>

definition execute :: operation where
  "execute m i pcAfter = (case opCode i of
       OP_ADD \<Rightarrow> op_ADD m i pcAfter
     | OP_ADDI \<Rightarrow> op_ADDI m i pcAfter
     | OP_ADDIU \<Rightarrow> op_ADDIU m i pcAfter
     | OP_ADDU \<Rightarrow> op_ADDU m i pcAfter
     | OP_AND \<Rightarrow> op_AND m i pcAfter
     | OP_ANDI \<Rightarrow> op_ANDI m i pcAfter
     | OP_BEQ \<Rightarrow> op_BEQ m i pcAfter
     | OP_BGEZ \<Rightarrow> op_BGEZ m i pcAfter
     | OP_BGEZAL \<Rightarrow> op_BGEZAL m i pcAfter
     | OP_BGTZ \<Rightarrow> op_BGTZ m i pcAfter
     | OP_BLEZ \<Rightarrow> op_BLEZ m i pcAfter
     | OP_BLTZ \<Rightarrow> op_BLTZ m i pcAfter
     | OP_BLTZAL \<Rightarrow> op_BLTZAL m i pcAfter
     | OP_BNE \<Rightarrow> op_BNE m i pcAfter
     | OP_DIV \<Rightarrow> op_DIV m i pcAfter
     | OP_DIVU \<Rightarrow> op_DIVU m i pcAfter
     | OP_J \<Rightarrow> op_J m i pcAfter
     | OP_JAL \<Rightarrow> op_JAL m i pcAfter
     | OP_JALR \<Rightarrow> op_JALR m i pcAfter
     | OP_JR \<Rightarrow> op_JR m i pcAfter
     | OP_LB \<Rightarrow> op_LB m i pcAfter
     | OP_LBU \<Rightarrow> op_LB m i pcAfter
     | OP_LH \<Rightarrow> op_LH m i pcAfter
     | OP_LHU \<Rightarrow> op_LH m i pcAfter
     | OP_LUI \<Rightarrow> op_LUI m i pcAfter
     | OP_LW \<Rightarrow> op_LW m i pcAfter
     | OP_LWL \<Rightarrow> op_LWL m i pcAfter
     | OP_LWR \<Rightarrow> op_LWR m i pcAfter
     | OP_MFHI \<Rightarrow> op_MFHI m i pcAfter
     | OP_MFLO \<Rightarrow> op_MFLO m i pcAfter
     | OP_MTHI \<Rightarrow> op_MTHI m i pcAfter
     | OP_MTLO \<Rightarrow> op_MTLO m i pcAfter
     | OP_MULT \<Rightarrow> op_MULT m i pcAfter
     | OP_MULTU \<Rightarrow> op_MULTU m i pcAfter
     | OP_NOR \<Rightarrow> op_NOR m i pcAfter
     | OP_OR \<Rightarrow> op_OR m i pcAfter
     | OP_ORI \<Rightarrow> op_ORI m i pcAfter
     | OP_SB \<Rightarrow> op_SB m i pcAfter
     | OP_SH \<Rightarrow> op_SH m i pcAfter
     | OP_SLL \<Rightarrow> op_SLL m i pcAfter
     | OP_SLLV \<Rightarrow> op_SLLV m i pcAfter
     | OP_SLT \<Rightarrow> op_SLT m i pcAfter
     | OP_SLTI \<Rightarrow> op_SLTI m i pcAfter
     | OP_SLTIU \<Rightarrow> op_SLTIU m i pcAfter
     | OP_SLTU \<Rightarrow> op_SLTU m i pcAfter
     | OP_SRA \<Rightarrow> op_SRA m i pcAfter
     | OP_SRAV \<Rightarrow> op_SRAV m i pcAfter
     | OP_SRL \<Rightarrow> op_SRL m i pcAfter
     | OP_SRLV \<Rightarrow> op_SRLV m i pcAfter
     | OP_SUB \<Rightarrow> op_SUB m i pcAfter
     | OP_SUBU \<Rightarrow> op_SUBU m i pcAfter
     | OP_SW \<Rightarrow> op_SW m i pcAfter
     | OP_SWL \<Rightarrow> op_SWL m i pcAfter
     | OP_SWR \<Rightarrow> op_SWR m i pcAfter
     | OP_XOR \<Rightarrow> op_XOR m i pcAfter
     | OP_XORI \<Rightarrow> op_XORI m i pcAfter
     | OP_SYSCALL \<Rightarrow> op_SYSCALL m i pcAfter
     | OP_UNIMP \<Rightarrow> op_ILLEGAL m i pcAfter
     | OP_RES \<Rightarrow> op_ILLEGAL m i pcAfter
     | OP_RFE \<Rightarrow> Inl AssertFail | SPECIAL \<Rightarrow> Inl AssertFail | BCOND \<Rightarrow> Inl AssertFail)"

section \<open>One instruction\<close>

definition DelayedLoad :: "Machine \<Rightarrow> 32 word \<Rightarrow> 32 word \<Rightarrow> Machine res" where
  "DelayedLoad m nextReg nextValue =
     (if NumTotalRegs \<le> unat (regs m LoadReg) then Inl OutOfBounds
      else let m1 = setreg m (unat (regs m LoadReg)) (regs m LoadValueReg);
               m2 = setreg m1 LoadReg nextReg;
               m3 = setreg m2 LoadValueReg nextValue
           in Inr (setreg m3 0 0))"

text \<open>
  \<open>RaiseException\<close> up to the call of \<open>ExceptionHandler\<close>, which is the kernel's entry point.
  \<open>OneInstruction\<close> does nothing more after it returns.
\<close>

definition RaiseException :: "Machine \<Rightarrow> 32 word \<Rightarrow> Machine res" where
  "RaiseException m badVAddr = DelayedLoad (setreg m BadVAddrReg badVAddr) 0 0"

datatype outcome = Completed Machine | Trapped ExceptionType Machine

definition finish :: "exec \<Rightarrow> outcome res" where
  "finish e = (case e of
       Trap ex bad m \<Rightarrow> rbind (RaiseException m bad) (\<lambda>m'. Inr (Trapped ex m'))
     | Next m pcAfter nextLoadReg nextLoadValue \<Rightarrow>
         rbind (DelayedLoad m nextLoadReg nextLoadValue) (\<lambda>m1.
           let m2 = setreg m1 PrevPCReg (regs m1 PCReg);
               m3 = setreg m2 PCReg (regs m2 NextPCReg)
           in Inr (Completed (setreg m3 NextPCReg pcAfter))))"

definition OneInstruction :: "Machine \<Rightarrow> outcome res" where
  "OneInstruction m = rbind
     (with_ReadMem m (regs m PCReg) 4 (\<lambda>raw m'.
        execute m' (Decode raw) (regs m' NextPCReg + 4))) finish"

section \<open>Multiplication is exact\<close>

abbreviation dword :: "32 word \<Rightarrow> 32 word \<Rightarrow> int" where
  "dword hi lo \<equiv> uint hi * 2 ^ 32 + uint lo"

abbreviation cong64 :: "int \<Rightarrow> int \<Rightarrow> bool" where
  "cong64 x y \<equiv> x mod 2 ^ 64 = y mod 2 ^ 64"

lemma uint_add_carry:
  fixes x y :: "32 word"
  shows "uint (x + y) = uint x + uint y - (if x + y < y then 2 ^ 32 else 0)"
proof -
  have b: "0 \<le> uint x" "uint x < 2 ^ 32" "0 \<le> uint y" "uint y < 2 ^ 32"
    using uint_lt2p [of x] uint_lt2p [of y] by simp_all
  have s: "uint (x + y) = (uint x + uint y) mod 2 ^ 32" by (simp add: uint_word_ariths)
  show ?thesis
  proof (cases "uint x + uint y < 2 ^ 32")
    case True
    then have "uint (x + y) = uint x + uint y" using s b by simp
    then show ?thesis using b by (simp add: word_less_def)
  next
    case False
    have "uint (x + y) = (uint x + uint y - 2 ^ 32) mod 2 ^ 32" unfolding s by simp
    also have "\<dots> = uint x + uint y - 2 ^ 32" using False b by (intro mod_pos_pos_trivial) simp_all
    finally show ?thesis using b by (simp add: word_less_def)
  qed
qed

lemma hi_shift: "((h mod 2 ^ 32) * 2 ^ 32 + l) mod 2 ^ 64 = (h * 2 ^ 32 + l) mod (2 ^ 64 :: int)"
proof -
  have "(h mod 2 ^ 32) * 2 ^ 32 = (h * 2 ^ 32) mod (2 ^ 32 * 2 ^ 32)" by (simp add: mult_mod_left)
  then show ?thesis by (simp add: mod_simps)
qed

lemma dword_add:
  fixes hi lo bHi bLo :: "32 word"
  shows "cong64 (dword ((if lo + bLo < bLo then hi + 1 else hi) + bHi) (lo + bLo))
           (dword hi lo + dword bHi bLo)"
proof -
  let ?c = "if lo + bLo < bLo then 1 else 0 :: int"
  have h: "uint ((if lo + bLo < bLo then hi + 1 else hi) + bHi) = (uint hi + ?c + uint bHi) mod 2 ^ 32"
    by (simp add: uint_word_ariths mod_simps)
  have l: "uint (lo + bLo) = uint lo + uint bLo - ?c * 2 ^ 32"
    using uint_add_carry [of lo bLo] by simp
  have "(uint hi + ?c + uint bHi) * 2 ^ 32 + (uint lo + uint bLo - ?c * 2 ^ 32) = dword hi lo + dword bHi bLo"
    by (simp add: algebra_simps)
  then show ?thesis unfolding h l hi_shift by (simp add: algebra_simps)
qed

lemma top_bit: "(w :: 32 word) AND 0x80000000 \<noteq> 0 \<longleftrightarrow> bit w 31"
proof -
  have "(0x80000000 :: 32 word) = 2 ^ 31" by simp
  then show ?thesis by (metis and_exp_eq_0_iff_not_bit)
qed

lemma bit_31_iff: "bit (w :: 32 word) 31 \<longleftrightarrow> 2 ^ 31 \<le> uint w"
proof -
  have b: "0 \<le> uint w" "uint w < 2 ^ 31 + 2 ^ 31" using uint_lt2p [of w] by simp_all
  have "bit w 31 \<longleftrightarrow> bit (uint w) 31" by (simp only: bit_uint_iff) simp
  also have "\<dots> \<longleftrightarrow> odd (uint w div 2 ^ 31)" by (rule bit_iff_odd)
  also have "\<dots> \<longleftrightarrow> 2 ^ 31 \<le> uint w"
  proof (cases "uint w < 2 ^ 31")
    case True
    then have "uint w div 2 ^ 31 = 0" using b(1) by (intro div_pos_pos_trivial)
    then show ?thesis using True by simp
  next
    case False
    define r where "r = uint w - 2 ^ 31"
    have r: "0 \<le> r" "r < 2 ^ 31" "uint w = r + 2 ^ 31 * 1" using False b by (simp_all add: r_def)
    then have "uint w div 2 ^ 31 = 1" unfolding r(3) by (subst div_mult_self2) (simp_all add: div_pos_pos_trivial)
    then show ?thesis using False by simp
  qed
  finally show ?thesis .
qed

lemma uint_double:
  "uint (push_bit 1 w) = 2 * uint w - (if bit (w :: 32 word) 31 then 1 else 0) * 2 ^ 32"
proof -
  have "uint (push_bit 1 w) = uint (w + w)" by (simp add: push_bit_eq_mult mult.commute)
  moreover have "w + w < w \<longleftrightarrow> bit w 31"
  proof -
    have b: "0 \<le> uint w" "uint w < 2 ^ 32" using uint_lt2p [of w] by simp_all
    have "uint (w + w) = uint w + uint w - (if w + w < w then 2 ^ 32 else 0)"
      by (rule uint_add_carry)
    moreover have "0 \<le> uint (w + w)" "uint (w + w) < 2 ^ 32" using uint_lt2p [of "w + w"] by simp_all
    ultimately show ?thesis unfolding bit_31_iff using b by (cases "w + w < w") simp_all
  qed
  ultimately show ?thesis using uint_add_carry [of w w] by simp
qed

lemma dword_double:
  fixes bHi bLo :: "32 word"
  shows "cong64 (dword (if bLo AND 0x80000000 \<noteq> 0 then push_bit 1 bHi OR 1 else push_bit 1 bHi) (push_bit 1 bLo))
           (2 * dword bHi bLo)"
proof -
  let ?c = "if bit bLo 31 then 1 else 0 :: int"
  have l: "uint (push_bit 1 bLo) = 2 * uint bLo - ?c * 2 ^ 32"
    by (rule uint_double)
  have h: "uint (if bLo AND 0x80000000 \<noteq> 0 then push_bit 1 bHi OR 1 else push_bit 1 bHi) = (2 * uint bHi + ?c) mod 2 ^ 32"
  proof -
    have "push_bit 1 bHi OR 1 = push_bit 1 bHi + 1" by (rule disjunctive_add [symmetric]) (simp only: bit_push_bit_iff, simp add: bit_1_iff)
    then show ?thesis by (simp add: top_bit push_bit_eq_mult uint_word_ariths mod_simps mult.commute)
  qed
  have "(2 * uint bHi + ?c) * 2 ^ 32 + (2 * uint bLo - ?c * 2 ^ 32) = 2 * dword bHi bLo"
    by (simp add: algebra_simps)
  then show ?thesis unfolding h l hi_shift by simp
qed

lemma odd_test: "(a :: 32 word) AND 1 \<noteq> 0 \<longleftrightarrow> odd (uint a)"
proof -
  have "a AND 1 = 0 \<longleftrightarrow> \<not> bit a 0" using and_exp_eq_0_iff_not_bit [of a 0] by simp
  also have "bit a 0 \<longleftrightarrow> bit (uint a) 0" by (simp only: bit_uint_iff) simp
  finally show ?thesis by (simp add: bit_0)
qed

lemma uint_half: "uint (drop_bit 1 (a :: 32 word)) = uint a div 2"
proof -
  have "uint (drop_bit 1 a) = drop_bit 1 (uint a)" 
    by (rule bit_eqI) (auto simp: bit_uint_iff bit_drop_bit_eq dest: bit_imp_le_length)
  then show ?thesis by (simp only: drop_bit_eq_div power_one_right)
qed

lemma low_bits_of_shift:
  fixes a :: "32 word"
  assumes "Suc n \<le> 32"
  shows "uint (take_bit (Suc n) a) = (if a AND 1 \<noteq> 0 then 1 else 0) + 2 * uint (take_bit n (signed_drop_bit 1 a))"
proof -
  have t: "take_bit n (signed_drop_bit 1 a) = take_bit n (drop_bit 1 a)"
    by (rule bit_word_eqI) (use assms in \<open>auto simp: bit_simps\<close>)
  have "uint (take_bit (Suc n) a) = take_bit (Suc n) (uint a)" by (rule unsigned_take_bit_eq)
  also have "\<dots> = take_bit n (uint (drop_bit 1 a)) * 2 + uint a mod 2"
    by (simp only: take_bit_Suc uint_half)
  also have "take_bit n (uint (drop_bit 1 a)) = uint (take_bit n (drop_bit 1 a))"
    by (simp add: unsigned_take_bit_eq)
  finally show ?thesis unfolding t odd_test by (auto simp: odd_iff_mod_2_eq_one)
qed

lemma only_bit_0:
  assumes "(a :: 32 word) AND 1 \<noteq> 0 \<and> a AND 0xfffffffe = 0"
  shows "a = 1"
proof -
  have e: "(0xfffffffe :: 32 word) = NOT 1" by simp
  have z: "a AND NOT 1 = 0" using assms unfolding e by blast
  have o: "bit a 0" using assms and_exp_eq_0_iff_not_bit [of a 0] by simp
  show ?thesis
  proof (rule bit_word_eqI)
    fix k :: nat assume "k < LENGTH(32)"
    moreover have "\<not> bit (a AND NOT 1) k" unfolding z by simp
    ultimately show "bit a k = bit 1 k" using o
      by (cases "k = 0") (simp_all only: bit_and_iff bit_not_iff bit_1_iff, auto)
  qed
qed

lemma mult_loop_correct:
  "n \<le> 32 \<Longrightarrow> mult_loop n a bHi bLo hi lo = (hi', lo') \<Longrightarrow>
   cong64 (dword hi' lo') (dword hi lo + uint (take_bit n a) * dword bHi bLo)"
proof (induction n arbitrary: a bHi bLo hi lo)
  case (Suc n)
  let ?odd = "a AND 1 \<noteq> 0"
  define lo1 where "lo1 = (if ?odd then lo + bLo else lo)"
  define hi1 where "hi1 = (if ?odd then (if lo1 < bLo then hi + 1 else hi) + bHi else hi)"
  define bHi1 where "bHi1 = (if bLo AND 0x80000000 \<noteq> 0 then push_bit 1 bHi OR 1 else push_bit 1 bHi)"
  have s: "cong64 (dword hi1 lo1) (dword hi lo + (if ?odd then 1 else 0) * dword bHi bLo)"
    using dword_add [of lo bLo hi bHi] by (simp add: lo1_def hi1_def)
  have d: "cong64 (dword bHi1 (push_bit 1 bLo)) (2 * dword bHi bLo)"
    unfolding bHi1_def by (rule dword_double)
  note low = low_bits_of_shift [OF Suc.prems(1), of a]
  show ?case
  proof (cases "?odd \<and> a AND 0xfffffffe = 0")
    case True
    then have "hi' = hi1" "lo' = lo1" using Suc.prems(2) by (auto simp: Let_def lo1_def hi1_def)
    moreover have "a = 1" using True by (rule only_bit_0)
    then have "uint (take_bit (Suc n) a) = 1" by (simp add: take_bit_Suc)
    moreover have "a AND 1 \<noteq> 0" using True by simp
    ultimately show ?thesis using s by simp
  next
    case False
    then have "mult_loop n (signed_drop_bit 1 a) bHi1 (push_bit 1 bLo) hi1 lo1 = (hi', lo')"
      using Suc.prems(2) by (simp only: mult_loop.simps Let_def lo1_def hi1_def bHi1_def if_False)
    from Suc.IH [OF _ this] have "cong64 (dword hi' lo') 
        (dword hi1 lo1 + uint (take_bit n (signed_drop_bit 1 a)) * dword bHi1 (push_bit 1 bLo))"
      using Suc.prems(1) by simp
    also have "\<dots> = ((dword hi lo + (if ?odd then 1 else 0) * dword bHi bLo) +
        uint (take_bit n (signed_drop_bit 1 a)) * (2 * dword bHi bLo)) mod 2 ^ 64"
      by (intro mod_add_cong mod_mult_cong s d refl)
    also have "(dword hi lo + (if ?odd then 1 else 0) * dword bHi bLo) +
        uint (take_bit n (signed_drop_bit 1 a)) * (2 * dword bHi bLo) = 
        dword hi lo + uint (take_bit (Suc n) a) * dword bHi bLo"
      unfolding low by (simp add: algebra_simps)
    finally show ?thesis .
  qed
qed simp


lemma cong64_eq:
  fixes x y :: int
  assumes "cong64 x y" "\<bar>x - y\<bar> < 2 ^ 64"
  shows "x = y"
proof -
  have "2 ^ 64 dvd x - y" using assms(1) by (simp add: mod_eq_dvd_iff)
  then show ?thesis using assms(2) zdvd_imp_le [of "2 ^ 64" "\<bar>x - y\<bar>"] by (cases "x = y") auto
qed

lemma abs_diff_less_signed: "- m \<le> x \<Longrightarrow> x < m \<Longrightarrow> - m \<le> y \<Longrightarrow> y < m \<Longrightarrow> \<bar>x - y\<bar> < 2 * (m :: int)"
  by linarith

lemma abs_diff_less: "0 \<le> x \<Longrightarrow> x < m \<Longrightarrow> 0 \<le> y \<Longrightarrow> y < m \<Longrightarrow> \<bar>x - y\<bar> < (m :: int)"
  by linarith

lemma uint_bounds32: "0 \<le> uint (w :: 32 word)" "uint w < 2 ^ 32"
  using uint_lt2p [of w] by simp_all

lemma sint_cases: "sint (w :: 32 word) = uint w - (if bit w 31 then 2 ^ 32 else 0)"
proof -
  have "sint w = signed_take_bit 31 (uint w)" by (simp add: sint_uint)
  also have "\<dots> = take_bit 32 (uint w) - 2 ^ 32 * of_bool (bit (uint w) 31)"
    by (simp add: signed_take_bit_eq_take_bit_minus)
  also have "bit (uint w) 31 \<longleftrightarrow> bit w 31" by (simp only: bit_uint_iff) simp
  also have "take_bit 32 (uint w) = uint w" using uint_bounds32 [of w] by (simp add: take_bit_eq_mod)
  finally show ?thesis by simp
qed

lemma mult_loop_product:
  assumes "mult_loop 32 a 0 b 0 0 = (hi, lo)"
  shows "dword hi lo = uint a * uint b"
proof (rule cong64_eq)
  show "cong64 (dword hi lo) (uint a * uint b)"
    using mult_loop_correct [OF _ assms] by (simp add: take_bit_word_eq_self)
  have "uint a * uint b < 2 ^ 32 * 2 ^ 32" 
    using uint_bounds32 [of a] uint_bounds32 [of b] by (intro mult_strict_mono') auto
  moreover have "0 \<le> uint a * uint b" by simp
  moreover have "0 \<le> dword hi lo" "dword hi lo < 2 ^ 64"
    using uint_bounds32 [of hi] uint_bounds32 [of lo] by simp_all
  ultimately show "\<bar>dword hi lo - uint a * uint b\<bar> < 2 ^ 64"
    by (intro abs_diff_less) simp_all
qed

lemma dword_negate:
  fixes hi lo :: "32 word"
  shows "cong64 (dword (if NOT lo + 1 = 0 then NOT hi + 1 else NOT hi) (NOT lo + 1)) (- dword hi lo)"
proof -
  let ?c = "if lo = 0 then 0 else 1 :: int"
  have n: "NOT lo + 1 = - lo" by (simp_all add: not_eq_complement)
  have l: "uint (- lo) = ?c * 2 ^ 32 - uint lo" 
    using uint_bounds32 [of lo] by (simp add: uint_word_ariths zmod_zminus1_eq_if uint_0_iff)
  have h: "uint (if - lo = 0 then - hi else - hi - 1) = (- uint hi - ?c) mod 2 ^ 32"
    by (simp add: uint_word_ariths mod_simps)
  have n2: "(if - lo = 0 then NOT hi + 1 else NOT hi) = (if - lo = 0 then - hi else - hi - 1)"
    by (simp add: not_eq_complement)
  have "(- uint hi - ?c) * 2 ^ 32 + (?c * 2 ^ 32 - uint lo) = - dword hi lo"
    by (simp add: algebra_simps)
  then show ?thesis unfolding n n2 h l hi_shift by simp
qed


lemma sless_0_iff: "w <s 0 \<longleftrightarrow> bit (w :: 32 word) 31"
  using uint_bounds32 [of w] by (auto simp: word_sless_alt sint_cases bit_31_iff)

lemma sint_bounds32: "- (2 ^ 31) \<le> sint (w :: 32 word)" "sint w < 2 ^ 31"
  using sint_ge [of w] sint_lt [of w] by simp_all

lemma uint_magnitude: "uint (if w <s 0 then - w else w) = \<bar>sint (w :: 32 word)\<bar>"
proof (cases "w <s 0")
  case True
  then have b: "bit w 31" "2 ^ 31 \<le> uint w" by (simp_all add: sless_0_iff bit_31_iff)
  have "uint (- w) = 2 ^ 32 - uint w"
    using uint_bounds32 [of w] b(2) by (simp add: uint_word_ariths zmod_zminus1_eq_if)
  then show ?thesis using True b uint_bounds32 [of w] by (simp add: sint_cases)
next
  case False
  then show ?thesis by (simp add: sint_cases sless_0_iff)
qed

lemma sdword_cong: "cong64 (sint hi * 2 ^ 32 + uint (lo :: 32 word)) (dword hi lo)"
proof -
  have "sint hi * 2 ^ 32 + uint lo = dword hi lo + (if bit hi 31 then -1 else 0) * 2 ^ 64"
    by (simp add: sint_cases algebra_simps)
  then show ?thesis by (simp only: mod_mult_self1)
qed

lemma signed_product_bound: "\<bar>sint (a :: 32 word) * sint (b :: 32 word)\<bar> \<le> 2 ^ 62"
proof -
  have "\<bar>sint a\<bar> \<le> 2 ^ 31" "\<bar>sint b\<bar> \<le> 2 ^ 31"
    using sint_bounds32 [of a] sint_bounds32 [of b] by simp_all
  then have "\<bar>sint a\<bar> * \<bar>sint b\<bar> \<le> 2 ^ 31 * 2 ^ 31" by (intro mult_mono) simp_all
  then show ?thesis by (simp add: abs_mult)
qed

lemma Mult_signed_cong:
  assumes "Mult a b True = (hi, lo)"
  shows "cong64 (dword hi lo) (sint a * sint b)"
proof (cases "a = 0 \<or> b = 0")
  case True
  then show ?thesis using assms by (auto simp: Mult_def)
next
  case False
  let ?a = "if a <s 0 then - a else a" and ?b = "if b <s 0 then - b else b"
  obtain h l where hl: "mult_loop 32 ?a 0 ?b 0 0 = (h, l)" by (metis surj_pair)
  have p: "dword h l = \<bar>sint a\<bar> * \<bar>sint b\<bar>"
    using mult_loop_product [OF hl] by (simp only: uint_magnitude)
  have sg: "w <s 0 \<longleftrightarrow> sint w < 0" for w :: "32 word" by (simp add: word_sless_alt)
  show ?thesis
  proof (cases "(a <s 0) = (b <s 0)")
    case True
    then have "hi = h" "lo = l" using assms False hl by (simp_all add: Mult_def)
    moreover have "\<bar>sint a\<bar> * \<bar>sint b\<bar> = sint a * sint b"
      using True unfolding sg by (cases "sint a < 0") auto
    ultimately show ?thesis using p by simp
  next
    case neg: False
    then have "hi = (if NOT l + 1 = 0 then NOT h + 1 else NOT h)" "lo = NOT l + 1"
      using assms False hl by (auto simp: Mult_def Let_def)
    then have "cong64 (dword hi lo) (- (\<bar>sint a\<bar> * \<bar>sint b\<bar>))"
      using dword_negate [of l h] unfolding p by simp
    moreover have "- (\<bar>sint a\<bar> * \<bar>sint b\<bar>) = sint a * sint b"
      using neg unfolding sg by (cases "sint a < 0") auto
    ultimately show ?thesis by simp
  qed
qed

text \<open>
  C23: \<open>Mult\<close> computes the exact 64-bit product, signed and unsigned, for all operands (the
  smallest negative number included): the high and low words it stores are the two halves of it.
\<close>

theorem Mult_exact:
  "(case Mult a b True of (hi, lo) \<Rightarrow> sint hi * 2 ^ 32 + uint lo = sint a * sint b) \<and>
   (case Mult a b False of (hi, lo) \<Rightarrow> uint hi * 2 ^ 32 + uint lo = uint a * uint b)"
proof
  obtain hi lo where m: "Mult a b True = (hi, lo)" by (metis surj_pair)
  have "sint hi * 2 ^ 32 + uint lo = sint a * sint b"
  proof (rule cong64_eq)
    show "cong64 (sint hi * 2 ^ 32 + uint lo) (sint a * sint b)"
      using sdword_cong [of hi lo] Mult_signed_cong [OF m] by simp
    have "- (2 ^ 63) + 0 \<le> sint hi * 2 ^ 32 + uint lo"
      using sint_bounds32 [of hi] by (intro add_mono) simp_all
    then have "\<bar>(sint hi * 2 ^ 32 + uint lo) - sint a * sint b\<bar> < 2 * 2 ^ 63"
      using signed_product_bound [of a b] sint_bounds32 [of hi] uint_bounds32 [of lo]
      by (intro abs_diff_less_signed) simp_all
    then show "\<bar>sint hi * 2 ^ 32 + uint lo - sint a * sint b\<bar> < 2 ^ 64" by simp
  qed
  then show "case Mult a b True of (hi, lo) \<Rightarrow> sint hi * 2 ^ 32 + uint lo = sint a * sint b"
    by (simp add: m)
  obtain h l where hl: "mult_loop 32 a 0 b 0 0 = (h, l)" by (metis surj_pair)
  show "case Mult a b False of (hi, lo) \<Rightarrow> uint hi * 2 ^ 32 + uint lo = uint a * uint b"
    using mult_loop_product [OF hl] hl by (auto simp: Mult_def)
qed

section \<open>Decoding\<close>

lemma field_less: "n \<le> 32 \<Longrightarrow> field v k n < 2 ^ n"
proof -
  assume "n \<le> 32"
  have "drop_bit k v AND mask n = take_bit n (drop_bit k v)" by (simp add: take_bit_eq_mask)
  then have "field v k n = take_bit n (unat (drop_bit k v))"
    unfolding field_def by (simp only: unsigned_take_bit_eq)
  then show ?thesis by simp
qed

lemma field_less_numeral: "field v k 5 < 32" "field v k 6 < 64"
  using field_less [of 5 v k] field_less [of 6 v k] by simp_all

lemma opTable_codes: "OP_RFE \<notin> fst ` set opTable" "length opTable = 64"
  by (simp_all add: opTable_def)

lemma specialTable_codes: "set specialTable \<inter> {OP_RFE, SPECIAL, BCOND} = {}" "length specialTable = 64"
  by (simp_all add: specialTable_def)

lemma Decode_regs [simp]: "rs (Decode v) < 32" "rt (Decode v) < 32" "rd (Decode v) < 32"
  by (simp_all add: Decode_def Let_def field_less_numeral)

lemma Decode_opCode: "opCode (Decode v) \<notin> {OP_RFE, SPECIAL, BCOND}"
proof -
  have "specialTable ! field v 0 6 \<in> set specialTable"
    by (rule nth_mem) (simp add: specialTable_codes field_less_numeral)
  moreover have "opTable ! field v 26 6 \<in> set opTable"
    by (rule nth_mem) (simp add: opTable_codes field_less_numeral)
  then have "fst (opTable ! field v 26 6) \<noteq> OP_RFE" using opTable_codes(1) by force
  ultimately show ?thesis using specialTable_codes(1) by (auto simp: Decode_def Let_def)
qed

section \<open>What an instruction leaves alone\<close>

definition writable :: "Machine \<Rightarrow> nat set" where
  "writable m = {unat (physicalPage e) | e. e \<in> set (entries m) \<and> te_valid e \<and> \<not> te_readOnly e}"

definition confined :: "Machine \<Rightarrow> Machine \<Rightarrow> bool" where
  "confined m m' \<longleftrightarrow> (\<forall>x. mainMemory m' x \<noteq> mainMemory m x \<longrightarrow> x div PageSize \<in> writable m)"

definition frame_ok :: "Machine \<Rightarrow> Machine \<Rightarrow> bool" where
  "frame_ok m m' \<longleftrightarrow> remap m m' \<and> confined m m' \<and> (\<forall>r\<in>{PCReg..BadVAddrReg}. regs m' r = regs m r)"

definition exec_ok :: "Machine \<Rightarrow> exec res \<Rightarrow> bool" where
  "exec_ok m r \<longleftrightarrow> (case r of Inl _ \<Rightarrow> True
     | Inr (Next m' pcAfter lr lv) \<Rightarrow> frame_ok m m' \<and> unat lr < 32
     | Inr (Trap ex bad m') \<Rightarrow> frame_ok m m' \<and> ex \<noteq> NoException)"

lemma remap_writable: "remap m m' \<Longrightarrow> writable m' = writable m"
  unfolding writable_def remap_def list_all2_conv_all_nth same_mapping_def in_set_conv_nth
  by (smt (verit) Collect_cong)

lemma frame_refl [simp]: "trans_ok m \<Longrightarrow> frame_ok m m"
  by (simp add: frame_ok_def confined_def)

lemma frame_trans: "frame_ok m m' \<Longrightarrow> frame_ok m' m'' \<Longrightarrow> frame_ok m m''"
  by (auto simp: frame_ok_def confined_def remap_writable intro: remap_trans) (metis remap_writable)

lemma frame_trans_ok: "frame_ok m m' \<Longrightarrow> trans_ok m'"
  using remap_ok unfolding frame_ok_def by blast

lemma setreg_simps [simp]:
  "regs (setreg m r v) = (regs m)(r := v)" "mainMemory (setreg m r v) = mainMemory m"
  "entries (setreg m r v) = entries m" "trans_ok (setreg m r v) = trans_ok m"
  "remap m' (setreg m r v) = remap m' m"
  by (simp_all add: setreg_def)

lemma setreg_frame: "frame_ok m m' \<Longrightarrow> r < PCReg \<Longrightarrow> frame_ok m (setreg m' r v)"
  by (auto simp: frame_ok_def confined_def)

lemma touch_frame: "trans_ok m \<Longrightarrow> frame_ok m (touch m va w)"
  by (simp add: frame_ok_def confined_def remap_touch)

lemma ReadMem_frame:
  assumes "trans_ok m" "sz = 1 \<or> sz = 2 \<or> sz = 4" "ReadMem m va sz = Inr (Inr (v, m'))"
  shows "frame_ok m m'"
  using assms by (auto simp: ReadMem_phys touch_frame split: sum.splits)

lemma WriteMem_frame:
  assumes "trans_ok m" "sz = 1 \<or> sz = 2 \<or> sz = 4" "WriteMem m va sz v = Inr (Inr m')"
  shows "frame_ok m m'"
proof -
  obtain pa where pa: "phys m va sz True = Inr pa"
    and m': "m' = (touch m va True)\<lparr>mainMemory := store_le (mainMemory m) pa sz v\<rparr>"
    using assms(3) by (auto simp: WriteMem_phys [OF assms(1,2)] split: sum.splits)
  obtain i where i: "i < length (entries m)" "te_valid (entries m ! i)" "\<not> te_readOnly (entries m ! i)"
    and w: "\<And>x. pa \<le> x \<Longrightarrow> x < pa + sz \<Longrightarrow> x div PageSize = unat (physicalPage (entries m ! i))"
    using phys_write_page [OF pa assms(2)] by blast
  then have "x div PageSize \<in> writable m" if "pa \<le> x" "x < pa + sz" for x
    using that unfolding writable_def by (auto intro!: nth_mem)
  then show ?thesis by (auto simp: m' frame_ok_def confined_def remap_touch assms(1) store_le_def)
qed


lemma exec_ok_simps [simp]:
  "exec_ok m (Inl e)" "exec_ok m (go m' pc) = frame_ok m m'"
  "exec_ok m (Inr (Next m' pc lr lv)) \<longleftrightarrow> frame_ok m m' \<and> unat lr < 32"
  "exec_ok m (Inr (Trap ex bad m')) \<longleftrightarrow> frame_ok m m' \<and> ex \<noteq> NoException"
  by (simp_all add: exec_ok_def go_def)

lemma phys_no_NoException: "phys m va sz w \<noteq> Inl NoException"
  by (auto simp: phys_def locate_def split: if_splits sum.splits option.splits)

lemma with_ReadMem_ok:
  assumes "frame_ok m m'" "sz = 1 \<or> sz = 2 \<or> sz = 4" "\<And>v m''. frame_ok m m'' \<Longrightarrow> exec_ok m (k v m'')"
  shows "exec_ok m (with_ReadMem m' addr sz k)"
proof -
  note t = frame_trans_ok [OF assms(1)]
  show ?thesis
  proof (cases "phys m' addr sz False")
    case (Inl ex)
    then show ?thesis using assms(1) phys_no_NoException
      by (auto simp: with_ReadMem_def ReadMem_phys [OF t assms(2)])
  next
    case (Inr pa)
    then show ?thesis using assms(3) [OF frame_trans [OF assms(1) touch_frame [OF t]]]
      by (simp add: with_ReadMem_def ReadMem_phys [OF t assms(2)])
  qed
qed

lemma with_WriteMem_ok:
  assumes "frame_ok m m'" "sz = 1 \<or> sz = 2 \<or> sz = 4"
  shows "exec_ok m (with_WriteMem m' addr sz v pc)"
proof -
  note t = frame_trans_ok [OF assms(1)]
  show ?thesis
  proof (cases "phys m' addr sz True")
    case (Inl ex)
    then show ?thesis using assms(1) phys_no_NoException
      by (auto simp: with_WriteMem_def WriteMem_phys [OF t assms(2)])
  next
    case (Inr pa)
    then obtain m'' where "WriteMem m' addr sz v = Inr (Inr m'')"
      by (simp add: WriteMem_phys [OF t assms(2)])
    then show ?thesis using frame_trans [OF assms(1) WriteMem_frame [OF t assms(2)]]
      by (simp add: with_WriteMem_def)
  qed
qed

lemma schedule_load_ok: "frame_ok m m' \<Longrightarrow> rt i < 32 \<Longrightarrow> exec_ok m (schedule_load m' i pc v)"
  by (simp add: schedule_load_def unat_of_nat)

lemma assert_ok: "(c \<Longrightarrow> exec_ok m r) \<Longrightarrow> exec_ok m (rbind (ASSERT c) (\<lambda>_. r))"
  by (cases c) simp_all

lemmas exec_ok_rules = with_ReadMem_ok with_WriteMem_ok schedule_load_ok assert_ok setreg_frame

lemma execute_ok:
  assumes "trans_ok m" "rs i < 32" "rt i < 32" "rd i < 32"
  shows "exec_ok m (execute m i pcAfter)"
proof -
  note r = frame_refl [OF assms(1)]
  show ?thesis
    by (cases "opCode i")
      (use assms r in \<open>auto simp: execute_def op_defs Let_def split: prod.splits intro!: exec_ok_rules\<close>)
qed


text \<open>The only ways an operation can abort.\<close>

definition aborts :: "Machine \<Rightarrow> Instruction \<Rightarrow> nachos_error \<Rightarrow> bool" where
  "aborts m i e \<longleftrightarrow>
     (e = AssertFail \<and> opCode i \<in> {OP_LWL, OP_LWR, OP_SWL, OP_SWR} \<and> eff_addr m i AND 3 \<noteq> 0) \<or>
     (e = HostTrap \<and> opCode i = OP_DIV \<and> regs m (rs i) = SIGN_BIT \<and> regs m (rt i) = -1)"

definition only_aborts :: "(nachos_error \<Rightarrow> bool) \<Rightarrow> exec res \<Rightarrow> bool" where
  "only_aborts P r \<longleftrightarrow> (case r of Inl e \<Rightarrow> P e | Inr _ \<Rightarrow> True)"

lemma only_aborts_simps [simp]:
  "only_aborts P (Inl e) = P e" "only_aborts P (Inr x)" "only_aborts P (go m pc)"
  "only_aborts P (schedule_load m i pc v)"
  by (simp_all add: only_aborts_def go_def schedule_load_def)

lemma with_ReadMem_aborts:
  assumes "trans_ok m" "sz = 1 \<or> sz = 2 \<or> sz = 4" "\<And>v m'. trans_ok m' \<Longrightarrow> only_aborts P (k v m')"
  shows "only_aborts P (with_ReadMem m addr sz k)"
  using assms(3) [OF remap_ok [OF remap_touch [OF assms(1)]]]
  by (cases "phys m addr sz False") (simp_all add: with_ReadMem_def ReadMem_phys [OF assms(1,2)])

lemma with_WriteMem_aborts:
  assumes "trans_ok m" "sz = 1 \<or> sz = 2 \<or> sz = 4"
  shows "only_aborts P (with_WriteMem m addr sz v pc)"
  by (cases "phys m addr sz True") (simp_all add: with_WriteMem_def WriteMem_phys [OF assms])

lemma assert_aborts:
  "(\<not> c \<Longrightarrow> P AssertFail) \<Longrightarrow> (c \<Longrightarrow> only_aborts P r) \<Longrightarrow> only_aborts P (rbind (ASSERT c) (\<lambda>_. r))"
  by (cases c) simp_all

lemma execute_aborts:
  assumes "trans_ok m" "opCode i \<notin> {OP_RFE, SPECIAL, BCOND}"
  shows "only_aborts (aborts m i) (execute m i pcAfter)"
  using assms
  by (cases "opCode i")
    (auto simp: execute_def op_defs Let_def aborts_def split: prod.splits
      intro!: with_ReadMem_aborts with_WriteMem_aborts assert_aborts)

definition branches :: "OpCode set" where
  "branches = {OP_BEQ, OP_BGEZ, OP_BGEZAL, OP_BGTZ, OP_BLEZ, OP_BLTZ, OP_BLTZAL, OP_BNE,
     OP_J, OP_JAL, OP_JR, OP_JALR}"

lemma with_ReadMem_Next:
  assumes "with_ReadMem m addr sz k = Inr (Next m' pc lr lv)"
  obtains v m'' where "k v m'' = Inr (Next m' pc lr lv)"
proof -
  from assms obtain r where "(case r of Inl ex \<Rightarrow> Inr (Trap ex addr m) | Inr (v, m') \<Rightarrow> k v m') =
      Inr (Next m' pc lr lv)" unfolding with_ReadMem_def rbind_eq_Inr by blast
  then show thesis using that by (cases r) (auto split: prod.splits)
qed

lemma with_WriteMem_Next:
  "with_WriteMem m addr sz v pcAfter = Inr (Next m' pc lr lv) \<Longrightarrow> pc = pcAfter"
  by (cases "WriteMem m addr sz v")
    (auto simp: with_WriteMem_def go_def split: sum.splits)

lemma execute_sequential:
  assumes "execute m i pcAfter = Inr (Next m' pc lr lv)" "opCode i \<notin> branches"
  shows "pc = pcAfter"
  using assms
  by (cases "opCode i")
    (auto simp: execute_def op_defs Let_def go_def schedule_load_def branches_def rbind_eq_Inr
      split: prod.splits if_splits elim!: with_ReadMem_Next dest: with_WriteMem_Next)

section \<open>The state between instructions\<close>

definition cpu_ok :: "Machine \<Rightarrow> bool" where
  "cpu_ok m \<longleftrightarrow> trans_ok m \<and> regs m 0 = 0 \<and> unat (regs m LoadReg) < 32"

definition machine_of :: "outcome \<Rightarrow> Machine" where
  "machine_of out = (case out of Completed m \<Rightarrow> m | Trapped ex m \<Rightarrow> m)"

lemma DelayedLoad_eq:
  assumes "unat (regs m LoadReg) < 32"
  shows "\<exists>m'. DelayedLoad m nr nv = Inr m' \<and> mainMemory m' = mainMemory m \<and>
     (\<forall>m0. remap m0 m' = remap m0 m) \<and> regs m' 0 = 0 \<and> regs m' LoadReg = nr \<and> regs m' LoadValueReg = nv \<and>
     (\<forall>r\<in>{PCReg, NextPCReg, PrevPCReg, BadVAddrReg}. regs m' r = regs m r) \<and>
     (regs m LoadReg \<noteq> 0 \<longrightarrow> regs m' (unat (regs m LoadReg)) = regs m LoadValueReg)"
proof -
  define r where "r = unat (regs m LoadReg)"
  have "r < 32" "regs m LoadReg \<noteq> 0 \<longrightarrow> r \<noteq> 0" using assms by (simp_all add: r_def unat_eq_zero)
  then show ?thesis by (auto simp: DelayedLoad_def Let_def r_def [symmetric])
qed

lemma finish_Next:
  assumes "unat (regs m LoadReg) < 32"
  shows "\<exists>m'. finish (Next m pc lr lv) = Inr (Completed m') \<and> mainMemory m' = mainMemory m \<and>
     (\<forall>m0. remap m0 m' = remap m0 m) \<and> regs m' 0 = 0 \<and> regs m' LoadReg = lr \<and> regs m' LoadValueReg = lv \<and>
     regs m' PrevPCReg = regs m PCReg \<and> regs m' PCReg = regs m NextPCReg \<and> regs m' NextPCReg = pc \<and>
     (regs m LoadReg \<noteq> 0 \<longrightarrow> regs m' (unat (regs m LoadReg)) = regs m LoadValueReg)"
proof -
  define r where "r = unat (regs m LoadReg)"
  have "r < 32" using assms by (simp add: r_def)
  then show ?thesis using DelayedLoad_eq [OF assms, of lr lv]
    by (auto simp: finish_def Let_def r_def [symmetric])
qed

lemma finish_Trap:
  assumes "unat (regs m LoadReg) < 32"
  shows "\<exists>m'. finish (Trap ex bad m) = Inr (Trapped ex m') \<and> mainMemory m' = mainMemory m \<and>
     (\<forall>m0. remap m0 m' = remap m0 m) \<and> regs m' 0 = 0 \<and> regs m' LoadReg = 0 \<and> regs m' BadVAddrReg = bad \<and>
     (\<forall>r\<in>{PCReg, NextPCReg, PrevPCReg}. regs m' r = regs m r) \<and>
     (regs m LoadReg \<noteq> 0 \<longrightarrow> regs m' (unat (regs m LoadReg)) = regs m LoadValueReg)"
  using DelayedLoad_eq [of "setreg m BadVAddrReg bad" 0 0] assms
  by (auto simp: finish_def RaiseException_def)

definition fetched :: "Machine \<Rightarrow> 32 word \<Rightarrow> Machine \<Rightarrow> bool" where
  "fetched m raw m' \<longleftrightarrow> ReadMem m (regs m PCReg) 4 = Inr (Inr (raw, m'))"

lemma OneInstruction_cases:
  assumes "trans_ok m"
  shows "(\<exists>ex. phys m (regs m PCReg) 4 False = Inl ex \<and>
            OneInstruction m = finish (Trap ex (regs m PCReg) m)) \<or>
         (\<exists>raw m1. fetched m raw m1 \<and> frame_ok m m1 \<and> regs m1 = regs m \<and>
            OneInstruction m = rbind (execute m1 (Decode raw) (regs m NextPCReg + 4)) finish)"
proof (cases "phys m (regs m PCReg) 4 False")
  case (Inl ex)
  then show ?thesis by (simp add: OneInstruction_def with_ReadMem_def ReadMem_phys [OF assms])
next
  case (Inr pa)
  let ?m = "touch m (regs m PCReg) False"
  have "ReadMem m (regs m PCReg) 4 = Inr (Inr (read_value (mainMemory m) pa 4, ?m))"
    by (simp add: ReadMem_phys [OF assms] Inr)
  then show ?thesis using touch_frame [OF assms, of "regs m PCReg" False]
    by (auto simp: OneInstruction_def with_ReadMem_def fetched_def)
qed

lemma finish_exec_ok:
  assumes "exec_ok m (Inr e)" "cpu_ok m"
  shows "\<exists>m'. (finish e = Inr (Completed m') \<or> (\<exists>ex. ex \<noteq> NoException \<and> finish e = Inr (Trapped ex m'))) \<and>
     cpu_ok m' \<and> remap m m' \<and> confined m m'"
proof (cases e)
  case (Next m1 pc lr lv)
  then have f: "frame_ok m m1" "unat lr < 32" using assms(1) by auto
  then have "regs m1 LoadReg = regs m LoadReg" by (simp add: frame_ok_def)
  then have "unat (regs m1 LoadReg) < 32" using assms(2) by (simp add: cpu_ok_def)
  from finish_Next [OF this, of pc lr lv] obtain m' where m': "finish e = Inr (Completed m')"
    "mainMemory m' = mainMemory m1" "remap m m' = remap m m1" "regs m' 0 = 0" "regs m' LoadReg = lr"
    unfolding Next by blast
  then show ?thesis using f remap_ok [of m m'] by (auto simp: cpu_ok_def frame_ok_def confined_def)
next
  case (Trap ex bad m1)
  then have f: "frame_ok m m1" "ex \<noteq> NoException" using assms(1) by auto
  then have "regs m1 LoadReg = regs m LoadReg" by (simp add: frame_ok_def)
  then have "unat (regs m1 LoadReg) < 32" using assms(2) by (simp add: cpu_ok_def)
  from finish_Trap [OF this, of ex bad] obtain m' where m': "finish e = Inr (Trapped ex m')"
    "mainMemory m' = mainMemory m1" "remap m m' = remap m m1" "regs m' 0 = 0" "regs m' LoadReg = 0"
    unfolding Trap by blast
  then show ?thesis using f remap_ok [of m m'] by (auto simp: cpu_ok_def frame_ok_def confined_def)
qed

section \<open>Signed arithmetic\<close>

lemma go_inject [simp]: "go m pc = go m' pc' \<longleftrightarrow> m = m' \<and> pc = pc'"
  by (simp add: go_def)

lemma sign_differs: "((x :: 32 word) XOR y) AND SIGN_BIT \<noteq> 0 \<longleftrightarrow> bit x 31 \<noteq> bit y 31"
  unfolding top_bit by (simp add: bit_xor_iff)

lemma sint_neg_iff: "bit (w :: 32 word) 31 \<longleftrightarrow> sint w < 0"
  using sless_0_iff [of w] by (simp add: word_sless_alt)

lemma sint_add_cases:
  fixes a b :: "32 word"
  shows "sint (a + b) = sint a + sint b \<or> sint (a + b) = sint a + sint b - 2 ^ 32 \<or>
         sint (a + b) = sint a + sint b + 2 ^ 32"
  unfolding sint_cases [of a] sint_cases [of b] sint_cases [of "a + b"] uint_add_carry [of a b]
  using uint_bounds32 [of "a + b"] unfolding uint_add_carry [of a b] bit_31_iff
  by (auto split: if_splits) 

lemma add_overflow_iff:
  fixes a b :: "32 word"
  defines "s \<equiv> sint a + sint b"
  shows "(a XOR b) AND SIGN_BIT = 0 \<and> (a XOR (a + b)) AND SIGN_BIT \<noteq> 0 \<longleftrightarrow> s < - (2 ^ 31) \<or> 2 ^ 31 \<le> s"
    and "- (2 ^ 31) \<le> s \<Longrightarrow> s < 2 ^ 31 \<Longrightarrow> sint (a + b) = s"
proof -
  note b = sint_bounds32 [of a] sint_bounds32 [of b] sint_bounds32 [of "a + b"]
  have c: "sint (a + b) = s \<or> sint (a + b) = s - 2 ^ 32 \<or> sint (a + b) = s + 2 ^ 32"
    unfolding s_def by (rule sint_add_cases)
  show "- (2 ^ 31) \<le> s \<Longrightarrow> s < 2 ^ 31 \<Longrightarrow> sint (a + b) = s" using c b(5,6) by auto
  have e: "(a XOR b) AND SIGN_BIT = 0 \<longleftrightarrow> bit a 31 = bit b 31" using sign_differs [of a b] by auto
  show "(a XOR b) AND SIGN_BIT = 0 \<and> (a XOR (a + b)) AND SIGN_BIT \<noteq> 0 \<longleftrightarrow> s < - (2 ^ 31) \<or> 2 ^ 31 \<le> s"
    unfolding e sign_differs sint_neg_iff using c b by (auto simp: s_def)
qed

lemma sub_overflow_iff:
  fixes a b :: "32 word"
  defines "s \<equiv> sint a - sint b"
  shows "(a XOR b) AND SIGN_BIT \<noteq> 0 \<and> (a XOR (a - b)) AND SIGN_BIT \<noteq> 0 \<longleftrightarrow> s < - (2 ^ 31) \<or> 2 ^ 31 \<le> s"
    and "- (2 ^ 31) \<le> s \<Longrightarrow> s < 2 ^ 31 \<Longrightarrow> sint (a - b) = s"
proof -
  note b = sint_bounds32 [of a] sint_bounds32 [of b] sint_bounds32 [of "a - b"]
  have c: "sint (a - b) = s \<or> sint (a - b) = s - 2 ^ 32 \<or> sint (a - b) = s + 2 ^ 32"
    using sint_add_cases [of "a - b" b] unfolding s_def by auto
  show "- (2 ^ 31) \<le> s \<Longrightarrow> s < 2 ^ 31 \<Longrightarrow> sint (a - b) = s" using c b(5,6) by auto
  show "(a XOR b) AND SIGN_BIT \<noteq> 0 \<and> (a XOR (a - b)) AND SIGN_BIT \<noteq> 0 \<longleftrightarrow> s < - (2 ^ 31) \<or> 2 ^ 31 \<le> s"
    unfolding sign_differs sint_neg_iff using c b by (auto simp: s_def)
qed

text \<open>
  C37: \<open>OP_ADD\<close>, \<open>OP_ADDI\<close> and \<open>OP_SUB\<close> raise \<open>OverflowException\<close> exactly when the signed result does
  not fit in 32 bits, leaving the machine as it was; otherwise they store the exact result.
\<close>

theorem overflow_traps_exact:
  "let a = regs m (rs i); b = regs m (rt i); fits = (\<lambda>x. - (2 ^ 31) \<le> x \<and> x < (2 ^ 31 :: int)) in
   (if fits (sint a + sint b) then \<exists>v. op_ADD m i pc = go (setreg m (rd i) v) pc \<and> sint v = sint a + sint b
    else op_ADD m i pc = Inr (Trap OverflowException 0 m)) \<and>
   (if fits (sint a + sint (extra i)) then \<exists>v. op_ADDI m i pc = go (setreg m (rt i) v) pc \<and> sint v = sint a + sint (extra i)
    else op_ADDI m i pc = Inr (Trap OverflowException 0 m)) \<and>
   (if fits (sint a - sint b) then \<exists>v. op_SUB m i pc = go (setreg m (rd i) v) pc \<and> sint v = sint a - sint b
    else op_SUB m i pc = Inr (Trap OverflowException 0 m))"
proof -
  have addi: "op_ADDI m i pc = (if sint (regs m (rs i)) + sint (extra i) < - (2 ^ 31) \<or>
      2 ^ 31 \<le> sint (regs m (rs i)) + sint (extra i) then Inr (Trap OverflowException 0 m)
      else go (setreg m (rt i) (regs m (rs i) + extra i)) pc)"
    using add_overflow_iff(1) [of "extra i" "regs m (rs i)"]
    by (simp add: op_ADDI_def Let_def add.commute xor.commute)
  show ?thesis unfolding Let_def addi
    using add_overflow_iff [of "regs m (rs i)" "regs m (rt i)"] add_overflow_iff(2) [of "regs m (rs i)" "extra i"]
      sub_overflow_iff [of "regs m (rs i)" "regs m (rt i)"]
    by (auto simp: op_ADD_def op_SUB_def Let_def not_le not_less)
qed


lemma sint_word_of_int_32: "- (2 ^ 31) \<le> x \<Longrightarrow> x < 2 ^ 31 \<Longrightarrow> sint (word_of_int x :: 32 word) = x"
  by (simp add: sint_sbintrunc' signed_take_bit_int_eq_self)

lemma quotient_fits:
  assumes "- (2 ^ 31) \<le> a" "a < 2 ^ 31" "b \<noteq> 0" "\<not> (a = - (2 ^ 31) \<and> b = -1)"
  shows "- (2 ^ 31) \<le> a sdiv b" "a sdiv b < (2 ^ 31 :: int)"
proof -
  define q where "q = a sdiv b"
  define r where "r = a smod b"
  have e: "q * b + r = a" using sdiv_mult_smod_eq [of a b] by (simp add: q_def r_def)
  have q: "- \<bar>a\<bar> \<le> q" "q \<le> \<bar>a\<bar>" using sdiv_int_range [of a b] by (simp_all add: q_def)
  have r: "- \<bar>b\<bar> + 1 \<le> r" "r \<le> \<bar>b\<bar> - 1" using smod_int_range [OF assms(3), of a] by (simp_all add: r_def)
  show "- (2 ^ 31) \<le> a sdiv b" using q assms(1,2) by (simp add: q_def)
  have "q \<noteq> 2 ^ 31"
  proof
    assume q31: "q = 2 ^ 31"
    then have a: "a = - (2 ^ 31)" using q assms(1,2) by simp
    then have "b \<noteq> -1" using assms(4) by simp
    then consider "1 \<le> b" | "b \<le> -2" using assms(3) by linarith
    then show False using e r unfolding q31 a by cases simp_all
  qed
  then show "a sdiv b < 2 ^ 31" using q assms(1,2) by (simp add: q_def)
qed

text \<open>
  C38: division leaves the quotient in LO and the remainder in HI, exactly: the identity
  \<open>LO * rt + HI = rs\<close> holds on signed (\<open>OP_DIV\<close>) and unsigned (\<open>OP_DIVU\<close>) values with a remainder
  smaller than the divisor, a zero divisor gives 0 and 0, and the one case the host processor
  traps on is the smallest number divided by -1.
\<close>

theorem division_exact:
  "(if regs m (rt i) = 0 then \<exists>m'. op_DIV m i pc = go m' pc \<and> op_DIVU m i pc = go m' pc \<and>
        regs m' LoReg = 0 \<and> regs m' HiReg = 0
    else (if regs m (rs i) = SIGN_BIT \<and> regs m (rt i) = -1 then op_DIV m i pc = Inl HostTrap
          else \<exists>m'. op_DIV m i pc = go m' pc \<and>
            sint (regs m' LoReg) * sint (regs m (rt i)) + sint (regs m' HiReg) = sint (regs m (rs i)) \<and>
            \<bar>sint (regs m' HiReg)\<bar> < \<bar>sint (regs m (rt i))\<bar>) \<and>
         (\<exists>m'. op_DIVU m i pc = go m' pc \<and>
            uint (regs m' LoReg) * uint (regs m (rt i)) + uint (regs m' HiReg) = uint (regs m (rs i)) \<and>
            uint (regs m' HiReg) < uint (regs m (rt i))))"
proof (cases "regs m (rt i) = 0")
  case True
  then show ?thesis
    by (auto simp: op_DIV_def op_DIVU_def intro!: exI [of _ "setreg (setreg m LoReg 0) HiReg 0"])
next
  case False
  let ?a = "regs m (rs i)" and ?b = "regs m (rt i)"
  have "uint ?b \<noteq> 0" using False by (simp add: uint_0_iff)
  then have b0: "sint ?b \<noteq> 0" "0 < uint ?b"
    using False uint_bounds32 [of ?b] by (simp_all add: signed_eq_0_iff less_le)
  have U: "\<exists>m'. op_DIVU m i pc = go m' pc \<and>
      uint (regs m' LoReg) * uint ?b + uint (regs m' HiReg) = uint ?a \<and> uint (regs m' HiReg) < uint ?b"
    using False b0(2) by (simp add: op_DIVU_def uint_div_distrib uint_mod_distrib)
  have S: "\<exists>m'. op_DIV m i pc = go m' pc \<and>
      sint (regs m' LoReg) * sint ?b + sint (regs m' HiReg) = sint ?a \<and> \<bar>sint (regs m' HiReg)\<bar> < \<bar>sint ?b\<bar>"
    if n: "\<not> (?a = SIGN_BIT \<and> ?b = -1)"
  proof -
    have w: "w = word_of_int (sint w)" for w :: "32 word" by simp
    have "?a = SIGN_BIT" if "sint ?a = - (2 ^ 31)" using w [of ?a] unfolding that by simp
    moreover have "?b = -1" if "sint ?b = -1" using w [of ?b] unfolding that by simp
    ultimately have "\<not> (sint ?a = - (2 ^ 31) \<and> sint ?b = -1)" using n by blast
    note q = quotient_fits [OF sint_bounds32 b0(1) this]
    have r: "- (2 ^ 31) \<le> sint ?a smod sint ?b" "sint ?a smod sint ?b < 2 ^ 31" "\<bar>sint ?a smod sint ?b\<bar> < \<bar>sint ?b\<bar>"
      using smod_int_range [OF b0(1), of "sint ?a"] sint_bounds32 [of ?b] by auto
    show ?thesis using False n q r sdiv_mult_smod_eq [of "sint ?a" "sint ?b"]
      by (auto simp: op_DIV_def sint_word_of_int_32)
  qed
  show ?thesis using U S False by (auto simp: op_DIV_def)
qed



section \<open>Properties of one instruction\<close>

text \<open>A machine about to execute \<open>lw $2, 4($0)\<close>, from a page in frame 5, with a load to R7 pending.\<close>

definition lw_machine :: Machine where
  "lw_machine = two_pages\<lparr>mainMemory := store_le (\<lambda>_. 0) 640 4 0x8C020004,
     regs := (\<lambda>_. 0)(NextPCReg := 4, LoadReg := 7, LoadValueReg := 99)\<rparr>"

lemma lw_machine_ok: "cpu_ok lw_machine"
  by (simp add: lw_machine_def cpu_ok_def)

lemma lw_decode: "opCode (Decode 0x8C020004) = OP_LW" "rs (Decode 0x8C020004) = 0"
  "rt (Decode 0x8C020004) = 2" "extra (Decode 0x8C020004) = 4"
  by (simp_all add: Decode_def field_def opTable_def extra_of_def Let_def mask_eq_exp_minus_1)

lemma lw_phys: "phys lw_machine 0 4 False = Inr 640" "phys lw_machine 4 4 False = Inr 644"
  by (simp_all add: lw_machine_def phys_def locate_def page_entry_def)

lemma lw_trans_ok: "trans_ok lw_machine"
  using lw_machine_ok by (simp add: cpu_ok_def)

lemma lw_fetched: "fetched lw_machine 0x8C020004 (touch lw_machine 0 False)"
proof -
  have "regs lw_machine PCReg = 0" "mainMemory lw_machine = store_le (\<lambda>_. 0) 640 4 0x8C020004"
    by (simp_all add: lw_machine_def)
  then show ?thesis
    by (simp add: fetched_def ReadMem_phys [OF lw_trans_ok] lw_phys(1) read_store_value)
qed

lemma lw_step: "\<exists>m'. OneInstruction lw_machine = Inr (Completed m')"
proof -
  let ?m1 = "touch lw_machine 0 False"
  have r: "regs ?m1 = regs lw_machine" by simp
  have g: "regs lw_machine 0 = 0" "regs lw_machine PCReg = 0" "unat (regs lw_machine LoadReg) < 32"
    by (simp_all add: lw_machine_def)
  have t1: "trans_ok ?m1" "remap lw_machine ?m1" using remap_touch [OF lw_trans_ok] remap_ok by blast+
  have p1: "phys ?m1 4 4 False = Inr 644" using lw_phys(2) remap_phys [OF t1(2)] by simp
  have "eff_addr ?m1 (Decode 0x8C020004) = 4" using g(1) by (simp add: eff_addr_def lw_decode)
  then have "\<exists>m2 v. execute ?m1 (Decode 0x8C020004) pc = Inr (Next m2 pc 2 v) \<and> regs m2 = regs ?m1" for pc
    using p1 by (simp add: execute_def lw_decode op_LW_def with_ReadMem_def ReadMem_phys [OF t1(1)]
        schedule_load_def)
  then obtain m2 v where e: "execute ?m1 (Decode 0x8C020004) (regs ?m1 NextPCReg + 4) =
      Inr (Next m2 (regs ?m1 NextPCReg + 4) 2 v)" "regs m2 = regs ?m1" by blast
  have "OneInstruction lw_machine = finish (Next m2 (regs ?m1 NextPCReg + 4) 2 v)"
    using lw_fetched e(1) g(2) by (simp add: OneInstruction_def with_ReadMem_def fetched_def)
  then show ?thesis using finish_Next [of m2] g(3) e(2) by (metis r)
qed

lemma OneInstruction_result:
  assumes "cpu_ok m"
  shows "(\<exists>m'. (OneInstruction m = Inr (Completed m') \<or>
            (\<exists>ex. ex \<noteq> NoException \<and> OneInstruction m = Inr (Trapped ex m'))) \<and>
            cpu_ok m' \<and> remap m m' \<and> confined m m') \<or>
         (\<exists>raw m1 e. fetched m raw m1 \<and> aborts m1 (Decode raw) e \<and> OneInstruction m = Inl e)"
proof -
  have t: "trans_ok m" using assms by (simp add: cpu_ok_def)
  from OneInstruction_cases [OF t] show ?thesis
  proof (elim disjE exE conjE)
    fix ex assume "phys m (regs m PCReg) 4 False = Inl ex"
      and o: "OneInstruction m = finish (Trap ex (regs m PCReg) m)"
    then have "exec_ok m (Inr (Trap ex (regs m PCReg) m))" using t phys_no_NoException by auto
    from finish_exec_ok [OF this assms] show ?thesis unfolding o by blast
  next
    fix raw m1 assume f: "fetched m raw m1" "frame_ok m m1"
      and o: "OneInstruction m = rbind (execute m1 (Decode raw) (regs m NextPCReg + 4)) finish"
    note t1 = frame_trans_ok [OF f(2)]
    show ?thesis
    proof (cases "execute m1 (Decode raw) (regs m NextPCReg + 4)")
      case (Inl e)
      then have "aborts m1 (Decode raw) e"
        using execute_aborts [OF t1 Decode_opCode, of raw "regs m NextPCReg + 4"] by simp
      then show ?thesis using f o Inl by auto
    next
      case (Inr ex)
      have "exec_ok m1 (Inr ex)"
        using execute_ok [OF t1 Decode_regs, of raw "regs m NextPCReg + 4"] by (simp add: Inr)
      then have "exec_ok m (Inr ex)" by (cases ex) (auto intro: frame_trans [OF f(2)])
      from finish_exec_ok [OF this assms] show ?thesis using o Inr by auto
    qed
  qed
qed

text \<open>
  C14: executing one instruction is safe. From a state with a valid page table or TLB, a zero
  R0 and a pending load to a general register, it completes or traps into the kernel, the
  state it leaves satisfies the same invariant, the mapping of virtual to physical pages is
  unchanged, and every byte of memory it changed lies in a page the current mapping makes
  writable. The only exceptions are named: an unaligned \<open>LWL\<close>, \<open>LWR\<close>, \<open>SWL\<close> or \<open>SWR\<close> aborts the
  simulator, and dividing the smallest number by -1 traps on the host.
\<close>

theorem OneInstruction_safe:
  assumes "cpu_ok m"
  shows "(\<exists>m'. (OneInstruction m = Inr (Completed m') \<or>
            (\<exists>ex. ex \<noteq> NoException \<and> OneInstruction m = Inr (Trapped ex m'))) \<and>
            cpu_ok m' \<and> remap m m' \<and> confined m m') \<or>
         (\<exists>raw m1 e. fetched m raw m1 \<and> aborts m1 (Decode raw) e \<and> OneInstruction m = Inl e)"
  by (rule OneInstruction_result [OF assms])

theorem OneInstruction_safe_witness:
  "cpu_ok lw_machine \<and> (\<exists>m'. OneInstruction lw_machine = Inr (Completed m') \<and> cpu_ok m' \<and> confined lw_machine m')"
  using OneInstruction_safe [OF lw_machine_ok] lw_machine_ok lw_step by auto

lemma OneInstruction_invariant:
  assumes "cpu_ok m" "OneInstruction m = Inr out"
  shows "cpu_ok (machine_of out) \<and> remap m (machine_of out) \<and> confined m (machine_of out)"
  using OneInstruction_result [OF assms(1)] assms(2) by (auto simp: machine_of_def)

lemma fetched_unique: "fetched m raw m1 \<Longrightarrow> fetched m raw' m1' \<Longrightarrow> raw' = raw \<and> m1' = m1"
  by (simp add: fetched_def)

lemma finish_regs:
  assumes "exec_ok m (Inr e)" "cpu_ok m" "finish e = Inr out"
  shows "case e of
      Next m1 pc lr lv \<Rightarrow> (\<exists>m'. out = Completed m' \<and> regs m' PrevPCReg = regs m PCReg \<and>
        regs m' PCReg = regs m NextPCReg \<and> regs m' NextPCReg = pc)
    | Trap ex bad m1 \<Rightarrow> (\<exists>m'. out = Trapped ex m' \<and> regs m' LoadReg = 0 \<and>
        (\<forall>r\<in>{PCReg, NextPCReg, PrevPCReg}. regs m' r = regs m r))" (is ?P)
    and "regs m LoadReg \<noteq> 0 \<Longrightarrow> regs (machine_of out) (unat (regs m LoadReg)) = regs m LoadValueReg"
proof -
  have "?P \<and> (regs m LoadReg \<noteq> 0 \<longrightarrow> regs (machine_of out) (unat (regs m LoadReg)) = regs m LoadValueReg)"
  proof (cases e)
    case (Next m1 pc lr lv)
    then have r: "regs m1 r = regs m r" if "r \<in> {PCReg..BadVAddrReg}" for r
      using assms(1) that by (simp add: frame_ok_def)
    have l: "unat (regs m1 LoadReg) < 32" using assms(2) r [of LoadReg] by (simp add: cpu_ok_def)
    from finish_Next [OF this, of pc lr lv] assms(3) obtain m' where "out = Completed m'"
      "regs m' PrevPCReg = regs m1 PCReg" "regs m' PCReg = regs m1 NextPCReg" "regs m' NextPCReg = pc"
      "regs m1 LoadReg \<noteq> 0 \<longrightarrow> regs m' (unat (regs m1 LoadReg)) = regs m1 LoadValueReg"
      unfolding Next by auto
    then show ?thesis by (simp add: Next r machine_of_def)
  next
    case (Trap ex bad m1)
    then have r: "regs m1 r = regs m r" if "r \<in> {PCReg..BadVAddrReg}" for r
      using assms(1) that by (simp add: frame_ok_def)
    have l: "unat (regs m1 LoadReg) < 32" using assms(2) r [of LoadReg] by (simp add: cpu_ok_def)
    from finish_Trap [OF this, of ex bad] assms(3) obtain m' where "out = Trapped ex m'"
      "regs m' LoadReg = 0" "\<forall>r\<in>{PCReg, NextPCReg, PrevPCReg}. regs m' r = regs m1 r"
      "regs m1 LoadReg \<noteq> 0 \<longrightarrow> regs m' (unat (regs m1 LoadReg)) = regs m1 LoadValueReg"
      unfolding Trap by auto
    then show ?thesis by (simp add: Trap r machine_of_def)
  qed
  then show ?P and
    "regs m LoadReg \<noteq> 0 \<Longrightarrow> regs (machine_of out) (unat (regs m LoadReg)) = regs m LoadValueReg"
    by blast+
qed

lemma OneInstruction_exec:
  assumes "cpu_ok m" "OneInstruction m = Inr out"
  obtains e where "exec_ok m (Inr e)" "finish e = Inr out"
    "\<forall>raw m1 m' pc lr lv. fetched m raw m1 \<longrightarrow> opCode (Decode raw) \<notin> branches \<longrightarrow>
       e = Next m' pc lr lv \<longrightarrow> pc = regs m NextPCReg + 4"
proof -
  have t: "trans_ok m" using assms(1) by (simp add: cpu_ok_def)
  from OneInstruction_cases [OF t] show thesis
  proof (elim disjE exE conjE)
    fix ex assume "phys m (regs m PCReg) 4 False = Inl ex"
      and o: "OneInstruction m = finish (Trap ex (regs m PCReg) m)"
    then have ok: "exec_ok m (Inr (Trap ex (regs m PCReg) m))" using t phys_no_NoException by auto
    show thesis using that [OF ok] o assms(2) by simp
  next
    fix raw m1 assume f: "fetched m raw m1" "frame_ok m m1"
      and o: "OneInstruction m = rbind (execute m1 (Decode raw) (regs m NextPCReg + 4)) finish"
    obtain e where e: "execute m1 (Decode raw) (regs m NextPCReg + 4) = Inr e" "finish e = Inr out"
      using assms(2) unfolding o rbind_eq_Inr by blast
    have "exec_ok m1 (Inr e)"
      using execute_ok [OF frame_trans_ok [OF f(2)] Decode_regs, of raw "regs m NextPCReg + 4"] e(1) by simp
    then have "exec_ok m (Inr e)" by (cases e) (auto intro: frame_trans [OF f(2)])
    then show thesis using that e f(1) execute_sequential by (metis fetched_unique)
  qed
qed

text \<open>
  The program counter. A completed instruction moves \<open>NextPCReg\<close> into \<open>PCReg\<close> and the old
  \<open>PCReg\<close> into \<open>PrevPCReg\<close>, and unless it is a branch or jump the next program counter goes up
  by 4. A trapped instruction leaves all three as they were, so that it can be restarted,
  and leaves no load pending.
\<close>

theorem OneInstruction_pc:
  assumes "cpu_ok m" "OneInstruction m = Inr out"
  shows "case out of
      Completed m' \<Rightarrow> regs m' PrevPCReg = regs m PCReg \<and> regs m' PCReg = regs m NextPCReg \<and>
        (\<forall>raw m1. fetched m raw m1 \<and> opCode (Decode raw) \<notin> branches \<longrightarrow>
           regs m' NextPCReg = regs m NextPCReg + 4)
    | Trapped ex m' \<Rightarrow> regs m' LoadReg = 0 \<and>
        (\<forall>r\<in>{PCReg, NextPCReg, PrevPCReg}. regs m' r = regs m r)"
proof -
  obtain e where e: "exec_ok m (Inr e)" "finish e = Inr out"
    "\<forall>raw m1 m' pc lr lv. fetched m raw m1 \<longrightarrow> opCode (Decode raw) \<notin> branches \<longrightarrow>
       e = Next m' pc lr lv \<longrightarrow> pc = regs m NextPCReg + 4"
    using OneInstruction_exec [OF assms] by blast
  show ?thesis using finish_regs(1) [OF e(1) assms(1) e(2)] e(3) by (cases e) (auto, blast)
qed

theorem OneInstruction_pc_witness:
  "\<exists>m'. OneInstruction lw_machine = Inr (Completed m') \<and> regs m' PCReg = 4 \<and> regs m' NextPCReg = 8"
proof -
  obtain m' where s: "OneInstruction lw_machine = Inr (Completed m')" using lw_step by blast
  have "regs lw_machine NextPCReg = 4" by (simp add: lw_machine_def)
  then show ?thesis
    using OneInstruction_pc [OF lw_machine_ok s] s lw_fetched lw_decode(1) by (auto simp: branches_def)
qed

text \<open>
  C40: the load delay slot. The value of a load is in its register after the instruction that
  follows the load, whatever that instruction does (it may even write the same register), and
  also when it traps.
\<close>

theorem OneInstruction_delayed_load:
  assumes "cpu_ok m" "OneInstruction m = Inr out" "regs m LoadReg = word_of_nat r" "0 < r" "r < 32"
  shows "regs (machine_of out) r = regs m LoadValueReg"
proof -
  obtain e where e: "exec_ok m (Inr e)" "finish e = Inr out"
    by (rule OneInstruction_exec [OF assms(1,2)]) (erule (1) that)
  have u: "unat (regs m LoadReg) = r" using assms(3,5) by (simp add: unat_of_nat)
  then have "regs m LoadReg \<noteq> 0" using assms(4) by auto
  from finish_regs(2) [OF e(1) assms(1) e(2) this] show ?thesis by (simp add: u)
qed

theorem OneInstruction_delayed_load_witness:
  "\<exists>m'. OneInstruction lw_machine = Inr (Completed m') \<and> regs lw_machine 7 = 0 \<and> regs m' 7 = 99"
proof -
  obtain m' where s: "OneInstruction lw_machine = Inr (Completed m')" using lw_step by blast
  have "regs lw_machine LoadReg = word_of_nat 7" "regs lw_machine LoadValueReg = 99" "regs lw_machine 7 = 0"
    by (simp_all add: lw_machine_def)
  then show ?thesis using OneInstruction_delayed_load [OF lw_machine_ok s, of 7] s
    by (simp add: machine_of_def)
qed

end
