(* ===== verification/Addr_Space.thy ===== *)
theory Addr_Space
  imports Bit_Map Mips_Sim
begin

text \<open>
  Address spaces (\<open>userprog/addrspace.h\<close>, \<open>userprog/addrspace.cc\<close>): the constructor that reads a
  NOFF executable, takes page frames from the global bitmap and loads the code and
  initialised data page by page, the destructor that gives the frames back, and the
  initial registers. The executable is the sequence of its bytes; \<open>ReadAt\<close> on it is the host's
  \<open>lseek\<close> and \<open>read\<close>, which copy as many bytes as the file has.
\<close>

section \<open>Executables\<close>

abbreviation UserStackSize :: nat where "UserStackSize \<equiv> 1024"
abbreviation NOFFMAGIC :: "32 word" where "NOFFMAGIC \<equiv> 0xbadfad"

record Segment =
  virtualAddr :: "32 word"
  inFileAddr :: "32 word"
  seg_size :: "32 word"

record NoffHeader =
  noffMagic :: "32 word"
  code :: Segment
  initData :: Segment
  uninitData :: Segment

definition SwapSegment :: "bool \<Rightarrow> Segment \<Rightarrow> Segment" where
  "SwapSegment big s = \<lparr>virtualAddr = WordToHost big (virtualAddr s),
     inFileAddr = WordToHost big (inFileAddr s), seg_size = WordToHost big (seg_size s)\<rparr>"

definition SwapHeader :: "bool \<Rightarrow> NoffHeader \<Rightarrow> NoffHeader" where
  "SwapHeader big h = \<lparr>noffMagic = WordToHost big (noffMagic h), code = SwapSegment big (code h),
     initData = SwapSegment big (initData h), uninitData = SwapSegment big (uninitData h)\<rparr>"

text \<open>
  \<open>ReadAt((char *)&noffH, sizeof(noffH), 0)\<close>: what the file has of the 40 bytes; the rest of the
  local variable keeps whatever the stack held (\<open>garbage\<close>).
\<close>

definition header_bytes :: "(nat \<Rightarrow> 8 word) \<Rightarrow> 8 word list \<Rightarrow> nat \<Rightarrow> 8 word" where
  "header_bytes garbage file k = (if k < length file then file ! k else garbage k)"

definition read_segment :: "(nat \<Rightarrow> 8 word) \<Rightarrow> nat \<Rightarrow> Segment" where
  "read_segment bytes k = \<lparr>virtualAddr = load_le bytes k 4, inFileAddr = load_le bytes (k + 4) 4,
     seg_size = load_le bytes (k + 8) 4\<rparr>"

definition read_header :: "(nat \<Rightarrow> 8 word) \<Rightarrow> 8 word list \<Rightarrow> NoffHeader" where
  "read_header garbage file =
     (let b = header_bytes garbage file
      in \<lparr>noffMagic = load_le b 0 4, code = read_segment b 4, initData = read_segment b 16,
          uninitData = read_segment b 28\<rparr>)"

section \<open>Memory\<close>

definition store_bytes :: "(nat \<Rightarrow> 8 word) \<Rightarrow> nat \<Rightarrow> 8 word list \<Rightarrow> nat \<Rightarrow> 8 word" where
  "store_bytes mem a bs = (\<lambda>x. if a \<le> x \<and> x < a + length bs then bs ! (x - a) else mem x)"

text \<open>
  \<open>executable->ReadAt(&machine->mainMemory[addr], numBytes, position)\<close>: \<open>Lseek\<close> asserts that the
  position is not negative; writing outside \<open>mainMemory\<close> is out of bounds.
\<close>

definition ReadAt_mem ::
  "8 word list \<Rightarrow> (nat \<Rightarrow> 8 word) \<Rightarrow> int \<Rightarrow> int \<Rightarrow> int \<Rightarrow> (nat \<Rightarrow> 8 word) res" where
  "ReadAt_mem file mem addr numBytes position =
     (if position < 0 then Inl AssertFail
      else if addr < 0 \<or> numBytes < 0 \<or> int MemorySize < addr + numBytes then Inl OutOfBounds
      else Inr (store_bytes mem (nat addr) (take (nat numBytes) (drop (nat position) file))))"

section \<open>Address spaces\<close>

record AddrSpace =
  as_pageTable :: nat
  numPages :: nat

definition new_entry :: "nat \<Rightarrow> nat \<Rightarrow> TranslationEntry" where
  "new_entry i frame = \<lparr>virtualPage = word_of_nat i, physicalPage = word_of_nat frame,
     te_valid = True, te_readOnly = False, te_use = False, te_dirty = False\<rparr>"

text \<open>The loop that fills the page table from entry \<open>i\<close> on, \<open>n\<close> entries to go.\<close>

fun setup_pages ::
  "nat \<Rightarrow> nat \<Rightarrow> BitMap \<Rightarrow> (nat \<Rightarrow> 8 word) \<Rightarrow> (TranslationEntry list \<times> BitMap \<times> (nat \<Rightarrow> 8 word)) res" where
  "setup_pages i 0 bm mem = Inr ([], bm, mem)"
| "setup_pages i (Suc n) bm mem = rbind (BitMap_Find bm) (\<lambda>(f, bm').
     if f < 0 \<or> int NumPhysPages \<le> f then Inl OutOfBounds
     else rbind (setup_pages (Suc i) n bm'
                  (store_bytes mem (nat f * PageSize) (replicate PageSize 0)))
            (\<lambda>(es, bm'', mem'). Inr (new_entry i (nat f) # es, bm'', mem')))"

definition frame_addr :: "TranslationEntry list \<Rightarrow> int \<Rightarrow> int res" where
  "frame_addr es i = (if i < 0 \<or> int (length es) \<le> i then Inl OutOfBounds
     else Inr (uint (physicalPage (es ! nat i)) * int PageSize))"

text \<open>
  Loading one segment: the first page, the last page when it is partly filled, then the pages
  in between. The loop variable is unsigned, as the comparison with \<open>lastPage\<close> is.
\<close>

definition unsigned_of :: "int \<Rightarrow> nat" where
  "unsigned_of x = nat (x mod 2 ^ 32)"

definition load_segment ::
  "8 word list \<Rightarrow> TranslationEntry list \<Rightarrow> Segment \<Rightarrow> (nat \<Rightarrow> 8 word) \<Rightarrow> (nat \<Rightarrow> 8 word) res" where
  "load_segment file es seg mem =
     (let va = sint (virtualAddr seg); sz = sint (seg_size seg); fileAddr = sint (inFileAddr seg);
          firstPage = va sdiv int PageSize;
          tempPageSize = int PageSize - va smod int PageSize;
          firstPageSize = (if tempPageSize < sz then tempPageSize else sz);
          lastPage = (if tempPageSize < sz then (va + sz) sdiv int PageSize else firstPage + 1);
          lastPageSize = (if tempPageSize < sz then (va + sz) smod int PageSize else 0)
      in if sz \<le> 0 then Inr mem
         else rbind (frame_addr es firstPage) (\<lambda>fa.
              rbind (ReadAt_mem file mem (fa + int PageSize - tempPageSize) firstPageSize fileAddr) (\<lambda>mem1.
              rbind (if lastPageSize \<noteq> 0
                     then rbind (frame_addr es lastPage) (\<lambda>la.
                       ReadAt_mem file mem1 la lastPageSize
                         (fileAddr + firstPageSize + (lastPage - firstPage - 1) * int PageSize))
                     else Inr mem1) (\<lambda>mem2.
              iter_res (\<lambda>i mem. rbind (frame_addr es (int i)) (\<lambda>pa.
                  ReadAt_mem file mem pa (int PageSize)
                    (fileAddr + firstPageSize + (int i - firstPage - 1) * int PageSize)))
                [unsigned_of (firstPage + 1)..<unsigned_of lastPage] mem2))))"

text \<open>
  The constructor. \<open>p\<close> is the address \<open>new TranslationEntry[numPages]\<close> returns. The semaphore
  \<open>addrLock\<close> is held throughout, so the bitmap is not touched by others meanwhile.
\<close>

definition space_size :: "NoffHeader \<Rightarrow> nat" where
  "space_size h = nat (divRoundUp (uint (seg_size (code h) + seg_size (initData h) +
     seg_size (uninitData h) + word_of_nat UserStackSize)) (int PageSize))"

definition AddrSpace_new ::
  "(nat \<Rightarrow> 8 word) \<Rightarrow> 8 word list \<Rightarrow> nat \<Rightarrow> BitMap \<Rightarrow> Machine \<Rightarrow> (AddrSpace \<times> BitMap \<times> Machine) res" where
  "AddrSpace_new garbage executable p bm m =
     (let h0 = read_header garbage executable;
          h = (if noffMagic h0 \<noteq> NOFFMAGIC \<and> WordToHost False (noffMagic h0) = NOFFMAGIC
               then SwapHeader False h0 else h0);
          n = space_size h
      in rbind (ASSERT (noffMagic h = NOFFMAGIC)) (\<lambda>_.
         rbind (BitMap_NumClear bm) (\<lambda>clear.
         rbind (ASSERT (int n \<le> clear)) (\<lambda>_.
         rbind (setup_pages 0 n bm (mainMemory m)) (\<lambda>(es, bm', mem).
         rbind (load_segment executable es (code h) mem) (\<lambda>mem1.
         rbind (load_segment executable es (initData h) mem1) (\<lambda>mem2.
           Inr (\<lparr>as_pageTable = p, numPages = n\<rparr>, bm',
                m\<lparr>mainMemory := mem2, ptables := (ptables m)(p \<mapsto> es)\<rparr>))))))))"

definition AddrSpace_delete :: "AddrSpace \<Rightarrow> BitMap \<Rightarrow> Machine \<Rightarrow> (BitMap \<times> Machine) res" where
  "AddrSpace_delete sp bm m =
     (case ptables m (as_pageTable sp) of None \<Rightarrow> Inl BadPointer
      | Some es \<Rightarrow>
          if length es < numPages sp then Inl OutOfBounds
          else rbind (iter_res (\<lambda>i bm. BitMap_Clear bm (sint (physicalPage (es ! i)))) [0..<numPages sp] bm)
            (\<lambda>bm'. Inr (bm', m\<lparr>ptables := (ptables m)(as_pageTable sp := None)\<rparr>)))"

definition InitRegisters :: "AddrSpace \<Rightarrow> Machine \<Rightarrow> Machine res" where
  "InitRegisters sp m =
     rbind (iter_res (\<lambda>i m. WriteRegister m (int i) 0) [0..<NumTotalRegs] m) (\<lambda>m1.
     rbind (WriteRegister m1 (int PCReg) 0) (\<lambda>m2.
     rbind (WriteRegister m2 (int NextPCReg) 4) (\<lambda>m3.
     WriteRegister m3 (int StackReg) (word_of_nat (numPages sp) * word_of_nat PageSize - 16))))"

definition SaveState :: "AddrSpace \<Rightarrow> Machine \<Rightarrow> Machine" where
  "SaveState sp m = m"

definition RestoreState :: "AddrSpace \<Rightarrow> Machine \<Rightarrow> Machine" where
  "RestoreState sp m = m\<lparr>pageTable := Some (as_pageTable sp), pageTableSize := numPages sp\<rparr>"

section \<open>Virtual addresses of a list of frames\<close>

definition vaddr :: "nat list \<Rightarrow> nat \<Rightarrow> nat" where
  "vaddr fs x = fs ! (x div PageSize) * PageSize + x mod PageSize"

lemma vaddr_div [simp]: "vaddr fs x div PageSize = fs ! (x div PageSize)"
  by (simp add: vaddr_def)

lemma vaddr_mod [simp]: "vaddr fs x mod PageSize = x mod PageSize"
  by (simp add: vaddr_def)

lemma page_less: "x < length fs * PageSize \<Longrightarrow> x div PageSize < length fs"
  by (simp add: less_mult_imp_div_less)

lemma vaddr_inj:
  assumes "distinct fs" "x < length fs * PageSize" "y < length fs * PageSize" "vaddr fs x = vaddr fs y"
  shows "x = y"
proof -
  have "fs ! (x div PageSize) = fs ! (y div PageSize)" using assms(4) by (metis vaddr_div)
  then have "x div PageSize = y div PageSize"
    using assms(1-3) page_less by (simp add: nth_eq_iff_index_eq)
  moreover have "x mod PageSize = y mod PageSize" using assms(4) by (metis vaddr_mod)
  ultimately show ?thesis by (metis div_mult_mod_eq)
qed

text \<open>Addresses of one page are consecutive.\<close>

lemma vaddr_add: "x mod PageSize + d < PageSize \<Longrightarrow> vaddr fs (x + d) = vaddr fs x + d"
proof -
  assume a: "x mod PageSize + d < PageSize"
  define q r where "q = x div PageSize" and "r = x mod PageSize"
  have x: "x + d = (r + d) + q * PageSize" "r + d < PageSize" using a by (simp_all add: q_def r_def)
  then have "(x + d) div PageSize = q" "(x + d) mod PageSize = r + d" unfolding x(1) by simp_all
  then have "(x + d) div PageSize = x div PageSize" "(x + d) mod PageSize = x mod PageSize + d"
    by (simp_all add: q_def r_def)
  then show ?thesis by (simp add: vaddr_def)
qed

lemma in_chunk_iff:
  assumes "distinct fs" "x mod PageSize + n \<le> PageSize" "x + n \<le> length fs * PageSize" "y < length fs * PageSize"
  shows "vaddr fs x \<le> vaddr fs y \<and> vaddr fs y < vaddr fs x + n \<longleftrightarrow> x \<le> y \<and> y < x + n"
proof
  assume v: "vaddr fs x \<le> vaddr fs y \<and> vaddr fs y < vaddr fs x + n"
  then obtain d where d: "vaddr fs y = vaddr fs x + d" "d < n" by (metis le_Suc_ex nat_add_left_cancel_less)
  then have "vaddr fs y = vaddr fs (x + d)" using assms(2) by (subst vaddr_add) simp_all
  then have "y = x + d" using vaddr_inj [OF assms(1,4)] assms(3) d(2) by simp
  then show "x \<le> y \<and> y < x + n" using d(2) by simp
next
  assume "x \<le> y \<and> y < x + n"
  then obtain d where "y = x + d" "d < n" by (metis le_Suc_ex nat_add_left_cancel_less)
  then show "vaddr fs x \<le> vaddr fs y \<and> vaddr fs y < vaddr fs x + n"
    using vaddr_add [of x d fs] assms(2) by simp
qed

section \<open>Loading\<close>

text \<open>
  \<open>loaded\<close>: the virtual addresses in \<open>S\<close> hold the bytes of the file, those of \<open>y\<close> at position
  \<open>f + (y - v)\<close>, the other virtual addresses what \<open>mem0\<close> held, and all other frames are untouched.
\<close>

definition loaded :: "nat list \<Rightarrow> 8 word list \<Rightarrow> nat \<Rightarrow> nat \<Rightarrow> (nat \<Rightarrow> 8 word) \<Rightarrow> nat set \<Rightarrow>
    (nat \<Rightarrow> 8 word) \<Rightarrow> bool" where
  "loaded fs file f v mem0 S mem \<longleftrightarrow>
     (\<forall>y < length fs * PageSize. mem (vaddr fs y) = (if y \<in> S then file ! (f + (y - v)) else mem0 (vaddr fs y))) \<and>
     (\<forall>z. z div PageSize \<notin> set fs \<longrightarrow> mem z = mem0 z)"

lemma ReadAt_chunk:
  assumes fs: "distinct fs" "set fs \<subseteq> {..<NumPhysPages}"
    and l: "loaded fs file f v mem0 S mem"
    and x: "x mod PageSize + n \<le> PageSize" "x + n \<le> length fs * PageSize" "v \<le> x" "0 < n"
    and flen: "f + (x - v) + n \<le> length file"
    and addr: "addr = int (vaddr fs x)" and pos: "pos = int (f + (x - v))"
  shows "\<exists>mem'. ReadAt_mem file mem addr (int n) pos = Inr mem' \<and> loaded fs file f v mem0 (S \<union> {x..<x + n}) mem'"
proof -
  define bs where "bs = take n (drop (f + (x - v)) file)"
  have bs: "length bs = n" "\<And>k. k < n \<Longrightarrow> bs ! k = file ! (f + (x - v) + k)"
    using flen by (simp_all add: bs_def)
  have p: "x div PageSize < length fs" using x(2,4) by (intro page_less) simp
  then have "fs ! (x div PageSize) < NumPhysPages" using fs(2) nth_mem by blast
  then have "vaddr fs x + n \<le> MemorySize" using x(1) by (simp add: vaddr_def)
  moreover have "nat pos = f + (x - v)" "\<not> pos < 0" unfolding pos by (simp_all only: nat_int not_less of_nat_0_le_iff)
  moreover have "\<not> (addr < 0 \<or> int n < 0 \<or> int MemorySize < addr + int n)"
    using calculation(1) by (simp add: addr)
  ultimately have r: "ReadAt_mem file mem addr (int n) pos = Inr (store_bytes mem (vaddr fs x) bs)"
    by (simp add: ReadAt_mem_def addr bs_def)
  have "store_bytes mem (vaddr fs x) bs (vaddr fs y) =
      (if y \<in> S \<union> {x..<x + n} then file ! (f + (y - v)) else mem0 (vaddr fs y))"
    if y: "y < length fs * PageSize" for y
  proof (cases "x \<le> y \<and> y < x + n")
    case True
    then obtain d where d: "y = x + d" "d < n" by (metis le_Suc_ex nat_add_left_cancel_less)
    then have "vaddr fs y = vaddr fs x + d" using vaddr_add [of x d fs] x(1) by simp
    then have "store_bytes mem (vaddr fs x) bs (vaddr fs y) = bs ! d" using d bs(1) by (simp add: store_bytes_def)
    also have "\<dots> = file ! (f + (y - v))" using bs(2) [OF d(2)] d(1) x(3) by (simp add: add.assoc)
    finally show ?thesis using True by simp
  next
    case False
    then have "\<not> (vaddr fs x \<le> vaddr fs y \<and> vaddr fs y < vaddr fs x + n)"
      using in_chunk_iff [OF fs(1) x(1,2) y] by blast
    then have "store_bytes mem (vaddr fs x) bs (vaddr fs y) = mem (vaddr fs y)"
      using bs(1) by (auto simp: store_bytes_def)
    then show ?thesis using l y False by (auto simp: loaded_def)
  qed
  moreover have "store_bytes mem (vaddr fs x) bs z = mem0 z" if z: "z div PageSize \<notin> set fs" for z
  proof -
    have "\<not> (vaddr fs x \<le> z \<and> z < vaddr fs x + n)"
    proof
      assume "vaddr fs x \<le> z \<and> z < vaddr fs x + n"
      then have "z div PageSize = fs ! (x div PageSize)"
        using in_page_div [of "vaddr fs x" "fs ! (x div PageSize)" "x mod PageSize" z n] x(1)
        by (simp add: vaddr_def)
      then show False using z p by simp
    qed
    then show ?thesis using l z bs(1) by (auto simp: store_bytes_def loaded_def)
  qed
  ultimately show ?thesis using r by (auto simp: loaded_def)
qed


definition frames_of :: "TranslationEntry list \<Rightarrow> nat list" where
  "frames_of es = map (\<lambda>e. unat (physicalPage e)) es"

lemma frames_of_length [simp]: "length (frames_of es) = length es"
  by (simp add: frames_of_def)

lemma frame_addr_eq:
  assumes "i < length es"
  shows "frame_addr es (int i) = Inr (int (vaddr (frames_of es) (i * PageSize)))"
proof -
  have "vaddr (frames_of es) (i * PageSize) = unat (physicalPage (es ! i)) * PageSize"
    using assms by (simp add: vaddr_def frames_of_def)
  then show ?thesis using assms by (simp add: frame_addr_def)
qed

definition page_range :: "nat \<Rightarrow> nat set" where
  "page_range i = {i * PageSize..<i * PageSize + PageSize}"

lemma page_pos:
  assumes "v \<le> first * PageSize + PageSize" "first < i"
    and "base = f + (first * PageSize + PageSize - v)"
  shows "int base + (int i - int first - 1) * int PageSize = int (f + (i * PageSize - v))"
proof -
  obtain k where k: "i = first + 1 + k" using assms(2) less_imp_Suc_add by force
  have "int base = int f + int first * int PageSize + int PageSize - int v"
    using assms(1) by (simp add: assms(3) of_nat_diff)
  moreover have "int (f + (i * PageSize - v)) = int f + int i * int PageSize - int v"
    using assms(1) by (simp add: k of_nat_diff)
  ultimately show ?thesis by (simp add: left_diff_distrib)
qed

lemma load_page:
  assumes fs: "fs = frames_of es" "distinct fs" "set fs \<subseteq> {..<NumPhysPages}"
    and v: "v \<le> first * PageSize + PageSize"
    and base: "base = f + (first * PageSize + PageSize - v)"
    and i: "first < i" "i < length es" "f + (i * PageSize - v) + PageSize \<le> length file"
    and l: "loaded fs file f v mem0 S mem"
  shows "\<exists>mem'. rbind (frame_addr es (int i)) (\<lambda>pa. ReadAt_mem file mem pa (int PageSize)
           (int base + (int i - int first - 1) * int PageSize)) = Inr mem' \<and>
         loaded fs file f v mem0 (S \<union> page_range i) mem'"
proof -
  obtain k where k: "i = first + 1 + k" using i(1) less_imp_Suc_add by force
  have pos: "int base + (int i - int first - 1) * int PageSize = int (f + (i * PageSize - v))"
    using page_pos [OF v i(1) base] .
  have a: "i * PageSize mod PageSize + PageSize \<le> PageSize" by simp
  have b: "i * PageSize + PageSize \<le> length fs * PageSize"
    using i(2) mult_le_mono1 [of "Suc i" "length es" PageSize] by (simp add: fs(1))
  have c: "v \<le> i * PageSize" using v by (simp add: k)
  have "frame_addr es (int i) = Inr (int (vaddr fs (i * PageSize)))"
    unfolding fs(1) by (rule frame_addr_eq [OF i(2)])
  then show ?thesis
    using ReadAt_chunk [OF fs(2,3) l a b c _ i(3) refl refl] unfolding pos page_range_def by simp
qed

lemma load_pages:
  assumes fs: "fs = frames_of es" "distinct fs" "set fs \<subseteq> {..<NumPhysPages}"
    and v: "v \<le> first * PageSize + PageSize"
    and base: "base = f + (first * PageSize + PageSize - v)"
  shows "loaded fs file f v mem0 S mem \<Longrightarrow> (\<And>i. i \<in> set is \<Longrightarrow> first < i \<and> i < length es \<and>
       f + (i * PageSize - v) + PageSize \<le> length file) \<Longrightarrow>
     \<exists>mem'. iter_res (\<lambda>i mem. rbind (frame_addr es (int i)) (\<lambda>pa.
         ReadAt_mem file mem pa (int PageSize) (int base + (int i - int first - 1) * int PageSize))) is mem = Inr mem' \<and>
       loaded fs file f v mem0 (S \<union> \<Union> (page_range ` set is)) mem'"
proof (induction "is" arbitrary: mem S)
  case (Cons i "is")
  let ?F = "\<lambda>i mem. rbind (frame_addr es (int i)) (\<lambda>pa. ReadAt_mem file mem pa (int PageSize)
         (int base + (int i - int first - 1) * int PageSize))"
  have i: "first < i" "i < length es" "f + (i * PageSize - v) + PageSize \<le> length file"
    using Cons.prems(2) [of i] by simp_all
  obtain mem1 where m1: "?F i mem = Inr mem1" "loaded fs file f v mem0 (S \<union> page_range i) mem1"
    using load_page [OF fs v base i Cons.prems(1)] by blast
  have "\<And>j. j \<in> set is \<Longrightarrow> first < j \<and> j < length es \<and> f + (j * PageSize - v) + PageSize \<le> length file"
    using Cons.prems(2) by simp
  from Cons.IH [OF m1(2) this] obtain mem2 where m2: "iter_res ?F is mem1 = Inr mem2"
    "loaded fs file f v mem0 (S \<union> page_range i \<union> \<Union> (page_range ` set is)) mem2" by blast
  have "iter_res ?F (i # is) mem = Inr mem2" unfolding iter_res.simps m1(1) rbind_Inr m2(1) ..
  moreover have "S \<union> \<Union> (page_range ` set (i # is)) = S \<union> page_range i \<union> \<Union> (page_range ` set is)" by auto
  ultimately show ?case using m2(2) by metis
qed simp

lemma union_pages:
  "a \<le> b \<Longrightarrow> \<Union> (page_range ` {a..<b}) = {a * PageSize..<b * PageSize}"
proof (induction b)
  case (Suc b)
  show ?case
  proof (cases "a \<le> b")
    case True
    then have "{a..<Suc b} = insert b {a..<b}" by auto
    then show ?thesis using Suc.IH [OF True] mult_le_mono1 [OF True, of PageSize]
      by (auto simp: page_range_def)
  next
    case False
    then have "a = Suc b" using Suc.prems by simp
    then show ?thesis by simp
  qed
qed simp

lemma pages_cover:
  fixes v n :: nat
  assumes "PageSize - v mod PageSize < n"
  shows "{v..<v + (PageSize - v mod PageSize)} \<union>
     {(v + n) div PageSize * PageSize..<(v + n) div PageSize * PageSize + (v + n) mod PageSize} \<union>
     \<Union> (page_range ` {Suc (v div PageSize)..<(v + n) div PageSize}) = {v..<v + n}"
  (is "?A \<union> ?B \<union> ?C = _")
proof -
  define q r where "q = v div PageSize" and "r = v mod PageSize"
  have v: "v = q * PageSize + r" "r < PageSize" by (simp_all add: q_def r_def)
  define q' r' where "q' = (v + n) div PageSize" and "r' = (v + n) mod PageSize"
  have vn: "v + n = q' * PageSize + r'" "r' < PageSize" by (simp_all add: q'_def r'_def)
  have A: "?A = {q * PageSize + r..<Suc q * PageSize}"
    using v by (simp add: r_def [symmetric] add.commute)
  have le: "Suc q \<le> q'"
  proof -
    have "Suc q * PageSize \<le> v + n" using assms v by (simp add: r_def [symmetric])
    then show ?thesis unfolding q'_def by (metis div_le_mono nonzero_mult_div_cancel_right zero_neq_numeral)
  qed
  define t w where "t = Suc q * PageSize" and "w = q' * PageSize"
  have C: "?C = {t..<w}" unfolding q_def [symmetric] q'_def [symmetric] t_def w_def
    using le by (rule union_pages)
  have B: "?B = {w..<v + n}" unfolding q'_def [symmetric] r'_def [symmetric] w_def vn(1) [symmetric] ..
  have "t \<le> w" using le unfolding t_def w_def by (rule mult_le_mono1)
  moreover have "w \<le> v + n" using vn(1) by (simp add: w_def)
  moreover have "?A = {v..<t}" "v \<le> t" using A v by (simp_all add: t_def)
  ultimately show ?thesis using B C by auto
qed


lemma frames_few:
  assumes "distinct fs" "set fs \<subseteq> {..<NumPhysPages}"
  shows "length fs \<le> NumPhysPages"
  using assms card_mono [of "{..<NumPhysPages}" "set fs"] by (simp add: distinct_card)

lemma unsigned_of_small: "k \<le> 2 ^ 31 \<Longrightarrow> unsigned_of (int k) = k"
  by (simp add: unsigned_of_def)

lemma c_page: "int v sdiv int PageSize = int (v div PageSize)" "int v smod int PageSize = int (v mod PageSize)"
  by (simp_all add: c_arith zdiv_int zmod_int)

lemma loaded_refl: "loaded fs file f v mem {} mem"
  by (simp add: loaded_def)

lemma load_first:
  assumes fs: "fs = frames_of es" "distinct fs" "set fs \<subseteq> {..<NumPhysPages}"
    and n: "0 < n" "v mod PageSize + n \<le> PageSize" "v + n \<le> length es * PageSize" "f + n \<le> length file"
  shows "\<exists>mem'. rbind (frame_addr es (int (v div PageSize))) (\<lambda>fa. ReadAt_mem file mem
           (fa + int PageSize - (int PageSize - int (v mod PageSize))) (int n) (int f)) = Inr mem' \<and>
         loaded fs file f v mem {v..<v + n} mem'"
proof -
  have "v div PageSize < length es" using n(1,3) by (intro less_mult_imp_div_less) simp
  then have fa: "frame_addr es (int (v div PageSize)) = Inr (int (vaddr fs (v div PageSize * PageSize)))"
    unfolding fs(1) by (rule frame_addr_eq)
  have va: "int (vaddr fs (v div PageSize * PageSize)) + int PageSize - (int PageSize - int (v mod PageSize))
      = int (vaddr fs v)" by (simp add: vaddr_def)
  have l: "v + n \<le> length fs * PageSize" using n(3) by (simp add: fs(1))
  have "\<exists>mem'. ReadAt_mem file mem (int (vaddr fs v)) (int n) (int f) = Inr mem' \<and>
      loaded fs file f v mem ({} \<union> {v..<v + n}) mem'"
    using n(4) by (intro ReadAt_chunk [OF fs(2,3) loaded_refl n(2) l le_refl n(1)]) simp_all
  then show ?thesis unfolding fa rbind_Inr va by simp
qed

lemma load_last:
  assumes fs: "fs = frames_of es" "distinct fs" "set fs \<subseteq> {..<NumPhysPages}"
    and l: "loaded fs file f v mem0 S mem"
    and lst: "first < lst" "first * PageSize + PageSize = v + temp" "v + n = lst * PageSize + lsz" "lsz < PageSize"
    and n: "v + n \<le> length es * PageSize" "f + n \<le> length file"
  shows "\<exists>mem'. (if int lsz \<noteq> 0 then rbind (frame_addr es (int lst)) (\<lambda>la.
           ReadAt_mem file mem la (int lsz) (int (f + (lst * PageSize - v)))) else Inr mem) = Inr mem' \<and>
         loaded fs file f v mem0 (S \<union> {lst * PageSize..<lst * PageSize + lsz}) mem'"
proof (cases "lsz = 0")
  case True
  then show ?thesis using l by simp
next
  case False
  have "lst * PageSize < length es * PageSize" using n(1) lst(3) False by linarith
  then have le: "lst < length es" by (metis mult_less_cancel2)
  then have fa: "frame_addr es (int lst) = Inr (int (vaddr fs (lst * PageSize)))"
    unfolding fs(1) by (rule frame_addr_eq)
  have vl: "v \<le> lst * PageSize" using mult_le_mono1 [of "Suc first" lst PageSize] lst(1,2) by simp
  have "\<exists>mem'. ReadAt_mem file mem (int (vaddr fs (lst * PageSize))) (int lsz)
        (int (f + (lst * PageSize - v))) = Inr mem' \<and>
      loaded fs file f v mem0 (S \<union> {lst * PageSize..<lst * PageSize + lsz}) mem'"
    using False vl n lst(3,4) by (intro ReadAt_chunk [OF fs(2,3) l _ _ vl]) (simp_all add: fs(1))
  then show ?thesis using False fa by simp
qed

lemma load_segment_loaded:
  assumes fs: "fs = frames_of es" "distinct fs" "set fs \<subseteq> {..<NumPhysPages}"
    and seg: "sint (virtualAddr seg) = int v" "sint (seg_size seg) = int n" "sint (inFileAddr seg) = int f"
    and n: "v + n \<le> length es * PageSize" "f + n \<le> length file"
  shows "\<exists>mem'. load_segment file es seg mem = Inr mem' \<and> loaded fs file f v mem {v..<v + n} mem'"
proof (cases "n = 0")
  case True
  then show ?thesis by (simp add: load_segment_def seg loaded_refl)
next
  case False
  define first temp where "first = v div PageSize" and "temp = PageSize - v mod PageSize"
  have few: "length es \<le> NumPhysPages" using frames_few [OF fs(2,3)] by (simp add: fs(1))
  have f1: "first < length es" using n(1) False unfolding first_def by (intro less_mult_imp_div_less) simp
  have tp: "0 < temp" "v mod PageSize + temp = PageSize"
    using mod_less_divisor [of PageSize v] by (simp_all add: temp_def)
  have v128: "first * PageSize + PageSize = v + temp"
    using tp(2) div_mult_mod_eq [of v PageSize] unfolding first_def by linarith
  have tI: "int PageSize - int (v mod PageSize) = int temp"
    using mod_less_divisor [of PageSize v] by (simp add: temp_def of_nat_diff)
  note first = load_first [OF fs, where v = v, folded first_def, unfolded tI]
  note unf = load_segment_def Let_def seg c_page first_def [symmetric] tI
  show ?thesis
  proof (cases "temp < n")
    case small: False
    have c: "0 < n" "v mod PageSize + n \<le> PageSize" using small False tp by simp_all
    obtain mem1 where m1: "rbind (frame_addr es (int first)) (\<lambda>fa. ReadAt_mem file mem
           (fa + int PageSize - int temp) (int n) (int f)) = Inr mem1"
        "loaded fs file f v mem {v..<v + n} mem1"
      using first [OF c n] by blast
    then obtain fa where fa: "frame_addr es (int first) = Inr fa"
        "ReadAt_mem file mem (fa + int PageSize - int temp) (int n) (int f) = Inr mem1"
      by (auto simp: rbind_eq_Inr)
    have "unsigned_of (int first + 1) = first + 1"
      using unsigned_of_small [of "first + 1"] f1 few by (simp add: add.commute)
    then have "load_segment file es seg mem = Inr mem1"
      unfolding unf using fa small False by simp
    then show ?thesis using m1(2) by blast
  next
    case big: True
    define lst lsz where "lst = (v + n) div PageSize" and "lsz = (v + n) mod PageSize"
    have vn: "v + n = lst * PageSize + lsz" "lsz < PageSize" by (simp_all add: lst_def lsz_def)
    have lI: "(int v + int n) sdiv int PageSize = int lst" "(int v + int n) smod int PageSize = int lsz"
      using c_page [of "v + n"] by (simp_all add: lst_def lsz_def)
    have fl: "first < lst" "lst \<le> length es"
    proof -
      have "Suc first * PageSize \<le> v + n" using v128 big by simp
      then show "first < lst"
        unfolding lst_def by (metis Suc_le_lessD less_eq_div_iff_mult_less_eq zero_less_numeral)
      show "lst \<le> length es" unfolding lst_def using div_le_mono [OF n(1), of PageSize] by simp
    qed
    have c: "v mod PageSize + temp \<le> PageSize" "v + temp \<le> length es * PageSize" "f + temp \<le> length file"
      using big tp(2) n by simp_all
    obtain mem1 where m1: "rbind (frame_addr es (int first)) (\<lambda>fa. ReadAt_mem file mem
           (fa + int PageSize - int temp) (int temp) (int f)) = Inr mem1"
        "loaded fs file f v mem {v..<v + temp} mem1"
      using first [OF tp(1) c] by blast
    have pos: "int f + int temp + (int i - int first - 1) * int PageSize = int (f + (i * PageSize - v))"
      if "first < i" for i
      using page_pos [OF _ that, of v "f + temp" f] v128 by simp
    obtain mem2 where m2: "(if int lsz \<noteq> 0 then rbind (frame_addr es (int lst)) (\<lambda>la.
           ReadAt_mem file mem1 la (int lsz) (int f + int temp + (int lst - int first - 1) * int PageSize))
         else Inr mem1) = Inr mem2"
       "loaded fs file f v mem ({v..<v + temp} \<union> {lst * PageSize..<lst * PageSize + lsz}) mem2"
      using load_last [OF fs m1(2) fl(1) v128 vn n] unfolding pos [OF fl(1)] by blast
    have mid: "first < i \<and> i < length es \<and> f + (i * PageSize - v) + PageSize \<le> length file"
      if "i \<in> set [Suc first..<lst]" for i
    proof -
      have i: "first < i" "Suc i \<le> lst" using that by auto
      then have "Suc i * PageSize \<le> v + n" using mult_le_mono1 [of "Suc i" lst PageSize] vn(1) by linarith
      moreover have "v \<le> i * PageSize"
        using mult_le_mono1 [of "Suc first" i PageSize] v128 i(1) by simp
      ultimately show ?thesis using i fl(2) n(2) by simp
    qed
    obtain mem3 where m3: "iter_res (\<lambda>i mem. rbind (frame_addr es (int i)) (\<lambda>pa.
           ReadAt_mem file mem pa (int PageSize) (int f + int temp + (int i - int first - 1) * int PageSize)))
         [Suc first..<lst] mem2 = Inr mem3"
       "loaded fs file f v mem ({v..<v + temp} \<union> {lst * PageSize..<lst * PageSize + lsz} \<union>
          \<Union> (page_range ` {Suc first..<lst})) mem3"
      using load_pages [OF fs, of v first "f + temp" f, OF _ _ m2(2), of "[Suc first..<lst]"]
        mid v128 by auto
    obtain fa where fa: "frame_addr es (int first) = Inr fa"
        "ReadAt_mem file mem (fa + int PageSize - int temp) (int temp) (int f) = Inr mem1"
      using m1(1) by (auto simp: rbind_eq_Inr)
    have uns: "unsigned_of (int first + 1) = Suc first" "unsigned_of (int lst) = lst"
      using unsigned_of_small [of "first + 1"] unsigned_of_small [of lst] f1 fl few by (simp_all add: add.commute)
    have conds: "(int temp < int n) = True" "(int n \<le> 0) = False" using big by simp_all
    have "load_segment file es seg mem = Inr mem3"
      unfolding unf lI conds if_True if_False fa rbind_Inr m2(1) uns m3(1) ..
    moreover have "{v..<v + temp} \<union> {lst * PageSize..<lst * PageSize + lsz} \<union>
          \<Union> (page_range ` {Suc first..<lst}) = {v..<v + n}"
      using pages_cover [of v n] big by (simp add: temp_def lst_def lsz_def first_def)
    ultimately show ?thesis using m3(2) by auto
  qed
qed

section \<open>Allocating the pages\<close>

fun zero_frames :: "nat list \<Rightarrow> (nat \<Rightarrow> 8 word) \<Rightarrow> nat \<Rightarrow> 8 word" where
  "zero_frames [] mem = mem"
| "zero_frames (f # fs) mem = zero_frames fs (store_bytes mem (f * PageSize) (replicate PageSize 0))"

lemma page_div_iff: "f * PageSize \<le> z \<and> z < f * PageSize + PageSize \<longleftrightarrow> z div PageSize = f"
proof
  assume "f * PageSize \<le> z \<and> z < f * PageSize + PageSize"
  then show "z div PageSize = f" using in_page_div [of "f * PageSize" f 0 z PageSize] by simp
next
  assume "z div PageSize = f"
  then show "f * PageSize \<le> z \<and> z < f * PageSize + PageSize"
    using div_mult_mod_eq [of z PageSize] mod_less_divisor [of PageSize z] by linarith
qed

lemma zero_frame: "store_bytes mem (f * PageSize) (replicate PageSize 0) z = (if z div PageSize = f then 0 else mem z)"
  using page_div_iff [of f z] by (auto simp: store_bytes_def)

lemma zero_frames_eq: "zero_frames fs mem z = (if z div PageSize \<in> set fs then 0 else mem z)"
  by (induction fs arbitrary: mem) (simp_all add: zero_frame del: One_nat_def)

definition table_for :: "nat \<Rightarrow> nat list \<Rightarrow> TranslationEntry list" where
  "table_for i fs = map2 new_entry [i..<i + length fs] fs"

lemma setup_pages_eq:
  "alloc_many BitMap_Find n bm = Inr (map int fs, bm') \<Longrightarrow> set fs \<subseteq> {..<NumPhysPages} \<Longrightarrow>
   setup_pages i n bm mem = Inr (table_for i fs, bm', zero_frames fs mem)"
proof (induction n arbitrary: i bm fs mem)
  case 0
  then show ?case by (simp add: table_for_def)
next
  case (Suc n)
  from Suc.prems(1) obtain x b1 xs where x: "BitMap_Find bm = Inr (x, b1)"
    "alloc_many BitMap_Find n b1 = Inr (xs, bm')" "map int fs = x # xs"
    by (auto simp: rbind_eq_Inr)
  then obtain f fs' where f: "fs = f # fs'" "x = int f" "xs = map int fs'" by (cases fs) auto
  have "set fs' \<subseteq> {..<NumPhysPages}" "f < NumPhysPages" using Suc.prems(2) by (simp_all add: f)
  from Suc.IH [OF x(2) [unfolded f(3)] this(1)] x(1) this(2) show ?case
    by (auto simp: f table_for_def upt_rec [of i] Suc_le_eq)
qed

lemma table_for_simps [simp]: "length (table_for i fs) = length fs"
  "k < length fs \<Longrightarrow> table_for i fs ! k = new_entry (i + k) (fs ! k)"
  by (simp_all add: table_for_def)

lemma frames_of_table: "set fs \<subseteq> {..<NumPhysPages} \<Longrightarrow> frames_of (table_for i fs) = fs"
proof (rule nth_equalityI)
  fix k assume a: "set fs \<subseteq> {..<NumPhysPages}" and "k < length (frames_of (table_for i fs))"
  then have k: "k < length fs" by simp
  then have "fs ! k < NumPhysPages" using a nth_mem by blast
  then show "frames_of (table_for i fs) ! k = fs ! k"
    using k by (simp add: frames_of_def new_entry_def unat_of_nat)
qed simp

section \<open>Properties\<close>

text \<open>An executable whose segments lie inside the file and inside the address space.\<close>

definition segment_ok :: "8 word list \<Rightarrow> nat \<Rightarrow> Segment \<Rightarrow> bool" where
  "segment_ok file n s \<longleftrightarrow> 0 \<le> sint (virtualAddr s) \<and> 0 \<le> sint (seg_size s) \<and> 0 \<le> sint (inFileAddr s) \<and>
     sint (virtualAddr s) + sint (seg_size s) \<le> int (n * PageSize) \<and>
     sint (inFileAddr s) + sint (seg_size s) \<le> int (length file)"

definition exe_ok :: "8 word list \<Rightarrow> NoffHeader \<Rightarrow> bool" where
  "exe_ok file h \<longleftrightarrow> noffMagic h = NOFFMAGIC \<and> segment_ok file (space_size h) (code h) \<and>
     segment_ok file (space_size h) (initData h)"

definition seg_range :: "Segment \<Rightarrow> nat set" where
  "seg_range s = {nat (sint (virtualAddr s))..<nat (sint (virtualAddr s)) + nat (sint (seg_size s))}"

definition seg_byte :: "8 word list \<Rightarrow> Segment \<Rightarrow> nat \<Rightarrow> 8 word" where
  "seg_byte file s y = file ! (nat (sint (inFileAddr s)) + (y - nat (sint (virtualAddr s))))"

lemma load_segment_ok:
  assumes "fs = frames_of es" "distinct fs" "set fs \<subseteq> {..<NumPhysPages}" "segment_ok file (length es) s"
  shows "\<exists>mem'. load_segment file es s mem = Inr mem' \<and>
    (\<forall>y < length es * PageSize. mem' (vaddr fs y) = (if y \<in> seg_range s then seg_byte file s y else mem (vaddr fs y))) \<and>
    (\<forall>z. z div PageSize \<notin> set fs \<longrightarrow> mem' z = mem z)"
proof -
  have "nat (sint (virtualAddr s)) + nat (sint (seg_size s)) \<le> length es * PageSize"
    "nat (sint (inFileAddr s)) + nat (sint (seg_size s)) \<le> length file"
    using assms(4) unfolding segment_ok_def by linarith+
  then obtain mem' where "load_segment file es s mem = Inr mem'"
      "loaded fs file (nat (sint (inFileAddr s))) (nat (sint (virtualAddr s))) mem (seg_range s) mem'"
    using load_segment_loaded [OF assms(1-3), of s "nat (sint (virtualAddr s))" "nat (sint (seg_size s))"
        "nat (sint (inFileAddr s))" "file" mem] assms(4)
    unfolding segment_ok_def seg_range_def by auto
  moreover have "length fs = length es" by (simp add: assms(1))
  ultimately show ?thesis unfolding loaded_def seg_byte_def by metis
qed

definition space_ok :: "AddrSpace \<Rightarrow> Machine \<Rightarrow> nat list \<Rightarrow> bool" where
  "space_ok sp m fs \<longleftrightarrow> (\<exists>es. ptables m (as_pageTable sp) = Some es \<and> length es = numPages sp \<and>
     frames_of es = fs \<and> distinct fs \<and> set fs \<subseteq> {..<NumPhysPages} \<and>
     (\<forall>e\<in>set es. te_valid e \<and> \<not> te_readOnly e))"

text \<open>A small executable: four bytes of code at address 0, no data, and the stack.\<close>

definition tiny_exe :: "8 word list" where
  "tiny_exe = [173, 223, 186, 0,  0, 0, 0, 0,  40, 0, 0, 0,  4, 0, 0, 0,  4, 0, 0, 0,  44, 0, 0, 0,
     0, 0, 0, 0,  8, 0, 0, 0,  44, 0, 0, 0,  0, 0, 0, 0,  1, 2, 3, 4]"

definition tiny_header :: NoffHeader where
  "tiny_header = \<lparr>noffMagic = NOFFMAGIC, code = \<lparr>virtualAddr = 0, inFileAddr = 40, seg_size = 4\<rparr>,
     initData = \<lparr>virtualAddr = 4, inFileAddr = 44, seg_size = 0\<rparr>,
     uninitData = \<lparr>virtualAddr = 8, inFileAddr = 44, seg_size = 0\<rparr>\<rparr>"

lemma tiny_read: "read_header g tiny_exe = tiny_header"
  by (simp add: read_header_def read_segment_def header_bytes_def tiny_exe_def tiny_header_def load_le_def
      Let_def nth_Cons_numeral)

lemma tiny_ok: "exe_ok tiny_exe tiny_header" "space_size tiny_header = 9"
  by (simp_all add: exe_ok_def segment_ok_def tiny_header_def tiny_exe_def space_size_def divRoundUp_def c_arith)

lemma all_frames_free:
  obtains bm where "BitMap_new (\<lambda>_. 0) 128 = Inr bm" "bitmap_ok bm" "nbits bm = NumPhysPages"
    "BitMap_NumClear bm = Inr 128"
  using BitMap_new_ok [of 128 "\<lambda>_. 0"] by (auto simp: NumClear_eq nbits_def)

text \<open>Loading, with everything it leaves alone.\<close>

lemma AddrSpace_new_ok:
  assumes "bitmap_ok bm" "nbits bm = NumPhysPages" "h = read_header garbage exe" "exe_ok exe h"
    and "BitMap_NumClear bm = Inr c" "int (space_size h) \<le> c"
  shows "\<exists>sp bm' m' fs. AddrSpace_new garbage exe p bm m = Inr (sp, bm', m') \<and> as_pageTable sp = p \<and>
     numPages sp = space_size h \<and> space_ok sp m' fs \<and> length fs = space_size h \<and>
     bitmap_ok bm' \<and> set fs \<inter> marked bm = {} \<and> marked bm' = marked bm \<union> set fs \<and>
     (\<forall>y < space_size h * PageSize. mainMemory m' (vaddr fs y) =
        (if y \<in> seg_range (initData h) then seg_byte exe (initData h) y
         else if y \<in> seg_range (code h) then seg_byte exe (code h) y else 0)) \<and>
     (\<forall>z. z div PageSize \<notin> set fs \<longrightarrow> mainMemory m' z = mainMemory m z) \<and>
     nbits bm' = NumPhysPages \<and> m' = m\<lparr>mainMemory := mainMemory m', ptables := (ptables m)(p := ptables m' p)\<rparr>"
proof -
  let ?n = "space_size h"
  have n: "?n \<le> nbits bm - card (marked bm)" using assms(5,6) by (simp add: NumClear_eq)
  obtain fs bm' where a: "alloc_many BitMap_Find ?n bm = Inr (map int fs, bm')" "bitmap_ok bm'"
    "length fs = ?n" "distinct fs" "set fs \<inter> marked bm = {}" "set fs \<subseteq> {..<NumPhysPages}"
    "marked bm' = marked bm \<union> set fs" "nbits bm' = NumPhysPages"
    using bits.find_many [OF assms(1) n] unfolding assms(2) by blast
  define es where "es = table_for 0 fs"
  note pgs = setup_pages_eq [OF a(1,6), of 0 "mainMemory m", folded es_def]
  have es: "frames_of es = fs" "length es = ?n" using frames_of_table [OF a(6)] a(3) by (simp_all add: es_def)
  note fs = es(1) [symmetric] a(4,6)
  have sg: "segment_ok exe (length es) (code h)" "segment_ok exe (length es) (initData h)" "noffMagic h = NOFFMAGIC"
    using assms(4) by (simp_all add: exe_ok_def es(2))
  obtain mem1 where m1: "load_segment exe es (code h) (zero_frames fs (mainMemory m)) = Inr mem1"
    "\<forall>y < ?n * PageSize. mem1 (vaddr fs y) = (if y \<in> seg_range (code h) then seg_byte exe (code h) y
        else zero_frames fs (mainMemory m) (vaddr fs y))"
    "\<forall>z. z div PageSize \<notin> set fs \<longrightarrow> mem1 z = zero_frames fs (mainMemory m) z"
    using load_segment_ok [OF fs sg(1)] unfolding es(2) by blast
  obtain mem2 where m2: "load_segment exe es (initData h) mem1 = Inr mem2"
    "\<forall>y < ?n * PageSize. mem2 (vaddr fs y) = (if y \<in> seg_range (initData h) then seg_byte exe (initData h) y
        else mem1 (vaddr fs y))"
    "\<forall>z. z div PageSize \<notin> set fs \<longrightarrow> mem2 z = mem1 z"
    using load_segment_ok [OF fs sg(2)] unfolding es(2) by blast
  have z: "zero_frames fs (mainMemory m) (vaddr fs y) = 0" if "y < ?n * PageSize" for y
    using page_less [of y fs] that a(3) by (simp add: zero_frames_eq)
  define sp m' where "sp = \<lparr>as_pageTable = p, numPages = ?n\<rparr>"
    and "m' = m\<lparr>mainMemory := mem2, ptables := (ptables m)(p \<mapsto> es)\<rparr>"
  have "AddrSpace_new garbage exe p bm m = Inr (sp, bm', m')"
    using assms(5,6) sg(3) pgs m1(1) m2(1)
    by (simp add: AddrSpace_new_def assms(3) [symmetric] Let_def sp_def m'_def)
  moreover have "space_ok sp m' fs"
    using es a(4,6) by (auto simp: space_ok_def sp_def m'_def es_def in_set_conv_nth new_entry_def)
  moreover have "\<forall>y < ?n * PageSize. mainMemory m' (vaddr fs y) =
      (if y \<in> seg_range (initData h) then seg_byte exe (initData h) y
       else if y \<in> seg_range (code h) then seg_byte exe (code h) y else 0)"
    using m1(2) m2(2) z by (simp add: m'_def)
  moreover have "\<forall>z. z div PageSize \<notin> set fs \<longrightarrow> mainMemory m' z = mainMemory m z"
    using m1(3) m2(3) by (simp add: m'_def zero_frames_eq)
  moreover have "m' = m\<lparr>mainMemory := mainMemory m', ptables := (ptables m)(p := ptables m' p)\<rparr>" by (simp add: m'_def)
  ultimately show ?thesis using a(2,3,5,7,8) by (auto simp: sp_def)
qed

text \<open>
  C10: the constructor loads the program. With a well-formed executable and enough free frames
  it takes as many distinct frames, all of them free before, marks exactly these, and builds
  a page table of valid writable entries over them; virtual memory then holds the code
  and the initialised data of the file at their addresses and zeros everywhere else (the
  uninitialised data and the stack), and no byte of any other frame has changed.
\<close>

theorem AddrSpace_new_loads:
  assumes "bitmap_ok bm" "nbits bm = NumPhysPages" "h = read_header garbage exe" "exe_ok exe h"
    and "BitMap_NumClear bm = Inr c" "int (space_size h) \<le> c"
  shows "\<exists>sp bm' m' fs. AddrSpace_new garbage exe p bm m = Inr (sp, bm', m') \<and> as_pageTable sp = p \<and>
     numPages sp = space_size h \<and> space_ok sp m' fs \<and> length fs = space_size h \<and>
     bitmap_ok bm' \<and> set fs \<inter> marked bm = {} \<and> marked bm' = marked bm \<union> set fs \<and>
     (\<forall>y < space_size h * PageSize. mainMemory m' (vaddr fs y) =
        (if y \<in> seg_range (initData h) then seg_byte exe (initData h) y
         else if y \<in> seg_range (code h) then seg_byte exe (code h) y else 0)) \<and>
     (\<forall>z. z div PageSize \<notin> set fs \<longrightarrow> mainMemory m' z = mainMemory m z)"
  using AddrSpace_new_ok [OF assms, of p m] by blast

theorem AddrSpace_new_loads_witness:
  "\<exists>bm sp bm' m' fs. BitMap_new (\<lambda>_. 0) 128 = Inr bm \<and>
     AddrSpace_new (\<lambda>_. 0) tiny_exe 0 bm (Machine_new 0) = Inr (sp, bm', m') \<and> numPages sp = 9 \<and>
     mainMemory m' (vaddr fs 2) = 3 \<and> mainMemory m' (vaddr fs 900) = 0 \<and> marked bm' = marked bm \<union> set fs"
proof -
  obtain bm where bm: "BitMap_new (\<lambda>_. 0) 128 = Inr bm" "bitmap_ok bm" "nbits bm = NumPhysPages"
    "BitMap_NumClear bm = Inr 128" by (rule all_frames_free)
  obtain sp bm' m' fs where r: "AddrSpace_new (\<lambda>_. 0) tiny_exe 0 bm (Machine_new 0) = Inr (sp, bm', m')"
    "numPages sp = 9" "marked bm' = marked bm \<union> set fs"
    "\<forall>y < 9 * PageSize. mainMemory m' (vaddr fs y) =
        (if y \<in> seg_range (initData tiny_header) then seg_byte tiny_exe (initData tiny_header) y
         else if y \<in> seg_range (code tiny_header) then seg_byte tiny_exe (code tiny_header) y else 0)"
    using AddrSpace_new_loads [OF bm(2,3) tiny_read [symmetric, of "\<lambda>_. 0"] tiny_ok(1) bm(4),
        where p = 0 and m = "Machine_new 0"]
    unfolding tiny_ok(2) by auto
  have "mainMemory m' (vaddr fs 2) = 3" "mainMemory m' (vaddr fs 900) = 0"
    using r(4) by (simp_all add: seg_range_def seg_byte_def tiny_header_def tiny_exe_def nth_Cons_numeral)
  then show ?thesis using bm(1) r(1-3) by blast
qed


text \<open>
  The constructor stops the kernel with a failed assertion, before it takes any frame,
  when the file has the wrong magic number or when there are not enough free frames.
\<close>

theorem AddrSpace_new_rejects:
  assumes "h = read_header garbage exe" "BitMap_NumClear bm = Inr c"
    and "noffMagic h \<noteq> NOFFMAGIC \<or> c < int (space_size h)"
  shows "AddrSpace_new garbage exe p bm m = Inl AssertFail"
  using assms(2,3)
  by (cases "noffMagic h = NOFFMAGIC") (auto simp: AddrSpace_new_def assms(1) [symmetric] Let_def WordToHost_def SwapHeader_def)

theorem AddrSpace_new_rejects_witness:
  "\<exists>bm. BitMap_new (\<lambda>_. 0) 4 = Inr bm \<and>
     AddrSpace_new (\<lambda>_. 0) tiny_exe 0 bm (Machine_new 0) = Inl AssertFail"
proof -
  obtain bm where bm: "BitMap_new (\<lambda>_. 0) 4 = Inr bm" "BitMap_NumClear bm = Inr 4"
    using BitMap_new_ok [of 4 "\<lambda>_. 0"] by (auto simp: NumClear_eq nbits_def)
  from AddrSpace_new_rejects [OF tiny_read [symmetric, of "\<lambda>_. 0"] bm(2), where p = 0 and m = "Machine_new 0"] show ?thesis
    using bm(1) by (auto simp: tiny_ok(2))
qed

lemma clear_entries:
  assumes "bitmap_ok bm" "nbits bm = NumPhysPages" "set fs \<subseteq> {..<NumPhysPages}" "frames_of es = fs"
  shows "\<exists>bm'. iter_res (\<lambda>i bm. BitMap_Clear bm (sint (physicalPage (es ! i)))) [0..<length es] bm = Inr bm' \<and>
     bitmap_ok bm' \<and> marked bm' = marked bm - set fs \<and> nbits bm' = nbits bm"
proof -
  have p: "sint (physicalPage (es ! i)) = int (fs ! i)" if "i < length es" for i
  proof -
    have f: "unat (physicalPage (es ! i)) = fs ! i" using that assms(4) by (auto simp: frames_of_def)
    have "length fs = length es" using assms(4) by auto
    then have "fs ! i < NumPhysPages" using that assms(3) by (metis lessThan_iff nth_mem subsetD)
    moreover have "uint (physicalPage (es ! i)) = int (fs ! i)" unfolding f [symmetric] by simp
    ultimately show ?thesis by (simp add: sint_cases bit_31_iff)
  qed
  have "iter_res (\<lambda>i bm. BitMap_Clear bm (sint (physicalPage (es ! i)))) is bm =
      iter_res (\<lambda>x b. BitMap_Clear b x) (map (\<lambda>i. int (fs ! i)) is) bm" if "set is \<subseteq> {..<length es}" for "is" bm
    using that by (induction "is" arbitrary: bm) (auto simp: p intro!: rbind_cong)
  from this [of "[0..<length es]" bm] have "iter_res (\<lambda>i bm. BitMap_Clear bm (sint (physicalPage (es ! i)))) [0..<length es] bm =
      iter_res (\<lambda>x b. BitMap_Clear b x) (map int (map (\<lambda>i. fs ! i) [0..<length es])) bm" by (simp add: comp_def atLeast0LessThan)
  moreover have "map (\<lambda>i. fs ! i) [0..<length es] = fs" using assms(4) map_nth [of fs] by auto
  ultimately show ?thesis using bits.free_many [OF assms(1), of fs] assms(2,3) by auto
qed

definition two_spaces :: Machine where
  "two_spaces = (Machine_new 0)\<lparr>ptables := [0 \<mapsto> [new_entry 0 5], 1 \<mapsto> [new_entry 0 6]]\<rparr>"

lemma two_spaces_ok:
  "space_ok \<lparr>as_pageTable = 0, numPages = 1\<rparr> two_spaces [5]"
  "space_ok \<lparr>as_pageTable = 1, numPages = 1\<rparr> two_spaces [6]"
  "tlb two_spaces = None" "mainMemory two_spaces = (\<lambda>_. 0)"
  by (simp_all add: space_ok_def two_spaces_def frames_of_def new_entry_def Machine_new_def)

text \<open>
  Deleting an address space gives its frames back: after the destructor exactly the
  frames of the space are free again, and its page table is gone.
\<close>

theorem AddrSpace_delete_frees:
  assumes "bitmap_ok bm" "nbits bm = NumPhysPages" "space_ok sp m fs"
  shows "\<exists>bm' m'. AddrSpace_delete sp bm m = Inr (bm', m') \<and> bitmap_ok bm' \<and>
     marked bm' = marked bm - set fs \<and> ptables m' (as_pageTable sp) = None \<and> mainMemory m' = mainMemory m"
proof -
  obtain es where es: "ptables m (as_pageTable sp) = Some es" "length es = numPages sp" "frames_of es = fs"
    "set fs \<subseteq> {..<NumPhysPages}" using assms(3) by (auto simp: space_ok_def)
  from clear_entries [OF assms(1,2) es(4,3)] es(1,2) show ?thesis by (auto simp: AddrSpace_delete_def)
qed

theorem AddrSpace_delete_frees_witness:
  "\<exists>bm bm' m'. bitmap_ok bm \<and> AddrSpace_delete \<lparr>as_pageTable = 0, numPages = 1\<rparr> bm two_spaces = Inr (bm', m') \<and>
     5 \<notin> marked bm'"
proof -
  obtain bm where bm: "bitmap_ok bm" "nbits bm = NumPhysPages" by (rule all_frames_free)
  from AddrSpace_delete_frees [OF bm two_spaces_ok(1)] bm(1) show ?thesis by auto
qed

lemma iter_WriteRegister:
  "n \<le> NumTotalRegs \<Longrightarrow> iter_res (\<lambda>i m. WriteRegister m (int i) 0) [0..<n] m =
     Inr (m\<lparr>regs := (\<lambda>r. if r < n then 0 else regs m r)\<rparr>)"
proof (induction n)
  case (Suc n)
  then show ?case by (auto simp: iter_res_append WriteRegister_def fun_eq_iff)
qed simp

lemma start_state:
  assumes "space_ok sp m fs" "tlb m = None"
  shows "\<exists>m1. InitRegisters sp m = Inr m1 \<and> cpu_ok (RestoreState sp m1) \<and>
     entries (RestoreState sp m1) = the (ptables m (as_pageTable sp)) \<and>
     regs m1 PCReg = 0 \<and> regs m1 NextPCReg = 4 \<and> regs m1 StackReg = word_of_nat (numPages sp * PageSize) - 16"
proof -
  define m1 where "m1 = m\<lparr>regs := (\<lambda>r. if r < NumTotalRegs then 0 else regs m r)
     (PCReg := 0, NextPCReg := 4, StackReg := word_of_nat (numPages sp) * word_of_nat PageSize - 16)\<rparr>"
  have i: "InitRegisters sp m = Inr m1"
    unfolding InitRegisters_def iter_WriteRegister [OF le_refl] by (simp add: WriteRegister_def m1_def)
  obtain es where es: "ptables m (as_pageTable sp) = Some es" "length es = numPages sp"
    using assms(1) by (auto simp: space_ok_def)
  have r: "regs m1 PCReg = 0" "regs m1 NextPCReg = 4" "regs m1 0 = 0" "regs m1 LoadReg = 0"
    "regs m1 StackReg = word_of_nat (numPages sp * PageSize) - 16" by (simp_all add: m1_def)
  have "tlb m1 = None" "ptables m1 = ptables m" using assms(2) by (simp_all add: m1_def)
  then have "cpu_ok (RestoreState sp m1)" "entries (RestoreState sp m1) = es"
    using r es by (simp_all add: RestoreState_def cpu_ok_def trans_ok_def entries_def)
  then show ?thesis using i r es by simp
qed

text \<open>
  A process starts in a valid machine state. After \<open>InitRegisters\<close> and \<open>RestoreState\<close> the
  invariant of the instruction simulator holds, the program counters are 0 and 4, and the
  stack pointer is 16 bytes below the end of the address space.
\<close>

theorem AddrSpace_start_state:
  assumes "space_ok sp m fs" "tlb m = None"
  shows "\<exists>m1. InitRegisters sp m = Inr m1 \<and> cpu_ok (RestoreState sp m1) \<and>
     entries (RestoreState sp m1) = the (ptables m (as_pageTable sp)) \<and>
     regs m1 PCReg = 0 \<and> regs m1 NextPCReg = 4 \<and> regs m1 StackReg = word_of_nat (numPages sp * PageSize) - 16"
  by (rule start_state [OF assms])

theorem AddrSpace_start_state_witness:
  "\<exists>m1. InitRegisters \<lparr>as_pageTable = 0, numPages = 1\<rparr> two_spaces = Inr m1 \<and>
     cpu_ok (RestoreState \<lparr>as_pageTable = 0, numPages = 1\<rparr> m1) \<and> regs m1 StackReg = 112"
  using AddrSpace_start_state [OF two_spaces_ok(1,3)] by auto

section \<open>Isolation of address spaces\<close>

text \<open>Any number of user instructions, each completed or trapped.\<close>

inductive user_steps :: "Machine \<Rightarrow> Machine \<Rightarrow> bool" where
  user_refl: "user_steps m m"
| user_step: "user_steps m m1 \<Longrightarrow> OneInstruction m1 = Inr out \<Longrightarrow> user_steps m (machine_of out)"

lemma confined_trans:
  "confined m m1 \<Longrightarrow> remap m m1 \<Longrightarrow> confined m1 m2 \<Longrightarrow> confined m m2"
  unfolding confined_def using remap_writable by metis

lemma user_steps_confined:
  "user_steps m m' \<Longrightarrow> cpu_ok m \<Longrightarrow> cpu_ok m' \<and> remap m m' \<and> confined m m'"
proof (induction rule: user_steps.induct)
  case (user_refl m)
  then show ?case by (simp add: cpu_ok_def confined_def)
next
  case (user_step m m1 out)
  then have m1: "cpu_ok m1" "remap m m1" "confined m m1" by auto
  have "\<exists>m'. machine_of out = m' \<and> cpu_ok m' \<and> remap m1 m' \<and> confined m1 m'"
    using OneInstruction_invariant [OF m1(1) user_step.hyps(2)] by simp
  then show ?case using remap_trans [OF m1(2)] confined_trans [OF m1(3,2)] by auto
qed

text \<open>
  C1: address spaces are isolated from each other. Start a process in one address space and
  let it execute any number of instructions, whatever they are: the machine stays in a valid
  state, and no byte of the virtual memory of another address space, whose frames are
  different ones, changes.
\<close>

theorem process_isolation:
  assumes "space_ok sp1 m fs1" "space_ok sp2 m fs2" "set fs1 \<inter> set fs2 = {}" "tlb m = None"
    and "InitRegisters sp1 m = Inr m1" "user_steps (RestoreState sp1 m1) m'"
  shows "cpu_ok m' \<and> (\<forall>y < numPages sp2 * PageSize. mainMemory m' (vaddr fs2 y) = mainMemory m1 (vaddr fs2 y))"
proof -
  have st: "cpu_ok (RestoreState sp1 m1)" "entries (RestoreState sp1 m1) = the (ptables m (as_pageTable sp1))"
    using start_state [OF assms(1,4)] assms(5) by auto
  have c: "cpu_ok m'" "confined (RestoreState sp1 m1) m'"
    using user_steps_confined [OF assms(6) st(1)] by auto
  obtain es where es: "ptables m (as_pageTable sp1) = Some es" "frames_of es = fs1"
    using assms(1) by (auto simp: space_ok_def)
  have w: "writable (RestoreState sp1 m1) \<subseteq> set fs1"
    unfolding writable_def st(2) es(1) by (auto simp: frames_of_def es(2) [symmetric])
  have "length fs2 = numPages sp2" using assms(2) by (auto simp: space_ok_def)
  then have "vaddr fs2 y div PageSize \<in> set fs2" if "y < numPages sp2 * PageSize" for y
    using page_less [of y fs2] that by simp
  then have "mainMemory m' (vaddr fs2 y) = mainMemory (RestoreState sp1 m1) (vaddr fs2 y)"
    if "y < numPages sp2 * PageSize" for y
    using c(2) w assms(3) that unfolding confined_def by blast
  then show ?thesis using c(1) by (simp add: RestoreState_def)
qed

theorem process_isolation_witness:
  "\<exists>m1. InitRegisters \<lparr>as_pageTable = 0, numPages = 1\<rparr> two_spaces = Inr m1 \<and>
     (\<forall>m'. user_steps (RestoreState \<lparr>as_pageTable = 0, numPages = 1\<rparr> m1) m' \<longrightarrow>
        cpu_ok m' \<and> mainMemory m' (vaddr [6] 100) = mainMemory m1 (vaddr [6] 100))"
proof -
  obtain m1 where i: "InitRegisters \<lparr>as_pageTable = 0, numPages = 1\<rparr> two_spaces = Inr m1"
    using start_state [OF two_spaces_ok(1,3)] by blast
  have "cpu_ok m' \<and> mainMemory m' (vaddr [6] 100) = mainMemory m1 (vaddr [6] 100)"
    if "user_steps (RestoreState \<lparr>as_pageTable = 0, numPages = 1\<rparr> m1) m'" for m'
    using process_isolation [OF two_spaces_ok(1,2) _ two_spaces_ok(3) i that] by simp
  then show ?thesis using i by blast
qed

end
