(* ===== verification/Interrupts.thy ===== *)
theory Interrupts
  imports Linked_List Mips_Sim
begin

text \<open>
  The simulation of hardware interrupts and of simulated time (\<open>machine/interrupt.h\<close>,
  \<open>machine/interrupt.cc\<close>, \<open>machine/stats.cc\<close>): the queue of pending interrupts, sorted by the time
  they are due, the clock, and the points where interrupts are taken. What an interrupt
  handler does is a parameter, constrained by the interface \<open>interrupt_handlers\<close>; the
  device simulators provide it.
\<close>

named_theorems sim \<open>rules for the interrupt simulation\<close>

section \<open>State\<close>

datatype IntStatus = IntOff | IntOn
datatype MachineStatus = IdleMode | SystemMode | UserMode
datatype IntType = TimerInt | DiskInt | ConsoleWriteInt | ConsoleReadInt | NetworkSendInt | NetworkRecvInt

text \<open>The functions of the device simulators that are installed as interrupt handlers.\<close>

datatype Handler = TimerHandler | DiskDone | ConsoleReadPoll | ConsoleWriteDone | NetworkReadPoll | NetworkSendDone

record PendingInterrupt =
  handler :: Handler
  arg :: int
  p_when :: int
  p_type :: IntType

record Statistics =
  totalTicks :: int
  idleTicks :: int
  systemTicks :: int
  userTicks :: int
  numDiskReads :: int
  numDiskWrites :: int
  numConsoleCharsRead :: int
  numConsoleCharsWritten :: int
  numPageFaults :: int
  numPacketsSent :: int
  numPacketsRecvd :: int

abbreviation UserTick :: int where "UserTick \<equiv> 1"
abbreviation SystemTick :: int where "SystemTick \<equiv> 10"
abbreviation RotationTime :: int where "RotationTime \<equiv> 500"
abbreviation SeekTime :: int where "SeekTime \<equiv> 500"
abbreviation ConsoleTime :: int where "ConsoleTime \<equiv> 100"
abbreviation NetworkTime :: int where "NetworkTime \<equiv> 100"
abbreviation TimerTicks :: int where "TimerTicks \<equiv> 100"

definition Statistics_new :: Statistics where
  "Statistics_new = \<lparr>totalTicks = 0, idleTicks = 0, systemTicks = 0, userTicks = 0, numDiskReads = 0,
     numDiskWrites = 0, numConsoleCharsRead = 0, numConsoleCharsWritten = 0, numPageFaults = 0,
     numPacketsSent = 0, numPacketsRecvd = 0\<rparr>"

text \<open>
  The interrupt simulation with what it reaches: the statistics, the simulated machine (null
  when no user program runs) and the state of the devices and the kernel (\<open>world\<close>).
\<close>

record 's Interrupt =
  level :: IntStatus
  pending :: "PendingInterrupt klist"
  inHandler :: bool
  yieldOnReturn :: bool
  status :: MachineStatus
  stats :: Statistics
  cpu :: "Machine option"
  world :: 's

definition Interrupt_new :: "Statistics \<Rightarrow> Machine option \<Rightarrow> 's \<Rightarrow> 's Interrupt" where
  "Interrupt_new st m w = \<lparr>level = IntOff, pending = [], inHandler = False, yieldOnReturn = False,
     status = SystemMode, stats = st, cpu = m, world = w\<rparr>"

section \<open>Operations\<close>

definition ChangeLevel :: "IntStatus \<Rightarrow> 's Interrupt \<Rightarrow> 's Interrupt" where
  "ChangeLevel now s = s\<lparr>level := now\<rparr>"

definition YieldOnReturn :: "'s Interrupt \<Rightarrow> 's Interrupt res" where
  "YieldOnReturn s = rbind (ASSERT (inHandler s)) (\<lambda>_. Inr (s\<lparr>yieldOnReturn := True\<rparr>))"

definition Schedule :: "Handler \<Rightarrow> int \<Rightarrow> int \<Rightarrow> IntType \<Rightarrow> 's Interrupt \<Rightarrow> 's Interrupt res" where
  "Schedule h a fromNow ty s =
     (let w = totalTicks (stats s) + fromNow;
          toOccur = \<lparr>handler = h, arg = a, p_when = w, p_type = ty\<rparr>
      in rbind (ASSERT (0 < fromNow)) (\<lambda>_.
           Inr (s\<lparr>pending := kl_insert (pending s) (Some toOccur) w\<rparr>)))"

text \<open>Running the handler of one interrupt, with the state saved and restored around it.\<close>

definition invoke ::
  "(Handler \<Rightarrow> int \<Rightarrow> 's Interrupt \<Rightarrow> 's Interrupt res) \<Rightarrow> PendingInterrupt \<Rightarrow> 's Interrupt \<Rightarrow> 's Interrupt res" where
  "invoke call toOccur s =
     (let old = status s
      in rbind (case cpu s of None \<Rightarrow> Inr s
                | Some m \<Rightarrow> rbind (DelayedLoad m 0 0) (\<lambda>m'. Inr (s\<lparr>cpu := Some m'\<rparr>))) (\<lambda>s1.
         rbind (call (handler toOccur) (arg toOccur) (s1\<lparr>inHandler := True, status := SystemMode\<rparr>)) (\<lambda>s2.
           Inr (s2\<lparr>status := old, inHandler := False\<rparr>))))"

definition CheckIfDue ::
  "(Handler \<Rightarrow> int \<Rightarrow> 's Interrupt \<Rightarrow> 's Interrupt res) \<Rightarrow> bool \<Rightarrow> 's Interrupt \<Rightarrow> (bool \<times> 's Interrupt) res" where
  "CheckIfDue call advanceClock s =
     rbind (ASSERT (level s = IntOff)) (\<lambda>_.
       case kl_remove (pending s) of
         (Some toOccur, Some w, rest) \<Rightarrow>
           (let now = totalTicks (stats s);
                s1 = s\<lparr>pending := rest\<rparr>;
                putBack = (\<lambda>s'. s'\<lparr>pending := kl_insert rest (Some toOccur) w\<rparr>)
            in if \<not> advanceClock \<and> now < w then Inr (False, putBack s1)
               else let s2 = (if advanceClock \<and> now < w
                              then s1\<lparr>stats := (stats s1)\<lparr>idleTicks := idleTicks (stats s1) + (w - now),
                                                        totalTicks := w\<rparr>\<rparr>
                              else s1)
                    in if status s = IdleMode \<and> p_type toOccur = TimerInt \<and> rest = []
                       then Inr (False, putBack s2)
                       else rbind (invoke call toOccur s2) (\<lambda>s3. Inr (True, s3)))
       | (_, _, rest) \<Rightarrow> Inr (False, s\<lparr>pending := rest\<rparr>))"

text \<open>\<open>while (CheckIfDue(FALSE)) ;\<close>\<close>

fun fire_due ::
  "(Handler \<Rightarrow> int \<Rightarrow> 's Interrupt \<Rightarrow> 's Interrupt res) \<Rightarrow> nat \<Rightarrow> 's Interrupt \<Rightarrow> 's Interrupt res" where
  "fire_due call 0 s = Inl NoFuel"
| "fire_due call (Suc n) s = rbind (CheckIfDue call False s) (\<lambda>(fired, s').
     if fired then fire_due call n s' else Inr s')"

text \<open>
  The bound on that loop: one round for each pending interrupt and one to see that none is
  left. It is enough because handlers schedule only in the future.
\<close>

definition rounds :: "'s Interrupt \<Rightarrow> nat" where
  "rounds s = Suc (length (pending s))"

definition advance_time :: "'s Interrupt \<Rightarrow> 's Interrupt" where
  "advance_time s = s\<lparr>stats :=
     (if status s = SystemMode
      then (stats s)\<lparr>totalTicks := totalTicks (stats s) + SystemTick,
                    systemTicks := systemTicks (stats s) + SystemTick\<rparr>
      else (stats s)\<lparr>totalTicks := totalTicks (stats s) + UserTick,
                    userTicks := userTicks (stats s) + UserTick\<rparr>)\<rparr>"

text \<open>\<open>yield\<close> is \<open>currentThread->Yield()\<close>, which returns when the thread runs again.\<close>

definition OneTick ::
  "(Handler \<Rightarrow> int \<Rightarrow> 's Interrupt \<Rightarrow> 's Interrupt res) \<Rightarrow> ('s Interrupt \<Rightarrow> 's Interrupt res) \<Rightarrow>
   's Interrupt \<Rightarrow> 's Interrupt res" where
  "OneTick call yield s =
     (let old = status s
      in rbind (fire_due call (rounds s) (ChangeLevel IntOff (advance_time s))) (\<lambda>s1.
           let s2 = ChangeLevel IntOn s1
           in if yieldOnReturn s2
              then rbind (yield (s2\<lparr>yieldOnReturn := False, status := SystemMode\<rparr>)) (\<lambda>s3.
                     Inr (s3\<lparr>status := old\<rparr>))
              else Inr s2))"

definition SetLevel ::
  "(Handler \<Rightarrow> int \<Rightarrow> 's Interrupt \<Rightarrow> 's Interrupt res) \<Rightarrow> ('s Interrupt \<Rightarrow> 's Interrupt res) \<Rightarrow>
   IntStatus \<Rightarrow> 's Interrupt \<Rightarrow> (IntStatus \<times> 's Interrupt) res" where
  "SetLevel call yield now s =
     (let old = level s
      in rbind (ASSERT (now = IntOff \<or> \<not> inHandler s)) (\<lambda>_.
         rbind (if now = IntOn \<and> old = IntOff then OneTick call yield (ChangeLevel now s)
                else Inr (ChangeLevel now s)) (\<lambda>s'. Inr (old, s'))))"

definition Enable ::
  "(Handler \<Rightarrow> int \<Rightarrow> 's Interrupt \<Rightarrow> 's Interrupt res) \<Rightarrow> ('s Interrupt \<Rightarrow> 's Interrupt res) \<Rightarrow>
   's Interrupt \<Rightarrow> 's Interrupt res" where
  "Enable call yield s = rbind (SetLevel call yield IntOn s) (\<lambda>(_, s'). Inr s')"

text \<open>In \<open>Idle\<close>, \<open>Halted\<close> is the call of \<open>Halt()\<close>, which never returns.\<close>

datatype idle_result = Halted | Resumed

definition Idle ::
  "(Handler \<Rightarrow> int \<Rightarrow> 's Interrupt \<Rightarrow> 's Interrupt res) \<Rightarrow> 's Interrupt \<Rightarrow> (idle_result \<times> 's Interrupt) res" where
  "Idle call s = rbind (CheckIfDue call True (s\<lparr>status := IdleMode\<rparr>)) (\<lambda>(fired, s1).
     if fired then rbind (fire_due call (rounds s1) s1) (\<lambda>s2.
         Inr (Resumed, s2\<lparr>yieldOnReturn := False, status := SystemMode\<rparr>))
     else Inr (Halted, s1))"

section \<open>Well-formed states\<close>

definition now :: "'s Interrupt \<Rightarrow> int" where
  "now s = totalTicks (stats s)"

definition queue_ok :: "PendingInterrupt klist \<Rightarrow> bool" where
  "queue_ok q \<longleftrightarrow> sorted (map fst q) \<and> (\<forall>(k, it)\<in>set q. \<exists>p. it = Some p \<and> p_when p = k)"

definition sim_ok :: "'s Interrupt \<Rightarrow> bool" where
  "sim_ok s \<longleftrightarrow> queue_ok (pending s) \<and>
     totalTicks (stats s) = idleTicks (stats s) + systemTicks (stats s) + userTicks (stats s) \<and>
     (case cpu s of None \<Rightarrow> True | Some m \<Rightarrow> unat (regs m LoadReg) < 32)"

text \<open>The pending interrupts whose time has come.\<close>

definition due :: "'s Interrupt \<Rightarrow> nat" where
  "due s = length (filter (\<lambda>x. fst x \<le> now s) (pending s))"

definition insert_all :: "PendingInterrupt klist \<Rightarrow> PendingInterrupt klist \<Rightarrow> PendingInterrupt klist" where
  "insert_all xs q = fold (\<lambda>(k, it) q. kl_insert q it k) xs q"

lemma insert_all_simps [simp]:
  "insert_all [] q = q" "insert_all ((k, it) # xs) q = insert_all xs (kl_insert q it k)"
  by (simp_all add: insert_all_def)

lemma set_kl_insert: "set (kl_insert q it k) = insert (k, it) (set q)"
  by (metis mset_kl_insert set_mset_mset set_mset_add_mset_insert)

lemma queue_ok_insert:
  "queue_ok q \<Longrightarrow> p_when p = k \<Longrightarrow> queue_ok (kl_insert q (Some p) k)"
  using sorted_kl_insert [of q "Some p" k] by (auto simp: queue_ok_def set_kl_insert)

lemma filter_kl_insert_skip: "\<not> P (k, it) \<Longrightarrow> filter P (kl_insert q it k) = filter P q"
  by (induction q it k rule: kl_insert.induct) auto

text \<open>What a handler may do to the interrupt simulation: schedule interrupts in the future.\<close>

definition handler_step :: "'s Interrupt \<Rightarrow> 's Interrupt \<Rightarrow> bool" where
  "handler_step s s' \<longleftrightarrow>
     (\<exists>new. pending s' = insert_all new (pending s) \<and>
        (\<forall>(k, it)\<in>set new. now s < k \<and> (\<exists>p. it = Some p \<and> p_when p = k))) \<and>
     totalTicks (stats s') = totalTicks (stats s) \<and> idleTicks (stats s') = idleTicks (stats s) \<and>
     systemTicks (stats s') = systemTicks (stats s) \<and> userTicks (stats s') = userTicks (stats s) \<and>
     level s' = level s \<and> cpu s' = cpu s"

lemma insert_all_ok:
  "queue_ok q \<Longrightarrow> \<forall>(k, it)\<in>set new. n < k \<and> (\<exists>p. it = Some p \<and> p_when p = k) \<Longrightarrow>
   queue_ok (insert_all new q) \<and> filter (\<lambda>x. fst x \<le> n) (insert_all new q) = filter (\<lambda>x. fst x \<le> n) q"
proof (induction new arbitrary: q)
  case (Cons x new)
  obtain k p where x: "x = (k, Some p)" "n < k" "p_when p = k" using Cons.prems(2) by auto
  have "queue_ok (kl_insert q (Some p) k)" using queue_ok_insert Cons.prems(1) x(3) by blast
  from Cons.IH [OF this] Cons.prems(2) show ?case
    using filter_kl_insert_skip [of "\<lambda>x. fst x \<le> n" k "Some p" q] x by simp
qed simp

lemma handler_step_ok:
  assumes "handler_step s s'" "sim_ok s"
  shows "sim_ok s'" "due s' = due s" "now s' = now s"
proof -
  obtain new where new: "pending s' = insert_all new (pending s)"
    "\<forall>(k, it)\<in>set new. now s < k \<and> (\<exists>p. it = Some p \<and> p_when p = k)"
    using assms(1) unfolding handler_step_def by blast
  have "queue_ok (pending s)" using assms(2) by (simp add: sim_ok_def)
  note ins = insert_all_ok [OF this new(2)]
  show n: "now s' = now s" using assms(1) by (simp add: handler_step_def now_def)
  show "due s' = due s" using ins by (simp add: due_def n new(1))
  show "sim_ok s'" using ins assms by (simp add: sim_ok_def handler_step_def new(1))
qed

lemma handler_step_refl [simp]: "handler_step s s"
  by (auto simp: handler_step_def intro!: exI [of _ "[]"])

lemma insert_all_append: "insert_all (xs @ ys) q = insert_all ys (insert_all xs q)"
  by (simp add: insert_all_def)

lemma handler_step_trans: "handler_step s s1 \<Longrightarrow> handler_step s1 s2 \<Longrightarrow> handler_step s s2"
  unfolding handler_step_def now_def
  by (elim conjE exE) (intro conjI exI, rule insert_all_append [symmetric, THEN trans [rotated]], auto)

lemma handler_step_Schedule:
  assumes "0 < fromNow"
  shows "\<exists>s'. Schedule h a fromNow ty s = Inr s' \<and> handler_step s s' \<and> world s' = world s \<and>
    inHandler s' = inHandler s \<and> status s' = status s"
proof -
  let ?p = "\<lparr>handler = h, arg = a, p_when = totalTicks (stats s) + fromNow, p_type = ty\<rparr>"
  have "handler_step s (s\<lparr>pending := kl_insert (pending s) (Some ?p) (totalTicks (stats s) + fromNow)\<rparr>)"
    using assms unfolding handler_step_def
    by (auto simp: now_def intro!: exI [of _ "[(totalTicks (stats s) + fromNow, Some ?p)]"])
  then show ?thesis using assms by (simp add: Schedule_def Let_def)
qed


section \<open>The interface of the interrupt handlers\<close>

text \<open>
  Device handlers run with interrupts off, inside \<open>CheckIfDue\<close>. They do not fail, they do not
  turn interrupts on or move the clock, and they schedule further interrupts only in the
  future. \<open>wok\<close> is the invariant of the device state they rely on.
\<close>

definition sim_ready :: "('s \<Rightarrow> bool) \<Rightarrow> 's Interrupt \<Rightarrow> bool" where
  "sim_ready wok s \<longleftrightarrow> sim_ok s \<and> wok (world s) \<and> level s = IntOff"

locale interrupt_handlers =
  fixes call :: "Handler \<Rightarrow> int \<Rightarrow> 's Interrupt \<Rightarrow> 's Interrupt res" and wok :: "'s \<Rightarrow> bool"
  assumes call_ok: "sim_ok s \<Longrightarrow> wok (world s) \<Longrightarrow> inHandler s \<Longrightarrow> level s = IntOff \<Longrightarrow> status s = SystemMode \<Longrightarrow>
     \<exists>s'. call h a s = Inr s' \<and> handler_step s s' \<and> wok (world s')"
begin

lemma invoke_ok:
  assumes "sim_ready wok s"
  shows "\<exists>s'. invoke call p s = Inr s' \<and> sim_ready wok s' \<and> due s' = due s \<and> now s' = now s \<and>
     status s' = status s \<and> \<not> inHandler s'"
proof -
  have "\<exists>s1. (case cpu s of None \<Rightarrow> Inr s
      | Some m \<Rightarrow> rbind (DelayedLoad m 0 0) (\<lambda>m'. Inr (s\<lparr>cpu := Some m'\<rparr>))) = Inr s1 \<and>
      sim_ok s1 \<and> world s1 = world s \<and> level s1 = level s \<and> stats s1 = stats s \<and> pending s1 = pending s"
  proof (cases "cpu s")
    case (Some m)
    then have "unat (regs m LoadReg) < 32" using assms by (simp add: sim_ready_def sim_ok_def)
    from DelayedLoad_eq [OF this, of 0 0] obtain m' where "DelayedLoad m 0 0 = Inr m'" "regs m' LoadReg = 0" by blast
    then show ?thesis using assms Some by (simp add: sim_ready_def sim_ok_def)
  qed (use assms in \<open>simp add: sim_ready_def\<close>)
  then obtain s1 where s1: "(case cpu s of None \<Rightarrow> Inr s
      | Some m \<Rightarrow> rbind (DelayedLoad m 0 0) (\<lambda>m'. Inr (s\<lparr>cpu := Some m'\<rparr>))) = Inr s1"
      "sim_ok s1" "world s1 = world s" "level s1 = level s" "stats s1 = stats s" "pending s1 = pending s" by blast
  define s2 where "s2 = s1\<lparr>inHandler := True, status := SystemMode\<rparr>"
  have s2: "sim_ok s2" "wok (world s2)" "inHandler s2" "level s2 = IntOff" "status s2 = SystemMode"
    "due s2 = due s" "now s2 = now s"
    using s1 assms by (simp_all add: s2_def sim_ok_def sim_ready_def due_def now_def)
  obtain s3 where s3: "call (handler p) (arg p) s2 = Inr s3" "handler_step s2 s3" "wok (world s3)"
    using call_ok [OF s2(1-5)] by blast
  define s4 where "s4 = s3\<lparr>status := status s, inHandler := False\<rparr>"
  have "invoke call p s = Inr s4"
    unfolding invoke_def Let_def s1(1) rbind_Inr s2_def [symmetric] s3(1) s4_def ..
  moreover have "sim_ready wok s4" "due s4 = due s" "now s4 = now s" "status s4 = status s" "\<not> inHandler s4"
    using handler_step_ok [OF s3(2) s2(1)] s3 s2
    by (simp_all add: s4_def sim_ready_def sim_ok_def due_def now_def handler_step_def)
  ultimately show ?thesis by blast
qed

lemma CheckIfDue_empty:
  assumes "sim_ready wok s" "pending s = []"
  shows "CheckIfDue call adv s = Inr (False, s)"
proof -
  have "s\<lparr>pending := []\<rparr> = s" using assms(2) by (cases s) simp
  then show ?thesis using assms by (simp add: CheckIfDue_def sim_ready_def)
qed

lemma sim_ready_pending: "sim_ready wok s \<Longrightarrow> queue_ok q \<Longrightarrow> sim_ready wok (s\<lparr>pending := q\<rparr>)"
  by (simp add: sim_ready_def sim_ok_def)

lemma sim_ready_queue: "sim_ready wok s \<Longrightarrow> pending s = x # rest \<Longrightarrow>
   \<exists>p. x = (p_when p, Some p) \<and> queue_ok rest \<and> (\<forall>y\<in>set rest. p_when p \<le> fst y)"
  by (auto simp: sim_ready_def sim_ok_def queue_ok_def)

lemma CheckIfDue_early:
  assumes "sim_ready wok s" "pending s = (k, Some p) # rest" "now s < k"
  shows "\<exists>s'. CheckIfDue call False s = Inr (False, s') \<and> sim_ready wok s' \<and> due s' = 0 \<and> now s' = now s \<and>
     status s' = status s \<and> mset (pending s') = mset (pending s)"
proof -
  have q: "p_when p = k" "queue_ok rest" "\<forall>y\<in>set rest. k \<le> fst y" using sim_ready_queue [OF assms(1,2)] by auto
  let ?s = "s\<lparr>pending := kl_insert rest (Some p) k\<rparr>"
  have "CheckIfDue call False s = Inr (False, ?s)"
    using assms by (simp add: CheckIfDue_def sim_ready_def now_def Let_def)
  moreover have "sim_ready wok ?s" using sim_ready_pending [OF assms(1) queue_ok_insert [OF q(2,1)]] by simp
  moreover have "due ?s = 0"
    using q(3) assms(3) by (auto simp: due_def now_def filter_empty_conv set_kl_insert)
  ultimately show ?thesis using assms(2) by (auto simp: now_def)
qed

lemma CheckIfDue_fires:
  assumes "sim_ready wok s" "pending s = (k, Some p) # rest" "k \<le> now s"
    and "\<not> (status s = IdleMode \<and> p_type p = TimerInt \<and> rest = [])"
  shows "\<exists>s'. CheckIfDue call False s = Inr (True, s') \<and> sim_ready wok s' \<and> Suc (due s') = due s \<and> now s' = now s \<and>
     status s' = status s"
proof -
  have q: "queue_ok rest" using sim_ready_queue [OF assms(1,2)] by auto
  let ?s = "s\<lparr>pending := rest\<rparr>"
  obtain s' where s': "invoke call p ?s = Inr s'" "sim_ready wok s'" "due s' = due ?s" "now s' = now ?s" "status s' = status ?s"
    using invoke_ok [OF sim_ready_pending [OF assms(1) q]] by blast
  have "CheckIfDue call False s = Inr (True, s')"
    using assms s'(1) by (simp add: CheckIfDue_def sim_ready_def now_def Let_def)
  moreover have "Suc (due ?s) = due s" using assms(2,3) by (simp add: due_def now_def)
  ultimately show ?thesis using s' by (auto simp: now_def)
qed

lemma fire_due_ok:
  "sim_ready wok s \<Longrightarrow> status s \<noteq> IdleMode \<Longrightarrow> due s < n \<Longrightarrow>
   \<exists>s'. fire_due call n s = Inr s' \<and> sim_ready wok s' \<and> due s' = 0 \<and> now s' = now s \<and> status s' = status s"
proof (induction n arbitrary: s)
  case (Suc n)
  show ?case
  proof (cases "pending s")
    case Nil
    then show ?thesis using Suc.prems CheckIfDue_empty [OF Suc.prems(1) Nil] by (simp add: due_def)
  next
    case (Cons x rest)
    obtain p where x: "x = (p_when p, Some p)" using sim_ready_queue [OF Suc.prems(1) Cons] by blast
    show ?thesis
    proof (cases "now s < p_when p")
      case True
      then show ?thesis using CheckIfDue_early [OF Suc.prems(1), of "p_when p" p rest] Cons x by auto
    next
      case False
      then obtain s1 where s1: "CheckIfDue call False s = Inr (True, s1)" "sim_ready wok s1" "Suc (due s1) = due s"
        "now s1 = now s" "status s1 = status s"
        using CheckIfDue_fires [OF Suc.prems(1), of "p_when p" p rest] Cons x Suc.prems(2) by auto
      then show ?thesis using Suc.IH [OF s1(2)] Suc.prems(2,3) by auto
    qed
  qed
qed simp

lemma due_le: "due s \<le> length (pending s)"
  by (simp add: due_def)

lemma advance_time_ok:
  assumes "sim_ok s" "wok (world s)"
  shows "sim_ready wok (ChangeLevel IntOff (advance_time s))"
    "now (ChangeLevel IntOff (advance_time s)) = now s + (if status s = SystemMode then SystemTick else UserTick)"
    "pending (ChangeLevel IntOff (advance_time s)) = pending s"
    "status (ChangeLevel IntOff (advance_time s)) = status s"
  using assms by (auto simp: sim_ready_def ChangeLevel_def advance_time_def sim_ok_def now_def)

lemma OneTick_ok:
  assumes "sim_ok s" "wok (world s)" "status s \<noteq> IdleMode"
  shows "\<exists>s1. sim_ok s1 \<and> wok (world s1) \<and> due s1 = 0 \<and> level s1 = IntOn \<and> status s1 = status s \<and>
     now s1 = now s + (if status s = SystemMode then SystemTick else UserTick) \<and>
     OneTick call yield s =
       (if yieldOnReturn s1
        then rbind (yield (s1\<lparr>yieldOnReturn := False, status := SystemMode\<rparr>)) (\<lambda>s3. Inr (s3\<lparr>status := status s\<rparr>))
        else Inr s1)"
proof -
  let ?s = "ChangeLevel IntOff (advance_time s)"
  note a = advance_time_ok [OF assms(1,2)]
  have "due ?s < rounds s" using due_le [of ?s] by (simp add: rounds_def a(3))
  then obtain s1 where s1: "fire_due call (rounds s) ?s = Inr s1" "sim_ready wok s1" "due s1 = 0" "now s1 = now ?s"
    "status s1 = status ?s" using fire_due_ok [OF a(1)] assms(3) a(4) by auto
  have "sim_ok (ChangeLevel IntOn s1) \<and> wok (world (ChangeLevel IntOn s1)) \<and> due (ChangeLevel IntOn s1) = 0 \<and>
      level (ChangeLevel IntOn s1) = IntOn \<and> status (ChangeLevel IntOn s1) = status s \<and>
      now (ChangeLevel IntOn s1) = now s + (if status s = SystemMode then SystemTick else UserTick)"
    using s1 a by (simp add: ChangeLevel_def sim_ready_def sim_ok_def due_def now_def)
  moreover have "OneTick call yield s =
      (if yieldOnReturn (ChangeLevel IntOn s1)
       then rbind (yield ((ChangeLevel IntOn s1)\<lparr>yieldOnReturn := False, status := SystemMode\<rparr>))
              (\<lambda>s3. Inr (s3\<lparr>status := status s\<rparr>))
       else Inr (ChangeLevel IntOn s1))"
    unfolding OneTick_def Let_def s1(1) rbind_Inr ..
  ultimately show ?thesis by blast
qed

lemma CheckIfDue_fired:
  assumes "sim_ready wok s" "CheckIfDue call adv s = Inr (True, s')"
  shows "\<exists>p rest s0. pending s = (p_when p, Some p) # rest \<and> (\<forall>x\<in>set rest. p_when p \<le> fst x) \<and>
     invoke call p s0 = Inr s' \<and> pending s0 = rest \<and> world s0 = world s \<and>
     now s0 = (if adv then max (now s) (p_when p) else now s) \<and> p_when p \<le> now s0 \<and>
     sim_ready wok s' \<and> now s' = now s0"
proof (cases "pending s")
  case Nil
  then show ?thesis using CheckIfDue_empty [OF assms(1)] assms(2) by simp
next
  case (Cons x rest)
  then obtain p where p: "x = (p_when p, Some p)" "queue_ok rest" "\<forall>y\<in>set rest. p_when p \<le> fst y"
    using sim_ready_queue [OF assms(1)] by blast
  define s0 where "s0 = (if adv \<and> now s < p_when p
     then (s\<lparr>pending := rest\<rparr>)\<lparr>stats := (stats s)\<lparr>idleTicks := idleTicks (stats s) + (p_when p - now s),
            totalTicks := p_when p\<rparr>\<rparr> else s\<lparr>pending := rest\<rparr>)"
  have "invoke call p s0 = Inr s'" "\<not> (\<not> adv \<and> now s < p_when p)"
    using assms Cons p(1)
    by (auto simp: CheckIfDue_def sim_ready_def s0_def now_def Let_def rbind_eq_Inr split: if_splits)
  moreover have "sim_ready wok s0"
    using assms(1) p(2) by (simp add: s0_def sim_ready_def sim_ok_def now_def)
  moreover from this obtain s'' where "invoke call p s0 = Inr s''" "sim_ready wok s''" "now s'' = now s0"
    using invoke_ok by blast
  ultimately show ?thesis using Cons p
    by (intro exI [of _ p] exI [of _ rest] exI [of _ s0]) (auto simp: s0_def now_def)
qed

end

section \<open>Waiting for an interrupt\<close>

text \<open>
  \<open>while ((nextThread = scheduler->FindNextToRun()) == NULL) interrupt->Idle();\<close> of \<open>Thread::Sleep\<close>,
  where \<open>ready\<close> says that the ready list is not empty. \<open>Halted\<close> is the \<open>Halt()\<close> of \<open>Idle\<close>.
\<close>

fun wait_idle ::
  "(Handler \<Rightarrow> int \<Rightarrow> 's Interrupt \<Rightarrow> 's Interrupt res) \<Rightarrow> ('s \<Rightarrow> bool) \<Rightarrow> nat \<Rightarrow> 's Interrupt \<Rightarrow>
   (idle_result \<times> 's Interrupt) res" where
  "wait_idle call ready 0 s = Inl NoFuel"
| "wait_idle call ready (Suc n) s =
     (if ready (world s) then Inr (Resumed, s)
      else rbind (Idle call s) (\<lambda>(r, s').
             if r = Halted then Inr (Halted, s') else wait_idle call ready n s'))"

text \<open>The handler of the device interrupt \<open>p\<close> establishes \<open>Q\<close>, and every handler keeps it.\<close>

definition completes ::
  "(Handler \<Rightarrow> int \<Rightarrow> 's Interrupt \<Rightarrow> 's Interrupt res) \<Rightarrow> ('s \<Rightarrow> bool) \<Rightarrow> PendingInterrupt \<Rightarrow> ('s \<Rightarrow> bool) \<Rightarrow> bool" where
  "completes call wok p Q \<longleftrightarrow> p_type p \<noteq> TimerInt \<and>
     (\<forall>h a s s'. wok (world s) \<longrightarrow> Q (world s) \<longrightarrow> call h a s = Inr s' \<longrightarrow> Q (world s')) \<and>
     (\<forall>s s'. wok (world s) \<longrightarrow> call (handler p) (arg p) s = Inr s' \<longrightarrow> Q (world s'))"

lemma handler_step_keeps:
  assumes "handler_step s s'"
  shows "set (pending s) \<subseteq> set (pending s')"
proof -
  have "set q \<subseteq> set (insert_all new q)" for new and q :: "PendingInterrupt klist"
  proof (induction new arbitrary: q)
    case (Cons x new)
    show ?case using Cons.IH [of "kl_insert q (snd x) (fst x)"] by (cases x) (auto simp: set_kl_insert)
  qed simp
  then show "set (pending s) \<subseteq> set (pending s')" using assms by (metis handler_step_def)
qed

context interrupt_handlers
begin

lemma invoke_call:
  assumes "sim_ready wok s" "invoke call p s = Inr s'"
  shows "\<exists>s2 s3. world s2 = world s \<and> call (handler p) (arg p) s2 = Inr s3 \<and> world s' = world s3 \<and>
     set (pending s) \<subseteq> set (pending s')"
proof -
  obtain s1 s3 where s: "(case cpu s of None \<Rightarrow> Inr s
      | Some m \<Rightarrow> rbind (DelayedLoad m 0 0) (\<lambda>m'. Inr (s\<lparr>cpu := Some m'\<rparr>))) = Inr s1"
      "call (handler p) (arg p) (s1\<lparr>inHandler := True, status := SystemMode\<rparr>) = Inr s3"
      "s' = s3\<lparr>status := status s, inHandler := False\<rparr>"
    using assms(2) by (auto simp: invoke_def Let_def rbind_eq_Inr)
  let ?s2 = "s1\<lparr>inHandler := True, status := SystemMode\<rparr>"
  have "case cpu s1 of None \<Rightarrow> True | Some m \<Rightarrow> unat (regs m LoadReg) < 32"
  proof (cases "cpu s")
    case (Some m)
    then have "unat (regs m LoadReg) < 32" using assms(1) by (simp add: sim_ready_def sim_ok_def)
    from DelayedLoad_eq [OF this, of 0 0] obtain m' where "DelayedLoad m 0 0 = Inr m'" "regs m' LoadReg = 0" by blast
    then show ?thesis using s(1) Some by auto
  qed (use s(1) in simp)
  moreover have same: "world s1 = world s" "level s1 = level s" "stats s1 = stats s" "pending s1 = pending s"
    using s(1) by (auto simp: rbind_eq_Inr split: option.splits)
  ultimately have "sim_ok ?s2" "wok (world ?s2)" "level ?s2 = IntOff"
    using assms(1) by (simp_all add: sim_ready_def sim_ok_def)
  from call_ok [OF this(1,2) _ this(3), of "handler p" "arg p"] s(2) have "handler_step ?s2 s3" by simp
  then have "set (pending s) \<subseteq> set (pending s')" using handler_step_keeps same(4) s(3) by force
  then show ?thesis using s same(1) by (intro exI [of _ ?s2] exI [of _ s3]) simp
qed

text \<open>An interrupt stays in the queue until its handler has run.\<close>

lemma invoke_awaits:
  assumes Q: "completes call wok p Q"
    and s: "sim_ready wok s" "invoke call p' s = Inr s'"
    and x: "p' = p \<or> (t, Some p) \<in> set (pending s) \<or> Q (world s)"
  shows "(t, Some p) \<in> set (pending s') \<or> Q (world s')"
proof -
  have "wok (world s)" using s(1) by (simp add: sim_ready_def)
  then show ?thesis using invoke_call [OF s] x Q unfolding completes_def by (metis subsetD)
qed

lemma fire_due_awaits:
  assumes Q: "completes call wok p Q"
  shows "sim_ready wok s \<Longrightarrow> (t, Some p) \<in> set (pending s) \<or> Q (world s) \<Longrightarrow> due s < n \<Longrightarrow>
   \<exists>s'. fire_due call n s = Inr s' \<and> sim_ready wok s' \<and> now s' = now s \<and>
     (Q (world s') \<or> (t, Some p) \<in> set (pending s') \<and> due s' = 0)"
proof (induction n arbitrary: s)
  case (Suc n)
  show ?case
  proof (cases "pending s")
    case Nil
    then show ?thesis using Suc.prems CheckIfDue_empty [OF Suc.prems(1) Nil] by simp
  next
    case (Cons x rest)
    obtain p' where x: "x = (p_when p', Some p')" "queue_ok rest" "\<forall>y\<in>set rest. p_when p' \<le> fst y"
      using sim_ready_queue [OF Suc.prems(1) Cons] by blast
    consider (early) "now s < p_when p'" | (alone) "\<not> now s < p_when p'" "status s = IdleMode" "p_type p' = TimerInt" "rest = []"
      | (fires) "p_when p' \<le> now s" "\<not> (status s = IdleMode \<and> p_type p' = TimerInt \<and> rest = [])" by linarith
    then show ?thesis
    proof cases
      case early
      let ?s = "s\<lparr>pending := kl_insert rest (Some p') (p_when p')\<rparr>"
      have c: "CheckIfDue call False s = Inr (False, ?s)"
        using Suc.prems(1) early by (simp add: CheckIfDue_def sim_ready_def now_def Let_def Cons x(1))
      have "sim_ready wok ?s" using sim_ready_pending [OF Suc.prems(1) queue_ok_insert [OF x(2)]] by simp
      moreover have "(t, Some p) \<in> set (pending ?s) \<longleftrightarrow> (t, Some p) \<in> set (pending s)"
        by (auto simp: set_kl_insert Cons x(1))
      moreover have "due ?s = 0" using early x(3) by (auto simp: due_def now_def filter_empty_conv set_kl_insert)
      ultimately show ?thesis using c Suc.prems(2) by (auto simp: now_def)
    next
      case alone
      then have "Q (world s)" using Suc.prems(2) Q x(1) Cons by (auto simp: completes_def)
      moreover have "CheckIfDue call False s = Inr (False, s\<lparr>pending := pending s\<rparr>)"
        using Suc.prems(1) alone by (simp add: CheckIfDue_def sim_ready_def now_def Let_def Cons x(1))
      ultimately show ?thesis using Suc.prems(1) by simp
    next
      case fires
      let ?s = "s\<lparr>pending := rest\<rparr>"
      note r = sim_ready_pending [OF Suc.prems(1) x(2)]
      obtain s1 where s1: "invoke call p' ?s = Inr s1" "sim_ready wok s1" "due s1 = due ?s" "now s1 = now ?s"
        using invoke_ok [OF r] by blast
      have "p' = p \<or> (t, Some p) \<in> set (pending ?s) \<or> Q (world ?s)" using Suc.prems(2) Cons x(1) by auto
      from invoke_awaits [OF Q r s1(1) this] have "(t, Some p) \<in> set (pending s1) \<or> Q (world s1)" by blast
      moreover have "due s1 < n" using Suc.prems(3) s1(3) fires(1) by (simp add: due_def now_def Cons x(1))
      moreover have "CheckIfDue call False s = Inr (True, s1)"
        using Suc.prems(1) fires s1(1) by (simp add: CheckIfDue_def sim_ready_def now_def Let_def Cons x(1))
      ultimately show ?thesis using Suc.IH [OF s1(2)] s1(4) by (auto simp: now_def)
    qed
  qed
qed simp

lemma Idle_awaits:
  assumes Q: "completes call wok p Q"
    and s: "sim_ready wok s" "(t, Some p) \<in> set (pending s)"
  shows "\<exists>s'. Idle call s = Inr (Resumed, s') \<and> sim_ready wok s' \<and>
     (Q (world s') \<or> (t, Some p) \<in> set (pending s') \<and> due s' = 0) \<and> (due s = 0 \<longrightarrow> now s < now s')"
proof -
  obtain x rest where px: "pending s = x # rest" using s(2) by (cases "pending s") auto
  then obtain p' where x: "x = (p_when p', Some p')" "queue_ok rest" "\<forall>y\<in>set rest. p_when p' \<le> fst y"
    using sim_ready_queue [OF s(1)] by blast
  define s0 where "s0 = (if now s < p_when p'
     then (s\<lparr>status := IdleMode, pending := rest\<rparr>)\<lparr>stats := (stats s)\<lparr>idleTicks := idleTicks (stats s) + (p_when p' - now s),
            totalTicks := p_when p'\<rparr>\<rparr> else s\<lparr>status := IdleMode, pending := rest\<rparr>)"
  have r: "sim_ready wok s0"
    using s(1) x(2) by (simp add: s0_def sim_ready_def sim_ok_def now_def)
  have s0: "pending s0 = rest" "world s0 = world s" "now s0 = max (now s) (p_when p')" by (auto simp: s0_def now_def)
  have "\<not> (p_type p' = TimerInt \<and> rest = [])" using s(2) px x(1) Q by (auto simp: completes_def)
  moreover obtain s1 where s1: "invoke call p' s0 = Inr s1" "sim_ready wok s1" "now s1 = now s0"
    using invoke_ok [OF r] by blast
  ultimately have "CheckIfDue call True (s\<lparr>status := IdleMode\<rparr>) = Inr (True, s1)"
    using s(1) by (auto simp: CheckIfDue_def sim_ready_def now_def Let_def px x(1) s0_def split: if_splits)
  moreover have "p' = p \<or> (t, Some p) \<in> set (pending s0) \<or> Q (world s0)" using s(2) px x(1) s0(1) by auto
  from invoke_awaits [OF Q r s1(1) this] have aw: "(t, Some p) \<in> set (pending s1) \<or> Q (world s1)" by blast
  have "due s1 < rounds s1" using due_le [of s1] by (simp add: rounds_def)
  from fire_due_awaits [OF Q s1(2) aw this] obtain s2 where s2: "fire_due call (rounds s1) s1 = Inr s2" "sim_ready wok s2"
    "now s2 = now s1" "Q (world s2) \<or> (t, Some p) \<in> set (pending s2) \<and> due s2 = 0" by blast
  moreover have "due s = 0 \<Longrightarrow> now s < now s2"
    using s2(3) s1(3) s0(3) by (auto simp: due_def px x(1) split: if_splits)
  ultimately show ?thesis
    by (auto simp: Idle_def sim_ready_def sim_ok_def now_def due_def)
qed

lemma wait_idle_awaits:
  assumes Q: "completes call wok p Q"
    and ready: "\<And>w. Q w \<Longrightarrow> ready w"
  shows "sim_ready wok s \<Longrightarrow> Q (world s) \<or> (t, Some p) \<in> set (pending s) \<and> due s = 0 \<Longrightarrow> nat (t - now s) < n \<Longrightarrow>
     \<exists>s'. wait_idle call ready n s = Inr (Resumed, s') \<and> sim_ready wok s' \<and> ready (world s')"
proof (induction n arbitrary: s)
  case (Suc n)
  show ?case
  proof (cases "ready (world s)")
    case False
    then have pend: "(t, Some p) \<in> set (pending s)" "due s = 0" using Suc.prems(2) ready by auto
    from Idle_awaits [OF Q Suc.prems(1) pend(1)] obtain s' where s': "Idle call s = Inr (Resumed, s')" "sim_ready wok s'"
      "Q (world s') \<or> (t, Some p) \<in> set (pending s') \<and> due s' = 0" "now s < now s'"
      using pend(2) by blast
    have "now s < t" using pend by (auto simp: due_def filter_empty_conv)
    then have "nat (t - now s') < n" using s'(4) Suc.prems(3) by linarith
    then show ?thesis using False s' Suc.IH [OF s'(2)] by auto
  qed (use Suc.prems in simp)
qed simp
end
section \<open>Totality of CheckIfDue\<close>
context interrupt_handlers
begin

lemma CheckIfDue_total:
  assumes "sim_ready wok s"
  shows "\<exists>fired s'. CheckIfDue call adv s = Inr (fired, s') \<and> sim_ready wok s' \<and>
     (\<not> fired \<and> \<not> adv \<and> status s \<noteq> IdleMode \<longrightarrow> due s = 0 \<and> mset (pending s') = mset (pending s) \<and> now s' = now s)"
proof (cases "pending s")
  case Nil
  then show ?thesis using CheckIfDue_empty [OF assms Nil] assms by (auto simp: due_def)
next
  case (Cons x rest)
  then obtain p where p: "x = (p_when p, Some p)" "queue_ok rest" "\<forall>y\<in>set rest. p_when p \<le> fst y"
    using sim_ready_queue [OF assms] by blast
  note q = queue_ok_insert [OF p(2) refl]
  define s0 where "s0 = (if adv \<and> now s < p_when p
     then (s\<lparr>pending := rest\<rparr>)\<lparr>stats := (stats s)\<lparr>idleTicks := idleTicks (stats s) + (p_when p - now s),
            totalTicks := p_when p\<rparr>\<rparr> else s\<lparr>pending := rest\<rparr>)"
  have s0: "sim_ready wok s0" using assms p(2) by (simp add: s0_def sim_ready_def sim_ok_def now_def)
  let ?put = "s0\<lparr>pending := kl_insert rest (Some p) (p_when p)\<rparr>"
  have bk: "sim_ready wok ?put" using sim_ready_pending [OF s0 q] .
  obtain s1 where s1: "invoke call p s0 = Inr s1" "sim_ready wok s1" using invoke_ok [OF s0] by blast
  have "CheckIfDue call adv s =
     (if \<not> adv \<and> now s < p_when p \<or> status s = IdleMode \<and> p_type p = TimerInt \<and> rest = []
      then Inr (False, ?put) else Inr (True, s1))"
    using assms s1(1) by (auto simp: CheckIfDue_def sim_ready_def Let_def Cons p(1) s0_def now_def split: if_splits)
  moreover have "now s < p_when p \<Longrightarrow> due s = 0" using p(3) by (auto simp: due_def Cons p(1) filter_empty_conv)
  moreover have "\<not> adv \<Longrightarrow> mset (pending ?put) = mset (pending s) \<and> now ?put = now s"
    by (simp add: Cons p(1) s0_def now_def)
  ultimately show ?thesis using bk s1(2) by auto
qed

end
end
