(* ===== verification/Sysdep.thy ===== *)
theory Sysdep
  imports Nachos_Prelude
begin

text \<open>
  The host files the simulation is built on, through the wrappers of \<open>machine/sysdep.cc\<close>. A
  host file is the list of its bytes, an open file a file and an offset, a file descriptor an
  index of the process's table of open files. A wrapper asserts that the Unix call succeeded.
  The disk, the console and the stub file system are clients of these operations.
\<close>

named_theorems host_simps \<open>evaluation of the host file operations on an open descriptor\<close>

type_synonym byte = "8 word"

section \<open>State\<close>

text \<open>
  \<open>names\<close> is the directory, \<open>inodes\<close> the contents, \<open>fds\<close> the descriptor table with the inode and
  the offset of each open file; \<open>open_max\<close> is the number of descriptors the process may have.
\<close>

record Host =
  names :: "string \<rightharpoonup> nat"
  inodes :: "nat \<Rightarrow> byte list"
  next_inode :: nat
  fds :: "nat \<rightharpoonup> nat \<times> int"
  open_max :: nat

definition fd_lookup :: "Host \<Rightarrow> int \<Rightarrow> (nat \<times> int) option" where
  "fd_lookup h fd = (if fd < 0 then None else fds h (nat fd))"

text \<open>The lowest unused descriptor, or -1.\<close>

definition fd_alloc :: "nat \<Rightarrow> Host \<Rightarrow> int \<times> Host" where
  "fd_alloc ino h = (case first_index (\<lambda>i. fds h i = None) (open_max h) of
     None \<Rightarrow> (-1, h)
   | Some i \<Rightarrow> (int i, h\<lparr>fds := (fds h)(i \<mapsto> (ino, 0))\<rparr>))"

text \<open>\<open>write(2)\<close> at an offset: a gap past the end of the file reads as zeros.\<close>

definition splice :: "byte list \<Rightarrow> nat \<Rightarrow> byte list \<Rightarrow> byte list" where
  "splice xs off ys = take off (xs @ replicate (off - length xs) 0) @ ys @ drop (off + length ys) xs"

section \<open>Operations\<close>

definition OpenForWrite :: "string \<Rightarrow> Host \<Rightarrow> (int \<times> Host) res" where
  "OpenForWrite name h =
     (let (ino, h1) = (case names h name of
             Some ino \<Rightarrow> (ino, h)
           | None \<Rightarrow> (next_inode h, h\<lparr>names := (names h)(name \<mapsto> next_inode h), next_inode := Suc (next_inode h)\<rparr>));
          (fd, h2) = fd_alloc ino h1
      in rbind (ASSERT (0 \<le> fd)) (\<lambda>_. Inr (fd, h2\<lparr>inodes := (inodes h2)(ino := [])\<rparr>)))"

definition OpenForReadWrite :: "string \<Rightarrow> bool \<Rightarrow> Host \<Rightarrow> (int \<times> Host) res" where
  "OpenForReadWrite name crashOnError h =
     (let (fd, h') = (case names h name of None \<Rightarrow> (-1, h) | Some ino \<Rightarrow> fd_alloc ino h)
      in rbind (ASSERT (\<not> crashOnError \<or> 0 \<le> fd)) (\<lambda>_. Inr (fd, h')))"

text \<open>
  \<open>read(2)\<close>: -1 on a bad descriptor or a negative count, otherwise what the file has at the
  offset, at most the count; the offset moves past it.
\<close>

definition unix_read :: "int \<Rightarrow> int \<Rightarrow> Host \<Rightarrow> int \<times> byte list \<times> Host" where
  "unix_read fd n h = (case fd_lookup h fd of
     None \<Rightarrow> (-1, [], h)
   | Some (ino, off) \<Rightarrow>
       if n < 0 then (-1, [], h)
       else let bs = take (nat n) (drop (nat off) (inodes h ino))
            in (int (length bs), bs, h\<lparr>fds := (fds h)(nat fd \<mapsto> (ino, off + int (length bs)))\<rparr>))"

definition unix_write :: "int \<Rightarrow> byte list \<Rightarrow> Host \<Rightarrow> int \<times> Host" where
  "unix_write fd bs h = (case fd_lookup h fd of
     None \<Rightarrow> (-1, h)
   | Some (ino, off) \<Rightarrow>
       (int (length bs),
        h\<lparr>inodes := (inodes h)(ino := (if bs = [] then inodes h ino else splice (inodes h ino) (nat off) bs)),
          fds := (fds h)(nat fd \<mapsto> (ino, off + int (length bs)))\<rparr>))"

definition unix_lseek :: "int \<Rightarrow> int \<Rightarrow> int \<Rightarrow> Host \<Rightarrow> int \<times> Host" where
  "unix_lseek fd offset whence h = (case fd_lookup h fd of
     None \<Rightarrow> (-1, h)
   | Some (ino, off) \<Rightarrow>
       let new = (if whence = 0 then offset else if whence = 1 then off + offset
                  else int (length (inodes h ino)) + offset)
       in if new < 0 \<or> whence \<notin> {0, 1, 2} then (-1, h)
          else (new, h\<lparr>fds := (fds h)(nat fd \<mapsto> (ino, new))\<rparr>))"

definition Read :: "int \<Rightarrow> int \<Rightarrow> Host \<Rightarrow> (byte list \<times> Host) res" where
  "Read fd nBytes h =
     (let (retVal, bs, h') = unix_read fd nBytes h
      in rbind (ASSERT (retVal = nBytes)) (\<lambda>_. Inr (bs, h')))"

definition ReadPartial :: "int \<Rightarrow> int \<Rightarrow> Host \<Rightarrow> int \<times> byte list \<times> Host" where
  "ReadPartial fd nBytes h = unix_read fd nBytes h"

definition WriteFile :: "int \<Rightarrow> byte list \<Rightarrow> Host \<Rightarrow> Host res" where
  "WriteFile fd bs h =
     (let (retVal, h') = unix_write fd bs h
      in rbind (ASSERT (retVal = int (length bs))) (\<lambda>_. Inr h'))"

definition Lseek :: "int \<Rightarrow> int \<Rightarrow> int \<Rightarrow> Host \<Rightarrow> Host res" where
  "Lseek fd offset whence h =
     (let (retVal, h') = unix_lseek fd offset whence h
      in rbind (ASSERT (0 \<le> retVal)) (\<lambda>_. Inr h'))"

definition Tell :: "int \<Rightarrow> Host \<Rightarrow> int" where
  "Tell fd h = fst (unix_lseek fd 0 1 h)"

definition Close :: "int \<Rightarrow> Host \<Rightarrow> Host res" where
  "Close fd h = rbind (ASSERT (fd_lookup h fd \<noteq> None)) (\<lambda>_. Inr (h\<lparr>fds := (fds h)(nat fd := None)\<rparr>))"

text \<open>\<open>unlink(2)\<close> returns 0, or -1 when there is no such file; the wrapper hands it on as a \<open>bool\<close>.\<close>

definition Unlink :: "string \<Rightarrow> Host \<Rightarrow> bool \<times> Host" where
  "Unlink name h = (if names h name = None then (True, h) else (False, h\<lparr>names := (names h)(name := None)\<rparr>))"

section \<open>Reading and writing through an open descriptor\<close>

text \<open>The file behind a descriptor.\<close>

definition file_of :: "Host \<Rightarrow> int \<Rightarrow> nat option" where
  "file_of h fd = map_option fst (fd_lookup h fd)"

definition content :: "Host \<Rightarrow> int \<Rightarrow> byte list" where
  "content h fd = (case file_of h fd of None \<Rightarrow> [] | Some ino \<Rightarrow> inodes h ino)"

lemma file_of_Some: "file_of h fd = Some ino \<Longrightarrow> 0 \<le> fd \<and> (\<exists>off. fds h (nat fd) = Some (ino, off))"
  by (auto simp: file_of_def fd_lookup_def split: if_splits)

text \<open>\<open>Lseek\<close> to a position followed by a read or a write at it, as all clients use them.\<close>

definition seek_read :: "int \<Rightarrow> int \<Rightarrow> int \<Rightarrow> Host \<Rightarrow> (byte list \<times> Host) res" where
  "seek_read fd pos n h = rbind (Lseek fd pos 0 h) (Read fd n)"

definition seek_write :: "int \<Rightarrow> int \<Rightarrow> byte list \<Rightarrow> Host \<Rightarrow> Host res" where
  "seek_write fd pos bs h = rbind (Lseek fd pos 0 h) (WriteFile fd bs)"

lemma file_of_fds_upd [simp]:
  "file_of h fd = Some ino \<Longrightarrow> file_of (h\<lparr>fds := (fds h)(nat fd \<mapsto> (ino, off))\<rparr>) fd' = file_of h fd'"
  by (auto simp: file_of_def fd_lookup_def split: if_splits)

lemma file_of_inodes_upd [simp]: "file_of (h\<lparr>inodes := f\<rparr>) fd = file_of h fd"
  by (simp add: file_of_def fd_lookup_def)

lemma Lseek_set:
  assumes "file_of h fd = Some ino" "0 \<le> pos"
  shows "Lseek fd pos 0 h = Inr (h\<lparr>fds := (fds h)(nat fd \<mapsto> (ino, pos))\<rparr>)"
  using file_of_Some [OF assms(1)] assms(2) by (auto simp: Lseek_def unix_lseek_def fd_lookup_def)

lemma seek_read_eq:
  assumes f: "file_of h fd = Some ino" and pos: "0 \<le> pos" "0 \<le> n" and len: "pos + n \<le> int (length (inodes h ino))"
  shows "seek_read fd pos n h = Inr (take (nat n) (drop (nat pos) (inodes h ino)), h\<lparr>fds := (fds h)(nat fd \<mapsto> (ino, pos + n))\<rparr>)"
proof -
  have "min (nat n) (length (inodes h ino) - nat pos) = nat n" using pos len by simp
  then show ?thesis using file_of_Some [OF f] pos
    by (auto simp: seek_read_def Lseek_set [OF f] Read_def unix_read_def fd_lookup_def Let_def)
qed

lemma seek_write_eq:
  assumes f: "file_of h fd = Some ino" and pos: "0 \<le> pos" and bs: "bs \<noteq> []"
  shows "seek_write fd pos bs h = Inr (h\<lparr>inodes := (inodes h)(ino := splice (inodes h ino) (nat pos) bs),
    fds := (fds h)(nat fd \<mapsto> (ino, pos + int (length bs)))\<rparr>)"
  using file_of_Some [OF f] pos bs
  by (auto simp: seek_write_def Lseek_set [OF f] WriteFile_def unix_write_def fd_lookup_def Let_def)

lemma length_splice: "length (splice xs off ys) = max (length xs) (off + length ys)"
  by (auto simp: splice_def)

lemma splice_inside: "off + length ys \<le> length xs \<Longrightarrow> splice xs off ys = take off xs @ ys @ drop (off + length ys) xs"
  by (simp add: splice_def)

lemma splice_read_same: "take (length ys) (drop off (splice xs off ys)) = ys"
  by (simp add: splice_def)

lemma splice_read_other:
  assumes "off + length ys \<le> length xs" "a + n \<le> off \<or> off + length ys \<le> a"
  shows "take n (drop a (splice xs off ys)) = take n (drop a xs)"
proof (cases "a + n \<le> off")
  case True
  then show ?thesis using assms(1) by (simp add: splice_inside min_def take_drop [symmetric] del: take_drop) (simp add: drop_take)
next
  case False
  then show ?thesis using assms by (simp add: splice_inside)
qed

end
