(* ===== verification/Devices.thy ===== *)
theory Devices
  imports Complex_Main Interrupts Sysdep
begin

text \<open>
  The simulated hardware devices: the timer (\<open>machine/timer.cc\<close>), the console
  (\<open>machine/console.cc\<close>), the disk (\<open>machine/disk.cc\<close>) and the network interface
  (\<open>machine/network.cc\<close>), with the kernel's timer handler (\<open>threads/system.cc\<close>). Every device
  schedules interrupts and is called back by \<open>CheckIfDue\<close>; \<open>device_call\<close> is that dispatch, and
  it provides the interface \<open>interrupt_handlers\<close>. What the kernel does when a device reports
  (a \<open>V()\<close> on some semaphore) is the parameter \<open>up\<close>.
\<close>

section \<open>State\<close>

text \<open>What \<open>PollFile\<close> and the read after it find on the keyboard.\<close>

datatype Key = NoKey | Key byte | KeyEOF

text \<open>\<open>EOF\<close>, stored in a \<open>char\<close>.\<close>

abbreviation EOF_char :: byte where "EOF_char \<equiv> -1"

record Console =
  writeFileNo :: int
  putBusy :: bool
  incoming :: byte
  keyboard :: "nat \<Rightarrow> Key"
  keys_polled :: nat

abbreviation SectorSize :: int where "SectorSize \<equiv> 128"
abbreviation SectorsPerTrack :: int where "SectorsPerTrack \<equiv> 32"
abbreviation NumTracks :: int where "NumTracks \<equiv> 32"
abbreviation NumSectors :: int where "NumSectors \<equiv> 1024"
abbreviation MagicSize :: int where "MagicSize \<equiv> 4"
abbreviation DiskSize :: int where "DiskSize \<equiv> 131076"

text \<open>\<open>0x456789ab\<close>, as the bytes of a little-endian \<open>int\<close>.\<close>

definition MagicNumber :: "byte list" where
  "MagicNumber = [0xab, 0x89, 0x67, 0x45]"

record Disk =
  fileno :: int
  active :: bool
  lastSector :: int
  bufferInit :: int

record PacketHeader =
  pkt_to :: int
  pkt_from :: int
  pkt_length :: int

text \<open>A packet on the wire: the header, and the rest of the \<open>MaxWireSize\<close> bytes.\<close>

type_synonym Packet = "PacketHeader \<times> byte list"

abbreviation MaxWireSize :: int where "MaxWireSize \<equiv> 64"
abbreviation MaxPacketSize :: int where "MaxPacketSize \<equiv> 52"

record Network =
  ident :: int
  chanceToWork :: rat
  sendBusy :: bool
  inHdr :: PacketHeader
  inbox :: "byte list"
  arriving :: "nat \<Rightarrow> Packet option"
  socket_polled :: nat
  listening :: "int \<Rightarrow> bool"
  wire :: "(int \<times> Packet) list"

text \<open>
  The devices with the host they run on. \<open>rand\<close> is the sequence of values \<open>Random()\<close> gives and
  \<open>drawn\<close> how many were used; \<open>arriving\<close> is what each poll of the socket finds, \<open>listening\<close> the
  machines whose socket exists, \<open>wire\<close> the packets handed to the host so far.
\<close>

record 'k Devices =
  randomize :: bool
  rand :: "nat \<Rightarrow> int"
  drawn :: nat
  console :: Console
  disk :: Disk
  network :: Network
  host :: Host
  kernel :: 'k

text \<open>The kernel's handlers: \<open>ReadAvail\<close>, \<open>WriteDone\<close>, \<open>DiskRequestDone\<close>, \<open>ReadAvail\<close> and \<open>WriteDone\<close> of the post office.\<close>

datatype Signal = SigReadAvail | SigWriteDone | SigDiskRequestDone | SigPacketAvail | SigPacketSent

type_synonym 'k sim = "'k Devices Interrupt"

section \<open>Timer\<close>

definition Random :: "'k sim \<Rightarrow> int \<times> 'k sim" where
  "Random s = (rand (world s) (drawn (world s)), s\<lparr>world := (world s)\<lparr>drawn := Suc (drawn (world s))\<rparr>\<rparr>)"

definition TimeOfNextInterrupt :: "'k sim \<Rightarrow> int \<times> 'k sim" where
  "TimeOfNextInterrupt s =
     (if randomize (world s) then let (r, s') = Random s in (1 + r smod (TimerTicks * 2), s')
      else (TimerTicks, s))"

definition Timer_new :: "bool \<Rightarrow> 'k sim \<Rightarrow> 'k sim res" where
  "Timer_new doRandom s =
     (let (t, s') = TimeOfNextInterrupt (s\<lparr>world := (world s)\<lparr>randomize := doRandom\<rparr>\<rparr>)
      in Schedule TimerHandler 0 t TimerInt s')"

definition TimerInterruptHandler :: "'k sim \<Rightarrow> 'k sim res" where
  "TimerInterruptHandler s = (if status s \<noteq> IdleMode then YieldOnReturn s else Inr s)"

definition TimerExpired :: "'k sim \<Rightarrow> 'k sim res" where
  "TimerExpired s =
     (let (t, s') = TimeOfNextInterrupt s
      in rbind (Schedule TimerHandler 0 t TimerInt s') TimerInterruptHandler)"

section \<open>Console\<close>

definition upd_console :: "(Console \<Rightarrow> Console) \<Rightarrow> 'k sim \<Rightarrow> 'k sim" where
  "upd_console f s = s\<lparr>world := (world s)\<lparr>console := f (console (world s))\<rparr>\<rparr>"

definition upd_kernel :: "('k \<Rightarrow> 'k) \<Rightarrow> 'k sim \<Rightarrow> 'k sim" where
  "upd_kernel f s = s\<lparr>world := (world s)\<lparr>kernel := f (kernel (world s))\<rparr>\<rparr>"

text \<open>The constructor, with the display on \<open>stdout\<close> or on a host file.\<close>

definition Console_new :: "(nat \<Rightarrow> Key) \<Rightarrow> string option \<Rightarrow> 'k sim \<Rightarrow> 'k sim res" where
  "Console_new keys writeFile s =
     rbind (case writeFile of None \<Rightarrow> Inr (1, host (world s)) | Some name \<Rightarrow> OpenForWrite name (host (world s)))
       (\<lambda>(fd, h). Schedule ConsoleReadPoll 0 ConsoleTime ConsoleReadInt
          (s\<lparr>world := (world s)\<lparr>host := h, console := \<lparr>writeFileNo = fd, putBusy = False, incoming = EOF_char,
               keyboard = keys, keys_polled = 0\<rparr>\<rparr>\<rparr>))"

definition CheckCharAvail :: "(Signal \<Rightarrow> 'k \<Rightarrow> 'k) \<Rightarrow> 'k sim \<Rightarrow> 'k sim res" where
  "CheckCharAvail up s =
     rbind (Schedule ConsoleReadPoll 0 ConsoleTime ConsoleReadInt s) (\<lambda>s1.
       let c = console (world s1); key = keyboard c (keys_polled c);
           polled = (\<lambda>c. c\<lparr>keys_polled := Suc (keys_polled c)\<rparr>)
       in if incoming c \<noteq> EOF_char then Inr s1
          else case key of
            NoKey \<Rightarrow> Inr (upd_console polled s1)
          | KeyEOF \<Rightarrow> Inl AssertFail
          | Key ch \<Rightarrow>
              Inr (upd_kernel (up SigReadAvail)
                ((upd_console (\<lambda>c. (polled c)\<lparr>incoming := ch\<rparr>) s1)
                   \<lparr>stats := (stats s1)\<lparr>numConsoleCharsRead := numConsoleCharsRead (stats s1) + 1\<rparr>\<rparr>)))"

definition WriteDone :: "(Signal \<Rightarrow> 'k \<Rightarrow> 'k) \<Rightarrow> 'k sim \<Rightarrow> 'k sim res" where
  "WriteDone up s =
     Inr (upd_kernel (up SigWriteDone)
       ((upd_console (\<lambda>c. c\<lparr>putBusy := False\<rparr>) s)
          \<lparr>stats := (stats s)\<lparr>numConsoleCharsWritten := numConsoleCharsWritten (stats s) + 1\<rparr>\<rparr>))"

definition GetChar :: "'k sim \<Rightarrow> byte \<times> 'k sim" where
  "GetChar s = (incoming (console (world s)), upd_console (\<lambda>c. c\<lparr>incoming := EOF_char\<rparr>) s)"

definition PutChar :: "byte \<Rightarrow> 'k sim \<Rightarrow> 'k sim res" where
  "PutChar ch s =
     rbind (ASSERT (\<not> putBusy (console (world s)))) (\<lambda>_.
     rbind (WriteFile (writeFileNo (console (world s))) [ch] (host (world s))) (\<lambda>h.
       Schedule ConsoleWriteDone 0 ConsoleTime ConsoleWriteInt
         (upd_console (\<lambda>c. c\<lparr>putBusy := True\<rparr>) (s\<lparr>world := (world s)\<lparr>host := h\<rparr>\<rparr>))))"

section \<open>Disk\<close>

definition upd_disk :: "(Disk \<Rightarrow> Disk) \<Rightarrow> 'k sim \<Rightarrow> 'k sim" where
  "upd_disk f s = s\<lparr>world := (world s)\<lparr>disk := f (disk (world s))\<rparr>\<rparr>"

definition Disk_new :: "string \<Rightarrow> 'k sim \<Rightarrow> 'k sim res" where
  "Disk_new name s =
     rbind (OpenForReadWrite name False (host (world s))) (\<lambda>(fd, h).
     rbind (if 0 \<le> fd
            then rbind (Read fd MagicSize h) (\<lambda>(magic, h1).
                   rbind (ASSERT (magic = MagicNumber)) (\<lambda>_. Inr (fd, h1)))
            else rbind (OpenForWrite name h) (\<lambda>(fd, h1).
                 rbind (WriteFile fd MagicNumber h1) (\<lambda>h2.
                 rbind (Lseek fd (DiskSize - 4) 0 h2) (\<lambda>h3.
                 rbind (WriteFile fd [0, 0, 0, 0] h3) (\<lambda>h4. Inr (fd, h4)))))) (\<lambda>(fd, h).
       Inr (s\<lparr>world := (world s)\<lparr>host := h,
              disk := \<lparr>fileno = fd, active = False, lastSector = 0, bufferInit = 0\<rparr>\<rparr>\<rparr>)))"

definition Disk_delete :: "'k sim \<Rightarrow> 'k sim res" where
  "Disk_delete s = rbind (Close (fileno (disk (world s))) (host (world s))) (\<lambda>h.
     Inr (s\<lparr>world := (world s)\<lparr>host := h\<rparr>\<rparr>))"

text \<open>\<open>TimeToSeek\<close> returns the seek time and, through its pointer argument, the rotation.\<close>

definition TimeToSeek :: "Disk \<Rightarrow> int \<Rightarrow> int \<Rightarrow> int \<times> int" where
  "TimeToSeek d ticks newSector =
     (let newTrack = newSector sdiv SectorsPerTrack;
          oldTrack = lastSector d sdiv SectorsPerTrack;
          seek = \<bar>newTrack - oldTrack\<bar> * SeekTime;
          over = (ticks + seek) smod RotationTime
      in (seek, if over > 0 then RotationTime - over else 0))"

definition ModuloDiff :: "int \<Rightarrow> int \<Rightarrow> int" where
  "ModuloDiff to from =
     ((to smod SectorsPerTrack - from smod SectorsPerTrack) + SectorsPerTrack) smod SectorsPerTrack"

definition ComputeLatency :: "Disk \<Rightarrow> int \<Rightarrow> int \<Rightarrow> bool \<Rightarrow> int" where
  "ComputeLatency d ticks newSector writing =
     (let (seek, rotation) = TimeToSeek d ticks newSector;
          timeAfter = ticks + seek + rotation
      in if \<not> writing \<and> seek = 0 \<and>
            (timeAfter - bufferInit d) sdiv RotationTime > ModuloDiff newSector (bufferInit d sdiv RotationTime)
         then RotationTime
         else seek + (rotation + ModuloDiff newSector (timeAfter sdiv RotationTime) * RotationTime) + RotationTime)"

definition UpdateLast :: "int \<Rightarrow> int \<Rightarrow> Disk \<Rightarrow> Disk" where
  "UpdateLast ticks newSector d =
     (let (seek, rotate) = TimeToSeek d ticks newSector
      in d\<lparr>bufferInit := (if seek \<noteq> 0 then ticks + seek + rotate else bufferInit d), lastSector := newSector\<rparr>)"

definition ReadRequest :: "int \<Rightarrow> 'k sim \<Rightarrow> (byte list \<times> 'k sim) res" where
  "ReadRequest sectorNumber s =
     (let d = disk (world s); ticks = ComputeLatency d (totalTicks (stats s)) sectorNumber False
      in rbind (ASSERT (\<not> active d)) (\<lambda>_.
         rbind (ASSERT (0 \<le> sectorNumber \<and> sectorNumber < NumSectors)) (\<lambda>_.
         rbind (Lseek (fileno d) (SectorSize * sectorNumber + MagicSize) 0 (host (world s))) (\<lambda>h1.
         rbind (Read (fileno d) SectorSize h1) (\<lambda>(bs, h2).
         rbind (Schedule DiskDone 0 ticks DiskInt
             (upd_disk (\<lambda>d. UpdateLast (totalTicks (stats s)) sectorNumber (d\<lparr>active := True\<rparr>))
                (s\<lparr>world := (world s)\<lparr>host := h2\<rparr>,
                   stats := (stats s)\<lparr>numDiskReads := numDiskReads (stats s) + 1\<rparr>\<rparr>))) (\<lambda>s'.
           Inr (bs, s')))))))"

definition WriteRequest :: "int \<Rightarrow> byte list \<Rightarrow> 'k sim \<Rightarrow> 'k sim res" where
  "WriteRequest sectorNumber data s =
     (let d = disk (world s); ticks = ComputeLatency d (totalTicks (stats s)) sectorNumber True
      in rbind (ASSERT (\<not> active d)) (\<lambda>_.
         rbind (ASSERT (0 \<le> sectorNumber \<and> sectorNumber < NumSectors)) (\<lambda>_.
         rbind (Lseek (fileno d) (SectorSize * sectorNumber + MagicSize) 0 (host (world s))) (\<lambda>h1.
         rbind (if length data < nat SectorSize then Inl OutOfBounds
                else WriteFile (fileno d) (take (nat SectorSize) data) h1) (\<lambda>h2.
           Schedule DiskDone 0 ticks DiskInt
             (upd_disk (\<lambda>d. UpdateLast (totalTicks (stats s)) sectorNumber (d\<lparr>active := True\<rparr>))
                (s\<lparr>world := (world s)\<lparr>host := h2\<rparr>,
                   stats := (stats s)\<lparr>numDiskWrites := numDiskWrites (stats s) + 1\<rparr>\<rparr>)))))))"

definition HandleInterrupt :: "(Signal \<Rightarrow> 'k \<Rightarrow> 'k) \<Rightarrow> 'k sim \<Rightarrow> 'k sim res" where
  "HandleInterrupt up s = Inr (upd_kernel (up SigDiskRequestDone) (upd_disk (\<lambda>d. d\<lparr>active := False\<rparr>) s))"

section \<open>Network\<close>

definition upd_network :: "(Network \<Rightarrow> Network) \<Rightarrow> 'k sim \<Rightarrow> 'k sim" where
  "upd_network f s = s\<lparr>world := (world s)\<lparr>network := f (network (world s))\<rparr>\<rparr>"

definition Network_new :: "int \<Rightarrow> rat \<Rightarrow> (nat \<Rightarrow> Packet option) \<Rightarrow> (int \<Rightarrow> bool) \<Rightarrow> 'k sim \<Rightarrow> 'k sim res" where
  "Network_new addr reliability arrivals peers s =
     Schedule NetworkReadPoll 0 NetworkTime NetworkRecvInt
       (upd_network (\<lambda>_. \<lparr>ident = addr,
            chanceToWork = (if reliability < 0 then 0 else if reliability > 1 then 1 else reliability),
            sendBusy = False, inHdr = \<lparr>pkt_to = 0, pkt_from = 0, pkt_length = 0\<rparr>, inbox = [],
            arriving = arrivals, socket_polled = 0, listening = peers, wire = []\<rparr>) s)"

definition CheckPktAvail :: "(Signal \<Rightarrow> 'k \<Rightarrow> 'k) \<Rightarrow> 'k sim \<Rightarrow> 'k sim res" where
  "CheckPktAvail up s =
     rbind (Schedule NetworkReadPoll 0 NetworkTime NetworkRecvInt s) (\<lambda>s1.
       let n = network (world s1); n' = n\<lparr>socket_polled := Suc (socket_polled n)\<rparr>
       in if pkt_length (inHdr n) \<noteq> 0 then Inr s1
          else case arriving n (socket_polled n) of
            None \<Rightarrow> Inr (upd_network (\<lambda>_. n') s1)
          | Some (hdr, payload) \<Rightarrow>
              rbind (ASSERT (pkt_to hdr = ident n \<and> pkt_length hdr \<le> MaxPacketSize)) (\<lambda>_.
                Inr (upd_kernel (up SigPacketAvail)
                  ((upd_network (\<lambda>_. n'\<lparr>inHdr := hdr, inbox := take (nat (pkt_length hdr)) payload\<rparr>) s1)
                     \<lparr>stats := (stats s1)\<lparr>numPacketsRecvd := numPacketsRecvd (stats s1) + 1\<rparr>\<rparr>))))"

definition SendDone :: "(Signal \<Rightarrow> 'k \<Rightarrow> 'k) \<Rightarrow> 'k sim \<Rightarrow> 'k sim res" where
  "SendDone up s =
     Inr (upd_kernel (up SigPacketSent)
       ((upd_network (\<lambda>n. n\<lparr>sendBusy := False\<rparr>) s)
          \<lparr>stats := (stats s)\<lparr>numPacketsSent := numPacketsSent (stats s) + 1\<rparr>\<rparr>))"

text \<open>\<open>pad\<close> is the uninitialised rest of the wire buffer behind the data.\<close>

definition Send :: "byte list \<Rightarrow> PacketHeader \<Rightarrow> byte list \<Rightarrow> 'k sim \<Rightarrow> 'k sim res" where
  "Send pad hdr data s =
     (let n = network (world s)
      in rbind (ASSERT (\<not> sendBusy n \<and> 0 < pkt_length hdr \<and> pkt_length hdr \<le> MaxPacketSize \<and> pkt_from hdr = ident n)) (\<lambda>_.
         rbind (Schedule NetworkSendDone 0 NetworkTime NetworkSendInt s) (\<lambda>s1.
           let (r, s2) = Random s1
           in if rat_of_int (r smod 100) \<ge> chanceToWork n * 100 then Inr s2
              else if length data < nat (pkt_length hdr) then Inl OutOfBounds
              else rbind (ASSERT (listening n (pkt_to hdr))) (\<lambda>_.
                Inr (upd_network (\<lambda>n. n\<lparr>wire := wire n @
                       [(pkt_to hdr, (hdr, take (nat MaxPacketSize) (take (nat (pkt_length hdr)) data @ pad)))]\<rparr>) s2)))))"

definition Receive :: "'k sim \<Rightarrow> (PacketHeader \<times> byte list) \<times> 'k sim" where
  "Receive s =
     (let hdr = inHdr (network (world s))
      in ((hdr, if pkt_length hdr \<noteq> 0 then inbox (network (world s)) else []),
          upd_network (\<lambda>n. n\<lparr>inHdr := hdr\<lparr>pkt_length := 0\<rparr>\<rparr>) s))"

section \<open>Dispatch\<close>

text \<open>The dummy functions that call the member functions.\<close>

fun device_call :: "(Signal \<Rightarrow> 'k \<Rightarrow> 'k) \<Rightarrow> Handler \<Rightarrow> int \<Rightarrow> 'k sim \<Rightarrow> 'k sim res" where
  "device_call up TimerHandler a s = TimerExpired s"
| "device_call up DiskDone a s = HandleInterrupt up s"
| "device_call up ConsoleReadPoll a s = CheckCharAvail up s"
| "device_call up ConsoleWriteDone a s = WriteDone up s"
| "device_call up NetworkReadPoll a s = CheckPktAvail up s"
| "device_call up NetworkSendDone a s = SendDone up s"

section \<open>The devices provide the interrupt handlers\<close>

text \<open>
  What the handlers rely on: \<open>Random()\<close> is not negative, the keyboard is not closed, and the
  packets that arrive are addressed to this machine and fit (as \<open>Send\<close> asserts on the other side).
\<close>

definition packet_ok :: "Network \<Rightarrow> Packet \<Rightarrow> bool" where
  "packet_ok n p \<longleftrightarrow> pkt_to (fst p) = ident n \<and> 0 \<le> pkt_length (fst p) \<and> pkt_length (fst p) \<le> MaxPacketSize"

definition device_ok :: "'k Devices \<Rightarrow> bool" where
  "device_ok w \<longleftrightarrow> (\<forall>n. 0 \<le> rand w n) \<and> (\<forall>n. keyboard (console w) n \<noteq> KeyEOF) \<and>
     (\<forall>n p. arriving (network w) n = Some p \<longrightarrow> packet_ok (network w) p)"

text \<open>What a handler changes besides the queue.\<close>

lemma handler_step_upd [simp]:
  "handler_step s (s'\<lparr>world := w\<rparr>) \<longleftrightarrow> handler_step s s'"
  "handler_step s (s'\<lparr>yieldOnReturn := b\<rparr>) \<longleftrightarrow> handler_step s s'"
  "handler_step (s\<lparr>world := w\<rparr>) s' \<longleftrightarrow> handler_step s s'"
  by (simp_all add: handler_step_def now_def)

lemma handler_step_stats:
  "totalTicks st = totalTicks (stats s') \<Longrightarrow> idleTicks st = idleTicks (stats s') \<Longrightarrow>
   systemTicks st = systemTicks (stats s') \<Longrightarrow> userTicks st = userTicks (stats s') \<Longrightarrow>
   handler_step s (s'\<lparr>stats := st\<rparr>) \<longleftrightarrow> handler_step s s'"
  by (simp add: handler_step_def)

lemmas upd_defs = upd_console_def upd_kernel_def upd_disk_def upd_network_def

lemma TimeOfNextInterrupt_bounds:
  assumes "TimeOfNextInterrupt s = (t, s')" "\<forall>n. 0 \<le> rand (world s) n"
  shows "0 < t" "t \<le> 2 * TimerTicks" "handler_step s s'" "device_ok (world s') = device_ok (world s)"
    "inHandler s' = inHandler s" "world s' = (world s)\<lparr>drawn := drawn (world s')\<rparr>"
proof -
  have "(0::int) \<le> rand (world s) (drawn (world s))" using assms(2) by blast
  then show "0 < t" "t \<le> 2 * TimerTicks"
    using assms(1) by (auto simp: TimeOfNextInterrupt_def Random_def smod_nonneg split: if_splits)
  show "handler_step s s'" "device_ok (world s') = device_ok (world s)" "inHandler s' = inHandler s"
    "world s' = (world s)\<lparr>drawn := drawn (world s')\<rparr>"
    using assms(1) by (auto simp: TimeOfNextInterrupt_def Random_def device_ok_def split: if_splits)
qed

lemma TimerExpired_ok:
  assumes "device_ok (world s)" "inHandler s" "status s = SystemMode"
  shows "\<exists>s'. TimerExpired s = Inr s' \<and> handler_step s s' \<and> device_ok (world s') \<and> yieldOnReturn s' \<and>
    world s' = (world s)\<lparr>drawn := drawn (world s')\<rparr>"
proof -
  obtain t s1 where t: "TimeOfNextInterrupt s = (t, s1)" by force
  note b = TimeOfNextInterrupt_bounds [OF t]
  have r: "\<forall>n. 0 \<le> rand (world s) n" using assms(1) by (simp add: device_ok_def)
  from b(1) [OF r] obtain s2 where s2: "Schedule TimerHandler 0 t TimerInt s1 = Inr s2" "handler_step s1 s2"
    "world s2 = world s1" "inHandler s2 = inHandler s1" using handler_step_Schedule by blast
  have "handler_step s s2" using handler_step_trans [OF b(3) [OF r] s2(2)] .
  moreover have "TimerExpired s = Inr (if status s2 \<noteq> IdleMode then s2\<lparr>yieldOnReturn := True\<rparr> else s2)"
    using b(5) [OF r] assms(2) by (simp add: TimerExpired_def t s2 TimerInterruptHandler_def YieldOnReturn_def)
  moreover have "status s2 = SystemMode"
    using s2(1) t assms(3)
    by (auto simp: Schedule_def Let_def rbind_eq_Inr TimeOfNextInterrupt_def Random_def split: if_splits)
  moreover have "world s2 = (world s)\<lparr>drawn := drawn (world s2)\<rparr>" using b(6) [OF r] s2(3) by simp
  ultimately show ?thesis using b(4) [OF r] assms(1) s2(3) by simp
qed

lemma CheckCharAvail_ok:
  assumes "device_ok (world s)"
  shows "\<exists>s'. CheckCharAvail up s = Inr s' \<and> handler_step s s' \<and> device_ok (world s')"
proof -
  obtain s1 where s1: "Schedule ConsoleReadPoll 0 ConsoleTime ConsoleReadInt s = Inr s1" "handler_step s s1"
    "world s1 = world s" using handler_step_Schedule [of ConsoleTime ConsoleReadPoll 0 ConsoleReadInt s] by auto
  have "keyboard (console (world s)) n \<noteq> KeyEOF" for n using assms by (simp add: device_ok_def)
  then show ?thesis using s1 assms unfolding device_ok_def
    by (auto simp: CheckCharAvail_def Let_def upd_defs handler_step_stats split: Key.splits)
qed

lemma CheckPktAvail_ok:
  assumes "device_ok (world s)"
  shows "\<exists>s'. CheckPktAvail up s = Inr s' \<and> handler_step s s' \<and> device_ok (world s')"
proof -
  obtain s1 where s1: "Schedule NetworkReadPoll 0 NetworkTime NetworkRecvInt s = Inr s1" "handler_step s s1"
    "world s1 = world s" using handler_step_Schedule [of NetworkTime NetworkReadPoll 0 NetworkRecvInt s] by auto
  let ?n = "network (world s)"
  have "case arriving ?n (socket_polled ?n) of None \<Rightarrow> True | Some p \<Rightarrow> packet_ok ?n p"
    using assms by (auto simp: device_ok_def split: option.splits)
  then show ?thesis using s1 assms unfolding device_ok_def
    by (auto simp: CheckPktAvail_def Let_def upd_defs handler_step_stats packet_ok_def split: option.splits)
qed

lemma device_call_ok:
  assumes "device_ok (world s)" "inHandler s" "status s = SystemMode"
  shows "\<exists>s'. device_call up h a s = Inr s' \<and> handler_step s s' \<and> device_ok (world s')"
proof (cases h)
  case TimerHandler
  then show ?thesis using TimerExpired_ok [OF assms] by auto
next
  case ConsoleReadPoll
  then show ?thesis using CheckCharAvail_ok [OF assms(1)] by simp
next
  case NetworkReadPoll
  then show ?thesis using CheckPktAvail_ok [OF assms(1)] by simp
qed (use assms(1) in \<open>simp_all add: HandleInterrupt_def WriteDone_def SendDone_def upd_defs handler_step_stats
       device_ok_def packet_ok_def\<close>)

interpretation dev: interrupt_handlers "device_call up" device_ok
  by unfold_locales (rule device_call_ok)

section \<open>Disk latency\<close>

lemma sdiv_mult_cancel: "x * RotationTime sdiv RotationTime = x"
  by (simp add: signed_divide_int_def sgn_mult abs_mult) (metis mult.commute mult_sgn_abs)

lemma ModuloDiff_eq:
  "0 \<le> a \<Longrightarrow> 0 \<le> b \<Longrightarrow> ModuloDiff a b = (a - b) mod SectorsPerTrack"
  by (auto simp: ModuloDiff_def smod_nonneg mod_diff_eq)

lemma TimeToSeek_eq:
  assumes "0 \<le> lastSector d" "lastSector d < NumSectors" "0 \<le> newSector" "newSector < NumSectors" "0 \<le> ticks"
  shows "\<exists>seek rotation. TimeToSeek d ticks newSector = (seek, rotation) \<and>
     seek = \<bar>newSector div SectorsPerTrack - lastSector d div SectorsPerTrack\<bar> * SeekTime \<and> seek \<le> 15500 \<and>
     0 \<le> rotation \<and> rotation < RotationTime \<and> (ticks + seek + rotation) mod RotationTime = 0"
proof -
  let ?seek = "\<bar>newSector div SectorsPerTrack - lastSector d div SectorsPerTrack\<bar> * SeekTime"
  let ?over = "(ticks + ?seek) mod RotationTime"
  have "TimeToSeek d ticks newSector = (?seek, if ?over > 0 then RotationTime - ?over else 0)"
    using assms by (simp add: TimeToSeek_def Let_def sdiv_nonneg smod_nonneg)
  moreover have "0 \<le> x div SectorsPerTrack \<and> x div SectorsPerTrack \<le> 31" if "0 \<le> x" "x < NumSectors" for x :: int
    using that by presburger
  from this [OF assms(1,2)] this [OF assms(3,4)] have "?seek \<le> 15500" by auto
  moreover have "(x + (if x mod RotationTime > 0 then RotationTime - x mod RotationTime else 0)) mod RotationTime = 0" for x :: int
    by presburger
  from this [of "ticks + ?seek"]
  have "(ticks + ?seek + (if ?over > 0 then RotationTime - ?over else 0)) mod RotationTime = 0" .
  moreover have "0 \<le> ?over" "?over < RotationTime" by simp_all
  ultimately show ?thesis by (auto split: if_splits)
qed

text \<open>Sector \<open>sec\<close> of the track starts to pass under the head at time \<open>t\<close>.\<close>

definition under_head :: "int \<Rightarrow> int \<Rightarrow> bool" where
  "under_head t sec \<longleftrightarrow> t mod RotationTime = 0 \<and> (t div RotationTime) mod SectorsPerTrack = sec mod SectorsPerTrack"

lemma under_head_mult: "under_head (q * RotationTime) sec \<longleftrightarrow> q mod SectorsPerTrack = sec mod SectorsPerTrack"
  by (simp add: under_head_def)

lemma under_head_next:
  "under_head ((q + (sec - q) mod SectorsPerTrack) * RotationTime) sec"
  unfolding under_head_mult by (simp add: mod_simps)

lemma under_head_least:
  assumes "under_head t sec" "(q - 1) * RotationTime < t"
  shows "(q + (sec - q) mod SectorsPerTrack) * RotationTime \<le> t"
proof -
  define q' where "q' = t div RotationTime"
  have t: "t = q' * RotationTime" "q' mod SectorsPerTrack = sec mod SectorsPerTrack"
    using assms(1) by (auto simp: under_head_def q'_def)
  have "q \<le> q'" using assms(2) t(1) by simp
  then have "(q' - q) mod SectorsPerTrack \<le> q' - q" by (simp add: zmod_le_nonneg_dividend)
  moreover have "(sec - q) mod SectorsPerTrack = (q' - q) mod SectorsPerTrack"
    using t(2) by (metis mod_diff_left_eq)
  ultimately show ?thesis using t(1) by simp
qed

text \<open>The sector has begun to pass into the track buffer since the buffer was started.\<close>

definition buffered :: "Disk \<Rightarrow> int \<Rightarrow> int \<Rightarrow> bool" where
  "buffered d ticks sec \<longleftrightarrow> (\<exists>t. bufferInit d \<le> t \<and> t < ticks \<and> under_head t sec)"

definition head_ok :: "Disk \<Rightarrow> bool" where
  "head_ok d \<longleftrightarrow> 0 \<le> lastSector d \<and> lastSector d < NumSectors \<and> 0 \<le> bufferInit d \<and> bufferInit d mod RotationTime = 0"

lemma buffered_iff:
  assumes "bufferInit d = b * RotationTime" "(q - 1) * RotationTime < ticks" "ticks \<le> q * RotationTime"
  shows "buffered d ticks sec \<longleftrightarrow> q - b > (sec - b) mod SectorsPerTrack"
proof
  assume "buffered d ticks sec"
  then obtain t where t: "bufferInit d \<le> t" "t < ticks" "under_head t sec" by (auto simp: buffered_def)
  have "(b - 1) * RotationTime < t" using t(1) assms(1) by simp
  from under_head_least [OF t(3) this] have "(b + (sec - b) mod SectorsPerTrack) * RotationTime < q * RotationTime"
    using t(2) assms(3) by linarith
  then show "q - b > (sec - b) mod SectorsPerTrack" by simp
next
  let ?m = "(sec - b) mod SectorsPerTrack"
  assume "q - b > ?m"
  then have "(b + ?m) * RotationTime \<le> (q - 1) * RotationTime" by (intro mult_right_mono) auto
  then have "(b + ?m) * RotationTime < ticks" using assms(2) by linarith
  moreover have "bufferInit d \<le> (b + ?m) * RotationTime" using assms(1) by simp
  ultimately show "buffered d ticks sec" using under_head_next by (auto simp: buffered_def)
qed

text \<open>The latency of the hardware the disk simulates.\<close>

definition latency_spec :: "Disk \<Rightarrow> int \<Rightarrow> int \<Rightarrow> bool \<Rightarrow> int \<Rightarrow> bool" where
  "latency_spec d ticks sec writing L \<longleftrightarrow>
     (let seek = \<bar>sec div SectorsPerTrack - lastSector d div SectorsPerTrack\<bar> * SeekTime
      in if \<not> writing \<and> seek = 0 \<and> buffered d ticks sec then L = RotationTime
         else \<exists>t. L = t + RotationTime - ticks \<and> ticks + seek \<le> t \<and> under_head t sec \<and>
                (\<forall>t'. ticks + seek \<le> t' \<and> under_head t' sec \<longrightarrow> t \<le> t'))"

lemma ComputeLatency_meets_spec:
  assumes "head_ok d" "0 \<le> sec" "sec < NumSectors" "0 \<le> ticks"
  shows "latency_spec d ticks sec writing (ComputeLatency d ticks sec writing)"
    and "RotationTime \<le> ComputeLatency d ticks sec writing \<and> ComputeLatency d ticks sec writing \<le> 31999"
proof -
  define seek where "seek = \<bar>sec div SectorsPerTrack - lastSector d div SectorsPerTrack\<bar> * SeekTime"
  obtain rot where rot: "TimeToSeek d ticks sec = (seek, rot)" "seek \<le> 15500" "0 \<le> rot" "rot < RotationTime"
    "(ticks + seek + rot) mod RotationTime = 0"
  proof -
    have "0 \<le> lastSector d" "lastSector d < NumSectors" using assms(1) by (simp_all add: head_ok_def)
    from TimeToSeek_eq [OF this assms(2-4)] show ?thesis using that unfolding seek_def [symmetric] by (elim exE conjE) auto
  qed
  define q b where "q = (ticks + seek + rot) div RotationTime" and "b = bufferInit d div RotationTime"
  have q: "ticks + seek + rot = q * RotationTime" using rot(5) by (auto simp: q_def)
  have b: "bufferInit d = b * RotationTime" "0 \<le> b" using assms(1) by (auto simp: b_def head_ok_def)
  have "0 \<le> seek" by (simp add: seek_def)
  then have q0: "0 \<le> q" using rot(3) assms(4) by (simp add: q_def)
  have bits: "ModuloDiff sec b = (sec - b) mod SectorsPerTrack" "ModuloDiff sec q = (sec - q) mod SectorsPerTrack"
    using ModuloDiff_eq assms(2) b(2) q0 by auto
  define t where "t = (q + (sec - q) mod SectorsPerTrack) * RotationTime"
  note sdivs = left_diff_distrib [of q b RotationTime, symmetric] sdiv_mult_cancel
  have L: "ComputeLatency d ticks sec writing =
      (if \<not> writing \<and> seek = 0 \<and> q - b > (sec - b) mod SectorsPerTrack then RotationTime else t + RotationTime - ticks)"
    unfolding ComputeLatency_def rot(1) Let_def prod.case q b(1) bits sdivs distrib_right t_def using q by auto
  have hit: "seek = 0 \<Longrightarrow> q - b > (sec - b) mod SectorsPerTrack \<longleftrightarrow> buffered d ticks sec"
    using buffered_iff [OF b(1), of q ticks sec] q rot(3,4) by simp
  have m: "0 \<le> (sec - q) mod SectorsPerTrack" "(sec - q) mod SectorsPerTrack \<le> 31"
    using pos_mod_bound [of SectorsPerTrack "sec - q"] by simp_all
  have t: "ticks + seek \<le> t" "t \<le> ticks + 31499" "under_head t sec"
    using q rot m under_head_next [of q sec] unfolding t_def distrib_right by (linarith, linarith, simp)
  have least: "\<forall>t'. ticks + seek \<le> t' \<and> under_head t' sec \<longrightarrow> t \<le> t'"
  proof safe
    fix t' assume "ticks + seek \<le> t'" "under_head t' sec"
    moreover from this have "(q - 1) * RotationTime < t'" using q rot(4) by simp
    ultimately show "t \<le> t'" unfolding t_def using under_head_least by blast
  qed
  show "latency_spec d ticks sec writing (ComputeLatency d ticks sec writing)"
    unfolding latency_spec_def Let_def seek_def [symmetric] L using hit t least by (cases "seek = 0") auto
  show "RotationTime \<le> ComputeLatency d ticks sec writing \<and> ComputeLatency d ticks sec writing \<le> 31999"
    unfolding L using t \<open>0 \<le> seek\<close> by simp
qed

section \<open>Disk requests\<close>

text \<open>The contents of a sector, in the host file that stores the disk.\<close>

definition sector :: "'k Devices \<Rightarrow> int \<Rightarrow> byte list" where
  "sector w i = take (nat SectorSize) (drop (nat (SectorSize * i + MagicSize)) (content (host w) (fileno (disk w))))"

definition disk_ok :: "'k Devices \<Rightarrow> bool" where
  "disk_ok w \<longleftrightarrow> head_ok (disk w) \<and> (\<exists>ino. file_of (host w) (fileno (disk w)) = Some ino \<and>
     DiskSize \<le> int (length (inodes (host w) ino)))"

lemma UpdateLast_ok:
  assumes "head_ok d" "0 \<le> sec" "sec < NumSectors" "0 \<le> ticks"
  shows "head_ok (UpdateLast ticks sec d)" "fileno (UpdateLast ticks sec d) = fileno d"
    "active (UpdateLast ticks sec d) = active d"
proof -
  have l: "0 \<le> lastSector d" "lastSector d < NumSectors" using assms(1) by (simp_all add: head_ok_def)
  from TimeToSeek_eq [OF this assms(2-4)] obtain seek rot where
    "TimeToSeek d ticks sec = (seek, rot)" "(ticks + seek + rot) mod RotationTime = 0" "0 \<le> seek" "0 \<le> rot" by auto
  then show "head_ok (UpdateLast ticks sec d)" "fileno (UpdateLast ticks sec d) = fileno d"
    "active (UpdateLast ticks sec d) = active d"
    using assms by (auto simp: UpdateLast_def head_ok_def)
qed


definition disk3 :: Disk where
  "disk3 = \<lparr>fileno = 3, active = False, lastSector = 3, bufferInit = 0\<rparr>"


lemma content_fd: "file_of h fd = Some ino \<Longrightarrow> content h fd = inodes h ino"
  by (simp add: content_def)

definition disk_event :: "int \<Rightarrow> PendingInterrupt" where
  "disk_event t = \<lparr>handler = DiskDone, arg = 0, p_when = t, p_type = DiskInt\<rparr>"

text \<open>The state a request leaves, when the transfer itself has left the host files \<open>h\<close>.\<close>

definition requested :: "int \<Rightarrow> int \<Rightarrow> Host \<Rightarrow> Statistics \<Rightarrow> 'k sim \<Rightarrow> 'k sim" where
  "requested sec L h st s = (upd_disk (\<lambda>d. UpdateLast (now s) sec (d\<lparr>active := True\<rparr>)) (s\<lparr>world := (world s)\<lparr>host := h\<rparr>, stats := st\<rparr>))
     \<lparr>pending := kl_insert (pending s) (Some (disk_event (now s + L))) (now s + L)\<rparr>"

lemma requested_ok:
  assumes "disk_ok (world s)" "0 \<le> sec" "sec < NumSectors" "0 \<le> now s"
    and "file_of h (fileno (disk (world s))) = file_of (host (world s)) (fileno (disk (world s)))"
    and "DiskSize \<le> int (length (content h (fileno (disk (world s)))))"
  shows "disk_ok (world (requested sec L h st s))" "active (disk (world (requested sec L h st s)))"
    "sector (world (requested sec L h st s)) i =
       take (nat SectorSize) (drop (nat (SectorSize * i + MagicSize)) (content h (fileno (disk (world s)))))"
proof -
  have "head_ok ((disk (world s))\<lparr>active := True\<rparr>)" using assms(1) by (simp add: disk_ok_def head_ok_def)
  note u = UpdateLast_ok [OF this assms(2-4)]
  show "disk_ok (world (requested sec L h st s))" "active (disk (world (requested sec L h st s)))"
    "sector (world (requested sec L h st s)) i =
       take (nat SectorSize) (drop (nat (SectorSize * i + MagicSize)) (content h (fileno (disk (world s)))))"
    using u assms by (auto simp: requested_def upd_defs disk_ok_def sector_def content_def)
qed

lemma ReadRequest_eq:
  assumes "disk_ok (world s)" "\<not> active (disk (world s))" "0 \<le> sec" "sec < NumSectors" "0 \<le> now s"
  shows "\<exists>h. ReadRequest sec s = Inr (sector (world s) sec, requested sec (ComputeLatency (disk (world s)) (now s) sec False) h
       ((stats s)\<lparr>numDiskReads := numDiskReads (stats s) + 1\<rparr>) s) \<and>
     file_of h (fileno (disk (world s))) = file_of (host (world s)) (fileno (disk (world s))) \<and> inodes h = inodes (host (world s))"
proof -
  obtain ino where f: "file_of (host (world s)) (fileno (disk (world s))) = Some ino"
    "DiskSize \<le> int (length (inodes (host (world s)) ino))" "head_ok (disk (world s))"
    using assms(1) by (auto simp: disk_ok_def)
  let ?pos = "SectorSize * sec + MagicSize" and ?L = "ComputeLatency (disk (world s)) (now s) sec False"
  define h where "h = (host (world s))\<lparr>fds := (fds (host (world s)))(nat (fileno (disk (world s))) \<mapsto> (ino, ?pos + SectorSize))\<rparr>"
  have "0 < ?L" using ComputeLatency_meets_spec(2) [OF f(3) assms(3-5), of False] by simp
  moreover have "seek_read (fileno (disk (world s))) ?pos SectorSize (host (world s)) = Inr (sector (world s) sec, h)"
    using f assms(3,4) by (simp add: seek_read_eq [OF f(1)] h_def sector_def content_fd)
  ultimately have "ReadRequest sec s = Inr (sector (world s) sec, requested sec ?L h
       ((stats s)\<lparr>numDiskReads := numDiskReads (stats s) + 1\<rparr>) s)"
    using assms(2-5) by (auto simp: ReadRequest_def seek_read_def Let_def Schedule_def requested_def disk_event_def now_def upd_defs rbind_eq_Inr)
  then show ?thesis using f(1) by (auto simp: h_def)
qed

section \<open>The disk as a store of sectors\<close>

lemma sector_splice:
  assumes "0 \<le> sec" "sec < NumSectors" "length data = nat SectorSize" "DiskSize \<le> int (length bs)" "0 \<le> i"
  shows "take (nat SectorSize) (drop (nat (SectorSize * i + MagicSize)) (splice bs (nat (SectorSize * sec + MagicSize)) data)) =
    (if i = sec then data else take (nat SectorSize) (drop (nat (SectorSize * i + MagicSize)) bs))"
proof (cases "i = sec")
  case True
  then show ?thesis using splice_read_same [of data _ bs] assms(3) by simp
next
  case False
  have "nat (SectorSize * sec + MagicSize) + length data \<le> length bs" using assms by simp
  moreover have "nat (SectorSize * i + MagicSize) + nat SectorSize \<le> nat (SectorSize * sec + MagicSize) \<or>
      nat (SectorSize * sec + MagicSize) + length data \<le> nat (SectorSize * i + MagicSize)"
    using False assms by auto
  ultimately show ?thesis using splice_read_other False by simp
qed

lemma WriteRequest_eq:
  assumes "disk_ok (world s)" "\<not> active (disk (world s))" "0 \<le> sec" "sec < NumSectors" "0 \<le> now s"
    and "length data = nat SectorSize"
  shows "\<exists>h. WriteRequest sec data s = Inr (requested sec (ComputeLatency (disk (world s)) (now s) sec True) h
       ((stats s)\<lparr>numDiskWrites := numDiskWrites (stats s) + 1\<rparr>) s) \<and>
     file_of h (fileno (disk (world s))) = file_of (host (world s)) (fileno (disk (world s))) \<and>
     content h (fileno (disk (world s))) =
       splice (content (host (world s)) (fileno (disk (world s)))) (nat (SectorSize * sec + MagicSize)) data"
proof -
  obtain ino where f: "file_of (host (world s)) (fileno (disk (world s))) = Some ino"
    "DiskSize \<le> int (length (inodes (host (world s)) ino))" "head_ok (disk (world s))"
    using assms(1) by (auto simp: disk_ok_def)
  let ?pos = "SectorSize * sec + MagicSize" and ?L = "ComputeLatency (disk (world s)) (now s) sec True"
  define h where "h = (host (world s))\<lparr>inodes := (inodes (host (world s)))(ino := splice (inodes (host (world s)) ino) (nat ?pos) data),
    fds := (fds (host (world s)))(nat (fileno (disk (world s))) \<mapsto> (ino, ?pos + SectorSize))\<rparr>"
  have "0 < ?L" using ComputeLatency_meets_spec(2) [OF f(3) assms(3-5), of True] by simp
  moreover have "seek_write (fileno (disk (world s))) ?pos data (host (world s)) = Inr h"
  proof -
    have "data \<noteq> []" using assms(6) by auto
    then show ?thesis using f assms(3,4,6) by (simp add: seek_write_eq [OF f(1)] h_def)
  qed
  ultimately have "WriteRequest sec data s = Inr (requested sec ?L h
       ((stats s)\<lparr>numDiskWrites := numDiskWrites (stats s) + 1\<rparr>) s)"
    using assms(2-6) by (auto simp: WriteRequest_def seek_write_def Let_def Schedule_def requested_def disk_event_def now_def upd_defs rbind_eq_Inr)
  moreover have "file_of h (fileno (disk (world s))) = Some ino"
    using f(1) by (auto simp: h_def file_of_def fd_lookup_def split: if_splits)
  moreover from this have "content h (fileno (disk (world s))) =
      splice (content (host (world s)) (fileno (disk (world s)))) (nat ?pos) data"
    using f(1) by (simp add: content_fd) (simp add: h_def)
  ultimately show ?thesis using f(1) by metis
qed

lemma WriteRequest_store:
  assumes "disk_ok (world s)" "\<not> active (disk (world s))" "0 \<le> sec" "sec < NumSectors" "0 \<le> now s"
    and "length data = nat SectorSize"
  shows "\<exists>h. let s' = requested sec (ComputeLatency (disk (world s)) (now s) sec True) h
         ((stats s)\<lparr>numDiskWrites := numDiskWrites (stats s) + 1\<rparr>) s
     in WriteRequest sec data s = Inr s' \<and> disk_ok (world s') \<and> active (disk (world s')) \<and>
        (\<forall>i\<ge>0. sector (world s') i = (if i = sec then data else sector (world s) i))"
proof -
  have d: "DiskSize \<le> int (length (content (host (world s)) (fileno (disk (world s)))))"
    using assms(1) by (auto simp: disk_ok_def content_fd)
  obtain h where h: "WriteRequest sec data s = Inr (requested sec (ComputeLatency (disk (world s)) (now s) sec True) h
       ((stats s)\<lparr>numDiskWrites := numDiskWrites (stats s) + 1\<rparr>) s)"
     "file_of h (fileno (disk (world s))) = file_of (host (world s)) (fileno (disk (world s)))"
     "content h (fileno (disk (world s))) =
       splice (content (host (world s)) (fileno (disk (world s)))) (nat (SectorSize * sec + MagicSize)) data"
    using WriteRequest_eq [OF assms] by blast
  have l: "DiskSize \<le> int (length (content h (fileno (disk (world s)))))" using d by (simp add: h(3) length_splice)
  note r = requested_ok [OF assms(1,3,4,5) h(2) l]
  show ?thesis
    unfolding Let_def
  proof (intro exI [of _ h] conjI allI impI)
    show "sector (world (requested sec (ComputeLatency (disk (world s)) (now s) sec True) h
       ((stats s)\<lparr>numDiskWrites := numDiskWrites (stats s) + 1\<rparr>) s)) i = (if i = sec then data else sector (world s) i)"
      if "0 \<le> i" for i
      unfolding r(3) h(3) sector_splice [OF assms(3,4,6) d that] by (simp add: sector_def)
  qed (use h(1) r(1,2) in simp_all)
qed

text \<open>
  C22: the disk, a host file behind the raw device, is a store of 1024 sectors. A read request
  returns the contents of its sector and changes none; a write request replaces its sector and
  no other. Either makes the disk active and schedules exactly one completion interrupt, at
  the time the latency gives, and both refuse (by an assertion) a sector out of range and a
  second request before the first has completed.
\<close>

theorem disk_sector_store:
  assumes "disk_ok (world s)" "0 \<le> now s"
  shows "(active (disk (world s)) \<or> \<not> (0 \<le> sec \<and> sec < NumSectors) \<longrightarrow>
            ReadRequest sec s = Inl AssertFail \<and> WriteRequest sec data s = Inl AssertFail) \<and>
    (\<not> active (disk (world s)) \<and> 0 \<le> sec \<and> sec < NumSectors \<longrightarrow>
      (\<exists>s'. ReadRequest sec s = Inr (sector (world s) sec, s') \<and> disk_ok (world s') \<and> active (disk (world s')) \<and>
         (\<forall>i. sector (world s') i = sector (world s) i) \<and>
         (\<exists>t. now s + RotationTime \<le> t \<and> pending s' = kl_insert (pending s) (Some (disk_event t)) t)) \<and>
      (length data = nat SectorSize \<longrightarrow>
        (\<exists>s'. WriteRequest sec data s = Inr s' \<and> disk_ok (world s') \<and> active (disk (world s')) \<and>
           (\<forall>i\<ge>0. sector (world s') i = (if i = sec then data else sector (world s) i)) \<and>
           (\<exists>t. now s + RotationTime \<le> t \<and> pending s' = kl_insert (pending s) (Some (disk_event t)) t))))"
proof (intro conjI impI, goal_cases)
  case (3 )
  then have a: "\<not> active (disk (world s))" "0 \<le> sec" "sec < NumSectors" by auto
  have d: "head_ok (disk (world s))" "DiskSize \<le> int (length (content (host (world s)) (fileno (disk (world s)))))"
    using assms(1) by (auto simp: disk_ok_def content_fd)
  obtain h where h: "ReadRequest sec s = Inr (sector (world s) sec, requested sec (ComputeLatency (disk (world s)) (now s) sec False) h
       ((stats s)\<lparr>numDiskReads := numDiskReads (stats s) + 1\<rparr>) s)"
     "file_of h (fileno (disk (world s))) = file_of (host (world s)) (fileno (disk (world s)))" "inodes h = inodes (host (world s))"
    using ReadRequest_eq [OF assms(1) a assms(2)] by blast
  have c: "content h (fileno (disk (world s))) = content (host (world s)) (fileno (disk (world s)))" unfolding content_def h(2,3) ..
  have l: "DiskSize \<le> int (length (content h (fileno (disk (world s)))))" using d(2) c by simp
  note r = requested_ok [OF assms(1) a(2,3) assms(2) h(2)]
  show ?case
  proof (intro exI conjI allI)
    show "sector (world (requested sec (ComputeLatency (disk (world s)) (now s) sec False) h
       ((stats s)\<lparr>numDiskReads := numDiskReads (stats s) + 1\<rparr>) s)) i = sector (world s) i" for i
      unfolding r(3) [OF l] c by (simp add: sector_def)
  qed (use h(1) r(1,2) [OF l] ComputeLatency_meets_spec(2) [OF d(1) a(2,3) assms(2), of False] in \<open>auto simp: requested_def\<close>)
next
  case 4
  then have a: "\<not> active (disk (world s))" "0 \<le> sec" "sec < NumSectors" "length data = nat SectorSize" by auto
  have d: "head_ok (disk (world s))" using assms(1) by (simp add: disk_ok_def)
  from WriteRequest_store [OF assms(1) a(1-3) assms(2) a(4)] obtain h s' where
    h: "s' = requested sec (ComputeLatency (disk (world s)) (now s) sec True) h
       ((stats s)\<lparr>numDiskWrites := numDiskWrites (stats s) + 1\<rparr>) s" "WriteRequest sec data s = Inr s'"
     "disk_ok (world s')" "active (disk (world s'))" "\<forall>i\<ge>0. sector (world s') i = (if i = sec then data else sector (world s) i)"
    unfolding Let_def by blast
  moreover have "\<exists>t. now s + RotationTime \<le> t \<and> pending s' = kl_insert (pending s) (Some (disk_event t)) t"
    using ComputeLatency_meets_spec(2) [OF d a(2,3) assms(2), of True]
    by (intro exI [of _ "now s + ComputeLatency (disk (world s)) (now s) sec True"]) (simp add: h(1) requested_def)
  ultimately show ?case by blast
qed (auto simp: ReadRequest_def WriteRequest_def Let_def ASSERT_def)

text \<open>A machine with a formatted disk on descriptor 3 and a kernel that logs the signals it gets.\<close>

definition host0 :: Host where
  "host0 = \<lparr>names = [''DISK'' \<mapsto> 7], inodes = (\<lambda>_. [])(7 := MagicNumber @ replicate 131072 0), next_inode = 8,
     fds = [1 \<mapsto> (0, 0), 3 \<mapsto> (7, 4)], open_max = 64\<rparr>"

definition devices0 :: "Signal list Devices" where
  "devices0 = \<lparr>randomize = False, rand = (\<lambda>_. 0), drawn = 0,
     console = \<lparr>writeFileNo = 1, putBusy = False, incoming = EOF_char, keyboard = (\<lambda>_. NoKey), keys_polled = 0\<rparr>,
     disk = \<lparr>fileno = 3, active = False, lastSector = 0, bufferInit = 0\<rparr>,
     network = \<lparr>ident = 0, chanceToWork = 1, sendBusy = False, inHdr = \<lparr>pkt_to = 0, pkt_from = 0, pkt_length = 0\<rparr>,
       inbox = [], arriving = (\<lambda>_. None), socket_polled = 0, listening = (\<lambda>_. True), wire = []\<rparr>,
     host = host0, kernel = []\<rparr>"

definition sim0 :: "Signal list sim" where
  "sim0 = (Interrupt_new Statistics_new None devices0)
     \<lparr>pending := [(0, Some \<lparr>handler = TimerHandler, arg = 0, p_when = 0, p_type = TimerInt\<rparr>)]\<rparr>"

definition sim1 :: "Signal list sim" where
  "sim1 = (Interrupt_new Statistics_new None devices0)
     \<lparr>pending := [(100, Some \<lparr>handler = TimerHandler, arg = 0, p_when = 100, p_type = TimerInt\<rparr>)]\<rparr>"

lemma sim0_ok: "sim_ok sim0" "device_ok (world sim0)" "status sim0 = SystemMode" "level sim0 = IntOff" "now sim0 = 0"
  by (simp_all add: sim0_def Interrupt_new_def Statistics_new_def sim_ok_def queue_ok_def device_ok_def devices0_def now_def)

lemma sim1_ok: "sim_ok sim1" "device_ok (world sim1)" "due sim1 = 0" "now sim1 = 0"
    "disk_ok (world sim1)" "\<not> active (disk (world sim1))"
  by (simp_all add: sim1_def Interrupt_new_def Statistics_new_def sim_ok_def queue_ok_def device_ok_def devices0_def
      now_def due_def disk_ok_def head_ok_def host0_def file_of_def fd_lookup_def MagicNumber_def)

theorem disk_sector_store_witness:
  "\<exists>s1. WriteRequest 5 (replicate 128 7) sim1 = Inr s1 \<and> sector (world s1) 5 = replicate 128 7 \<and>
     sector (world s1) 6 = sector (world sim1) 6 \<and>
     ReadRequest 6 s1 = Inl AssertFail \<and> ReadRequest 1024 sim1 = Inl AssertFail"
proof -
  obtain s1 where s1: "WriteRequest 5 (replicate 128 7) sim1 = Inr s1" "disk_ok (world s1)" "active (disk (world s1))"
    "\<forall>i\<ge>0. sector (world s1) i = (if i = 5 then replicate 128 7 else sector (world sim1) i)"
    using disk_sector_store [OF sim1_ok(5), of 5 "replicate 128 7"] sim1_ok(4,6) by auto
  have "0 \<le> now s1"
  proof -
    have "stats s1 = (stats sim1)\<lparr>numDiskWrites := numDiskWrites (stats sim1) + 1\<rparr>"
      using WriteRequest_eq [OF sim1_ok(5,6), of 5 "replicate 128 7"] sim1_ok(4) s1(1) by (auto simp: requested_def upd_defs)
    then show ?thesis using sim1_ok(4) by (simp add: now_def)
  qed
  then show ?thesis using s1 disk_sector_store [OF s1(2), of 6 "[]"] disk_sector_store [OF sim1_ok(5), of 1024 "[]"] sim1_ok(4)
    by auto
qed

section \<open>A disk request completes\<close>

lemma device_call_signals:
  assumes "device_call up h a s = Inr s'"
  shows "kernel (world s') \<in> insert (kernel (world s)) (range (\<lambda>sig. up sig (kernel (world s))))"
  using assms by (cases h)
     (auto simp: TimerExpired_def TimerInterruptHandler_def YieldOnReturn_def TimeOfNextInterrupt_def Random_def
       HandleInterrupt_def CheckCharAvail_def WriteDone_def CheckPktAvail_def SendDone_def Schedule_def upd_defs Let_def
       rbind_eq_Inr split: if_splits Key.splits option.splits)

lemma requested_sim:
  assumes "sim_ok s" "device_ok (world s)" "due s = 0" "0 < L"
    and "totalTicks st = totalTicks (stats s)" "idleTicks st = idleTicks (stats s)"
      "systemTicks st = systemTicks (stats s)" "userTicks st = userTicks (stats s)"
  shows "sim_ready device_ok (ChangeLevel IntOff (requested sec L h st s))"
    "due (ChangeLevel IntOff (requested sec L h st s)) = 0" "now (ChangeLevel IntOff (requested sec L h st s)) = now s"
    "(now s + L, Some (disk_event (now s + L))) \<in> set (pending (ChangeLevel IntOff (requested sec L h st s)))"
proof -
  have "queue_ok (kl_insert (pending s) (Some (disk_event (now s + L))) (now s + L))"
    using queue_ok_insert [of "pending s" "disk_event (now s + L)"] assms(1) by (simp add: sim_ok_def disk_event_def)
  then show "sim_ready device_ok (ChangeLevel IntOff (requested sec L h st s))"
    using assms by (simp add: sim_ready_def ChangeLevel_def requested_def upd_defs sim_ok_def device_ok_def)
  show "due (ChangeLevel IntOff (requested sec L h st s)) = 0" "now (ChangeLevel IntOff (requested sec L h st s)) = now s"
    "(now s + L, Some (disk_event (now s + L))) \<in> set (pending (ChangeLevel IntOff (requested sec L h st s)))"
    using assms(3-5) by (simp_all add: ChangeLevel_def requested_def upd_defs due_def now_def filter_kl_insert_skip set_kl_insert)
qed

section \<open>Interrupts are taken in order and on time\<close>



text \<open>
  C26: an interrupt never fires early and never overtakes another. When \<open>CheckIfDue\<close> fires, the
  interrupt it takes is the first of the queue, none of the others is due before it, its
  handler runs at or after the time it was scheduled for (with \<open>advanceClock\<close> at the later of
  that time and the current one), and the queue stays sorted by time.
\<close>

theorem CheckIfDue_earliest:
  assumes "sim_ok s" "device_ok (world s)" "level s = IntOff"
  shows "\<exists>fired s'. CheckIfDue (device_call up) adv s = Inr (fired, s') \<and> sim_ok s' \<and> device_ok (world s') \<and> level s' = IntOff \<and>
    (fired \<longrightarrow> (\<exists>p rest s0. pending s = (p_when p, Some p) # rest \<and> (\<forall>x\<in>set rest. p_when p \<le> fst x) \<and>
       invoke (device_call up) p s0 = Inr s' \<and> pending s0 = rest \<and> world s0 = world s \<and>
       now s0 = (if adv then max (now s) (p_when p) else now s) \<and> p_when p \<le> now s0 \<and> now s' = now s0)) \<and>
    (\<not> fired \<and> \<not> adv \<and> status s \<noteq> IdleMode \<longrightarrow> due s = 0 \<and> mset (pending s') = mset (pending s) \<and> now s' = now s)"
proof -
  have r: "sim_ready device_ok s" using assms by (simp add: sim_ready_def)
  obtain fired s' where c: "CheckIfDue (device_call up) adv s = Inr (fired, s')" "sim_ready device_ok s'"
    "\<not> fired \<and> \<not> adv \<and> status s \<noteq> IdleMode \<longrightarrow> due s = 0 \<and> mset (pending s') = mset (pending s) \<and> now s' = now s"
    using dev.CheckIfDue_total [OF r, of up adv] by blast
  moreover have "\<exists>p rest s0. pending s = (p_when p, Some p) # rest \<and> (\<forall>x\<in>set rest. p_when p \<le> fst x) \<and>
       invoke (device_call up) p s0 = Inr s' \<and> pending s0 = rest \<and> world s0 = world s \<and>
       now s0 = (if adv then max (now s) (p_when p) else now s) \<and> p_when p \<le> now s0 \<and> now s' = now s0" if fired
  proof -
    have "CheckIfDue (device_call up) adv s = Inr (True, s')" using c(1) that by simp
    from dev.CheckIfDue_fired [OF r this] show ?thesis by (elim exE conjE) (intro exI conjI; assumption)
  qed
  ultimately show ?thesis unfolding sim_ready_def by (intro exI [of _ fired] exI [of _ s'] conjI) simp_all
qed

theorem CheckIfDue_earliest_witness:
  "\<exists>fired s'. CheckIfDue (device_call Cons) False sim0 = Inr (fired, s') \<and> sim_ok s'"
  using CheckIfDue_earliest [OF sim0_ok(1,2,4), of Cons False] by blast

end
