(* ===== verification/Threads.thy ===== *)
theory Threads
  imports Addr_Space
begin

text \<open>
  Kernel threads, the scheduler and semaphores (\<open>threads/thread.cc\<close>, \<open>threads/scheduler.cc\<close>,
  \<open>threads/synch.cc\<close>). These operations run with interrupts off, so each is one atomic step; a
  context switch leaves a thread in the middle of \<open>Yield\<close>, \<open>P\<close> or \<open>Finish\<close>, and \<open>resume_at\<close> says
  where \<open>SWITCH\<close> will take it up again. The ready list and the queues of the semaphores are
  the queues of \<open>Linked_List\<close>, by the identifiers of their threads.
\<close>

named_theorems kern \<open>rules for kernel states\<close>

section \<open>State\<close>

datatype ThreadStatus = JUST_CREATED | RUNNING | READY | BLOCKED

text \<open>Where a thread goes on when it is switched to: \<open>machineState[PCState]\<close> and the stack.\<close>

datatype Resume = AtThreadRoot | InYield | InP nat | InFinish

abbreviation STACK_FENCEPOST :: int where "STACK_FENCEPOST \<equiv> 0xdeadbeef"

text \<open>\<open>stack\<close> is the word at the bottom of the stack; the main thread has no stack of its own.\<close>

record Thread =
  t_status :: ThreadStatus
  stack :: "int option"
  resume_at :: Resume
  initial_pc :: nat
  initial_arg :: int
  userRegisters :: "nat \<Rightarrow> 32 word"
  space :: "AddrSpace option"

record Semaphore =
  sem_value :: int
  queue :: "nat list"

text \<open>
  \<open>idling\<close>: the current thread is in the loop of \<open>Sleep\<close> with nothing to run, waiting in
  \<open>interrupt->Idle()\<close> for a device.
\<close>

record Kernel =
  threads :: "nat \<rightharpoonup> Thread"
  currentThread :: nat
  threadToBeDestroyed :: "nat option"
  readyList :: "nat list"
  sems :: "nat \<rightharpoonup> Semaphore"
  machine :: Machine
  idling :: bool

definition Thread_new :: Thread where
  "Thread_new = \<lparr>t_status = JUST_CREATED, stack = None, resume_at = AtThreadRoot, initial_pc = 0, initial_arg = 0,
     userRegisters = (\<lambda>_. 0), space = None\<rparr>"

definition Semaphore_new :: "int \<Rightarrow> Semaphore" where
  "Semaphore_new initialValue = \<lparr>sem_value = initialValue, queue = []\<rparr>"

text \<open>Following a pointer to a thread or a semaphore.\<close>

definition thread_of :: "nat \<Rightarrow> Kernel \<Rightarrow> Thread res" where
  "thread_of t k = (case threads k t of None \<Rightarrow> Inl BadPointer | Some th \<Rightarrow> Inr th)"

definition sem_of :: "nat \<Rightarrow> Kernel \<Rightarrow> Semaphore res" where
  "sem_of s k = (case sems k s of None \<Rightarrow> Inl BadPointer | Some sm \<Rightarrow> Inr sm)"

definition upd_thread :: "nat \<Rightarrow> (Thread \<Rightarrow> Thread) \<Rightarrow> Kernel \<Rightarrow> Kernel res" where
  "upd_thread t f k = rbind (thread_of t k) (\<lambda>th. Inr (k\<lparr>threads := (threads k)(t \<mapsto> f th)\<rparr>))"

definition upd_sem :: "nat \<Rightarrow> (Semaphore \<Rightarrow> Semaphore) \<Rightarrow> Kernel \<Rightarrow> Kernel res" where
  "upd_sem s f k = rbind (sem_of s k) (\<lambda>sm. Inr (k\<lparr>sems := (sems k)(s \<mapsto> f sm)\<rparr>))"

section \<open>Threads and the scheduler\<close>

definition setStatus :: "nat \<Rightarrow> ThreadStatus \<Rightarrow> Kernel \<Rightarrow> Kernel res" where
  "setStatus t st = upd_thread t (\<lambda>th. th\<lparr>t_status := st\<rparr>)"

definition StackAllocate :: "nat \<Rightarrow> int \<Rightarrow> Thread \<Rightarrow> Thread" where
  "StackAllocate func a th =
     th\<lparr>stack := Some STACK_FENCEPOST, resume_at := AtThreadRoot, initial_pc := func, initial_arg := a\<rparr>"

definition CheckOverflow :: "Thread \<Rightarrow> unit res" where
  "CheckOverflow th = (case stack th of None \<Rightarrow> Inr () | Some w \<Rightarrow> ASSERT (w = STACK_FENCEPOST))"

definition Thread_delete :: "nat \<Rightarrow> Kernel \<Rightarrow> Kernel res" where
  "Thread_delete t k = rbind (ASSERT (t \<noteq> currentThread k)) (\<lambda>_.
     rbind (thread_of t k) (\<lambda>_. Inr (k\<lparr>threads := (threads k)(t := None)\<rparr>)))"

definition SaveUserState :: "Machine \<Rightarrow> Thread \<Rightarrow> Thread res" where
  "SaveUserState m = iter_res (\<lambda>i th. rbind (ReadRegister m (int i)) (\<lambda>v.
     Inr (th\<lparr>userRegisters := (userRegisters th)(i := v)\<rparr>))) [0..<NumTotalRegs]"

definition RestoreUserState :: "Thread \<Rightarrow> Machine \<Rightarrow> Machine res" where
  "RestoreUserState th = iter_res (\<lambda>i m. WriteRegister m (int i) (userRegisters th i)) [0..<NumTotalRegs]"

definition ReadyToRun :: "nat \<Rightarrow> Kernel \<Rightarrow> Kernel res" where
  "ReadyToRun t k = rbind (setStatus t READY k) (\<lambda>k1. Inr (k1\<lparr>readyList := readyList k1 @ [t]\<rparr>))"

definition FindNextToRun :: "Kernel \<Rightarrow> nat option \<times> Kernel" where
  "FindNextToRun k = (case readyList k of [] \<Rightarrow> (None, k) | t # ts \<Rightarrow> (Some t, k\<lparr>readyList := ts\<rparr>))"

definition Fork :: "nat \<Rightarrow> nat \<Rightarrow> int \<Rightarrow> Kernel \<Rightarrow> Kernel res" where
  "Fork t func a k = rbind (upd_thread t (StackAllocate func a) k) (ReadyToRun t)"

text \<open>\<open>Scheduler::Run\<close> up to \<open>SWITCH\<close>, and what the thread that was switched to does after it.\<close>

definition Run_out :: "nat \<Rightarrow> Kernel \<Rightarrow> Kernel res" where
  "Run_out nextThread k =
     (let old = currentThread k
      in rbind (thread_of old k) (\<lambda>th.
         rbind (case space th of None \<Rightarrow> Inr k
                | Some sp \<Rightarrow> rbind (SaveUserState (machine k) th) (\<lambda>th'.
                    Inr (k\<lparr>threads := (threads k)(old \<mapsto> th'), machine := SaveState sp (machine k)\<rparr>))) (\<lambda>k1.
         rbind (CheckOverflow th) (\<lambda>_.
           setStatus nextThread RUNNING (k1\<lparr>currentThread := nextThread\<rparr>)))))"

definition Run_in :: "Kernel \<Rightarrow> Kernel res" where
  "Run_in k =
     rbind (case threadToBeDestroyed k of None \<Rightarrow> Inr k
            | Some t \<Rightarrow> rbind (Thread_delete t k) (\<lambda>k1. Inr (k1\<lparr>threadToBeDestroyed := None\<rparr>))) (\<lambda>k1.
     rbind (thread_of (currentThread k1) k1) (\<lambda>th.
       case space th of None \<Rightarrow> Inr k1
       | Some sp \<Rightarrow> rbind (RestoreUserState th (machine k1)) (\<lambda>m. Inr (k1\<lparr>machine := RestoreState sp m\<rparr>))))"

text \<open>The current thread goes to sleep: what \<open>Sleep\<close> does before its loop.\<close>

definition block :: "Resume \<Rightarrow> Kernel \<Rightarrow> Kernel res" where
  "block r k = upd_thread (currentThread k) (\<lambda>th. th\<lparr>t_status := BLOCKED, resume_at := r\<rparr>) k"

section \<open>Semaphores and context switches\<close>

text \<open>
  \<open>run\<close> is \<open>Scheduler::Run\<close> with what the resumed thread does until it leaves the kernel or
  sleeps again; \<open>sched\<close> is the loop of \<open>Sleep\<close>, which waits in \<open>Idle\<close> when the ready list is
  empty; \<open>P_loop\<close> is the loop of \<open>Semaphore::P\<close>. A thread in \<open>P\<close> tests the value again when it is
  resumed. The second component of the result lists the calls of \<open>P\<close> that have passed. \<open>Finish\<close>
  never comes back from its \<open>Sleep\<close>.
\<close>

type_synonym passes = "(nat \<times> nat) list"

lemma upd_thread_eq: "upd_thread t f k = Inr k' \<longleftrightarrow> (\<exists>th. threads k t = Some th \<and> k' = k\<lparr>threads := (threads k)(t \<mapsto> f th)\<rparr>)"
  by (auto simp: upd_thread_def thread_of_def rbind_eq_Inr split: option.splits)

lemma upd_sem_eq: "upd_sem s f k = Inr k' \<longleftrightarrow> (\<exists>sm. sems k s = Some sm \<and> k' = k\<lparr>sems := (sems k)(s \<mapsto> f sm)\<rparr>)"
  by (auto simp: upd_sem_def sem_of_def rbind_eq_Inr split: option.splits)

lemma Run_out_readyList: "Run_out t k = Inr k' \<Longrightarrow> readyList k' = readyList k"
  by (auto simp: Run_out_def setStatus_def upd_thread_eq rbind_eq_Inr Let_def split: option.splits)

lemma Run_in_readyList: "Run_in k = Inr k' \<Longrightarrow> readyList k' = readyList k"
  by (auto simp: Run_in_def Thread_delete_def rbind_eq_Inr split: option.splits)

function run :: "nat \<Rightarrow> Kernel \<Rightarrow> (Kernel \<times> passes) res"
  and P_loop :: "nat \<Rightarrow> Kernel \<Rightarrow> (Kernel \<times> passes) res"
  and sched :: "Kernel \<Rightarrow> (Kernel \<times> passes) res" where
  "run nextThread k =
     rbind (Run_out nextThread k) (\<lambda>k1.
     rbind (thread_of nextThread k1) (\<lambda>th.
       case resume_at th of
         AtThreadRoot \<Rightarrow> Inr (k1, [])
       | InYield \<Rightarrow> rbind (Run_in k1) (\<lambda>k2. Inr (k2, []))
       | InP s \<Rightarrow> rbind (Run_in k1) (\<lambda>k2. P_loop s k2)
       | InFinish \<Rightarrow> Inl BadPointer))"
| "P_loop s k =
     rbind (sem_of s k) (\<lambda>sm.
       if sem_value sm = 0
       then rbind (upd_sem s (\<lambda>sm. sm\<lparr>queue := queue sm @ [currentThread k]\<rparr>) k) (\<lambda>k1.
            rbind (block (InP s) k1) (\<lambda>k2. sched k2))
       else rbind (upd_sem s (\<lambda>sm. sm\<lparr>sem_value := sem_value sm - 1\<rparr>) k) (\<lambda>k1.
              Inr (k1, [(currentThread k, s)])))"
| "sched k =
     (case readyList k of
        [] \<Rightarrow> Inr (k\<lparr>idling := True\<rparr>, [])
      | nextThread # rest \<Rightarrow> run nextThread (k\<lparr>readyList := rest, idling := False\<rparr>))"
  by pat_completeness auto

termination
proof (relation "measure (\<lambda>x. case x of
    Inl (t, k) \<Rightarrow> 3 * length (readyList k) + 2
  | Inr (Inl (s, k)) \<Rightarrow> 3 * length (readyList k) + 1
  | Inr (Inr k) \<Rightarrow> 3 * length (readyList k))", goal_cases)
  case (2 nextThread k k1 th s k2)
  then show ?case using Run_out_readyList Run_in_readyList by auto
next
  case (3 s k sm k1 k2)
  then show ?case by (auto simp: upd_sem_eq block_def upd_thread_eq)
qed auto

declare run.simps [simp del] P_loop.simps [simp del] sched.simps [simp del]

definition Yield :: "Kernel \<Rightarrow> (Kernel \<times> passes) res" where
  "Yield k = (case FindNextToRun k of
     (None, k1) \<Rightarrow> Inr (k1, [])
   | (Some nextThread, k1) \<Rightarrow>
       rbind (upd_thread (currentThread k1) (\<lambda>th. th\<lparr>resume_at := InYield\<rparr>) k1) (\<lambda>k2.
       rbind (ReadyToRun (currentThread k2) k2) (run nextThread)))"

definition Finish :: "Kernel \<Rightarrow> (Kernel \<times> passes) res" where
  "Finish k = rbind (block InFinish (k\<lparr>threadToBeDestroyed := Some (currentThread k)\<rparr>)) sched"

definition P :: "nat \<Rightarrow> Kernel \<Rightarrow> (Kernel \<times> passes) res" where
  "P s k = P_loop s k"

definition V :: "nat \<Rightarrow> Kernel \<Rightarrow> Kernel res" where
  "V s k = rbind (sem_of s k) (\<lambda>sm.
     rbind (case queue sm of [] \<Rightarrow> Inr k
            | t # ts \<Rightarrow> rbind (upd_sem s (\<lambda>sm. sm\<lparr>queue := ts\<rparr>) k) (ReadyToRun t)) (\<lambda>k1.
       upd_sem s (\<lambda>sm. sm\<lparr>sem_value := sem_value sm + 1\<rparr>) k1))"

section \<open>Steps of the kernel\<close>

text \<open>
  What can happen next: an operation of the current thread, user instructions it executes, a
  device handler that signals a semaphore, or the end of a wait in \<open>Idle\<close>.
\<close>

datatype Action =
    ANewThread nat "AddrSpace option" | ANewSem nat int | AFork nat nat int | AYield | AFinish | AP nat | AV nat
  | ASetSpace AddrSpace | AUser Machine | AHandlerV nat | AWake

fun enabled :: "Action \<Rightarrow> Kernel \<Rightarrow> bool" where
  "enabled (ANewThread t sp) k = (\<not> idling k \<and> threads k t = None)"
| "enabled (ANewSem s n) k = (\<not> idling k \<and> sems k s = None \<and> 0 \<le> n)"
| "enabled (AFork t f a) k = (\<not> idling k \<and> (case threads k t of None \<Rightarrow> False | Some th \<Rightarrow> t_status th = JUST_CREATED))"
| "enabled AYield k = (\<not> idling k)"
| "enabled AFinish k = (\<not> idling k)"
| "enabled (AP s) k = (\<not> idling k \<and> sems k s \<noteq> None)"
| "enabled (AV s) k = (\<not> idling k \<and> sems k s \<noteq> None)"
| "enabled (ASetSpace sp) k = (\<not> idling k)"
| "enabled (AUser m) k = (\<not> idling k)"
| "enabled (AHandlerV s) k = (sems k s \<noteq> None)"
| "enabled AWake k = idling k"

fun act :: "Action \<Rightarrow> Kernel \<Rightarrow> (Kernel \<times> passes) res" where
  "act (ANewThread t sp) k = Inr (k\<lparr>threads := (threads k)(t \<mapsto> Thread_new\<lparr>space := sp\<rparr>)\<rparr>, [])"
| "act (ANewSem s n) k = Inr (k\<lparr>sems := (sems k)(s \<mapsto> Semaphore_new n)\<rparr>, [])"
| "act (AFork t f a) k = rbind (Fork t f a k) (\<lambda>k'. Inr (k', []))"
| "act AYield k = Yield k"
| "act AFinish k = Finish k"
| "act (AP s) k = P s k"
| "act (AV s) k = rbind (V s k) (\<lambda>k'. Inr (k', []))"
| "act (ASetSpace sp) k = rbind (upd_thread (currentThread k) (\<lambda>th. th\<lparr>space := Some sp\<rparr>) k) (\<lambda>k'.
     Inr (k'\<lparr>machine := RestoreState sp (machine k')\<rparr>, []))"
| "act (AUser m) k = Inr (k\<lparr>machine := m\<rparr>, [])"
| "act (AHandlerV s) k = rbind (V s k) (\<lambda>k'. Inr (k', []))"
| "act AWake k = sched k"

inductive kernel_run :: "Kernel \<Rightarrow> (Action \<times> passes) list \<Rightarrow> Kernel \<Rightarrow> bool" where
  run_start: "kernel_run k [] k"
| run_step: "kernel_run k tr k1 \<Longrightarrow> enabled a k1 \<Longrightarrow> act a k1 = Inr (k2, ps) \<Longrightarrow> kernel_run k (tr @ [(a, ps)]) k2"

inductive_cases kernel_run_snocE: "kernel_run k tr k'"

section \<open>The kernel invariant\<close>

definition fence_ok :: "Thread \<Rightarrow> bool" where
  "fence_ok th \<longleftrightarrow> stack th = None \<or> stack th = Some STACK_FENCEPOST"

text \<open>Threads with a given status and a given place to resume.\<close>

definition ready_thread :: "Kernel \<Rightarrow> nat \<Rightarrow> bool" where
  "ready_thread k t \<longleftrightarrow> (\<exists>th. threads k t = Some th \<and> t_status th = READY \<and> resume_at th \<noteq> InFinish \<and>
     (\<forall>s. resume_at th = InP s \<longrightarrow> sems k s \<noteq> None))"

definition waiting_thread :: "Kernel \<Rightarrow> nat \<Rightarrow> nat \<Rightarrow> bool" where
  "waiting_thread k s t \<longleftrightarrow> (\<exists>th. threads k t = Some th \<and> t_status th = BLOCKED \<and> resume_at th = InP s)"

definition woken :: "Kernel \<Rightarrow> nat \<Rightarrow> nat \<Rightarrow> bool" where
  "woken k s t \<longleftrightarrow> map_option resume_at (threads k t) = Some (InP s)"

definition sem_ok :: "Kernel \<Rightarrow> nat \<Rightarrow> Semaphore \<Rightarrow> bool" where
  "sem_ok k s sm \<longleftrightarrow> 0 \<le> sem_value sm \<and> distinct (queue sm) \<and> (\<forall>t\<in>set (queue sm). waiting_thread k s t)"

text \<open>
  The part of the invariant that holds throughout a context switch, for the threads \<open>rl\<close> that
  are ready: the ready list, or the ready list with the thread that was taken from it.
\<close>

definition core_ok :: "nat list \<Rightarrow> Kernel \<Rightarrow> bool" where
  "core_ok rl k \<longleftrightarrow> distinct rl \<and> (\<forall>t\<in>set rl. ready_thread k t) \<and>
     (\<forall>s sm. sems k s = Some sm \<longrightarrow> sem_ok k s sm) \<and>
     (\<forall>t th. threads k t = Some th \<longrightarrow> fence_ok th) \<and>
     (\<exists>th. threads k (currentThread k) = Some th) \<and>
     (\<forall>z. threadToBeDestroyed k = Some z \<longrightarrow> (\<exists>th. threads k z = Some th \<and> t_status th = BLOCKED \<and> resume_at th = InFinish))"

text \<open>
  No wakeup is lost: while threads wait for a semaphore, a positive value is accounted for by
  threads that were woken and have not run yet.
\<close>

definition wake_ok :: "nat list \<Rightarrow> Kernel \<Rightarrow> bool" where
  "wake_ok rl k \<longleftrightarrow> (\<forall>s sm. sems k s = Some sm \<and> queue sm \<noteq> [] \<longrightarrow>
     sem_value sm \<le> int (length (filter (woken k s) rl)))"

definition current_status :: "Kernel \<Rightarrow> ThreadStatus option" where
  "current_status k = map_option t_status (threads k (currentThread k))"

definition kernel_ok :: "Kernel \<Rightarrow> bool" where
  "kernel_ok k \<longleftrightarrow> core_ok (readyList k) k \<and> wake_ok (readyList k) k \<and>
     (if idling k then current_status k \<in> {Some BLOCKED, Some READY} else current_status k = Some RUNNING)"

lemma core_ok_current: "core_ok rl k \<Longrightarrow> \<exists>th. threads k (currentThread k) = Some th \<and> fence_ok th"
  by (auto simp: core_ok_def)

lemma core_ok_fence: "core_ok rl k \<Longrightarrow> threads k t = Some th \<Longrightarrow> fence_ok th"
  by (simp add: core_ok_def)

lemma core_ok_waiting:
  "core_ok rl k \<Longrightarrow> sems k s = Some sm \<Longrightarrow> t \<in> set (queue sm) \<Longrightarrow> waiting_thread k s t"
  by (auto simp: core_ok_def sem_ok_def)

lemma core_ok_doomed:
  "core_ok rl k \<Longrightarrow> threadToBeDestroyed k = Some z \<Longrightarrow> \<exists>th. threads k z = Some th \<and> t_status th = BLOCKED \<and> resume_at th = InFinish"
  by (simp add: core_ok_def)

section \<open>Saving and restoring user registers\<close>

lemma SaveUserState_iter:
  assumes "\<forall>i\<in>set is. i < NumTotalRegs"
  shows "iter_res (\<lambda>i th. rbind (ReadRegister m (int i)) (\<lambda>v. Inr (th\<lparr>userRegisters := (userRegisters th)(i := v)\<rparr>))) is th =
    Inr (th\<lparr>userRegisters := (\<lambda>i. if i \<in> set is then regs m i else userRegisters th i)\<rparr>)"
  using assms
proof (induction "is" arbitrary: th)
  case (Cons i "is")
  then show ?case by (auto simp: ReadRegister_def intro!: Thread.equality)
qed simp

lemma SaveUserState_eq:
  "SaveUserState m th = Inr (th\<lparr>userRegisters := (\<lambda>i. if i < NumTotalRegs then regs m i else userRegisters th i)\<rparr>)"
  unfolding SaveUserState_def by (subst SaveUserState_iter) auto

lemma RestoreUserState_iter:
  assumes "\<forall>i\<in>set is. i < NumTotalRegs"
  shows "iter_res (\<lambda>i m. WriteRegister m (int i) (f i)) is m = Inr (m\<lparr>regs := (\<lambda>i. if i \<in> set is then f i else regs m i)\<rparr>)"
  using assms
proof (induction "is" arbitrary: m)
  case (Cons i "is")
  then show ?case by (auto simp: WriteRegister_def intro!: Machine.equality)
qed simp

lemma RestoreUserState_eq:
  "RestoreUserState th m = Inr (m\<lparr>regs := (\<lambda>i. if i < NumTotalRegs then userRegisters th i else regs m i)\<rparr>)"
  unfolding RestoreUserState_def by (subst RestoreUserState_iter) auto

section \<open>The two halves of a context switch\<close>

definition saved :: "Machine \<Rightarrow> Thread \<Rightarrow> Thread" where
  "saved m th = (case space th of None \<Rightarrow> th
     | Some sp \<Rightarrow> th\<lparr>userRegisters := (\<lambda>i. if i < NumTotalRegs then regs m i else userRegisters th i)\<rparr>)"

lemma saved_fields [simp]:
  "t_status (saved m th) = t_status th" "stack (saved m th) = stack th" "resume_at (saved m th) = resume_at th"
  "space (saved m th) = space th" "fence_ok (saved m th) = fence_ok th"
  by (simp_all add: saved_def fence_ok_def split: option.splits)

text \<open>The threads after the outgoing half: the old thread saved, the new one running.\<close>

definition switched :: "nat \<Rightarrow> Kernel \<Rightarrow> nat \<rightharpoonup> Thread" where
  "switched t k = (let ths = (threads k)(currentThread k := map_option (saved (machine k)) (threads k (currentThread k)))
     in ths(t := map_option (\<lambda>th. th\<lparr>t_status := RUNNING\<rparr>) (ths t)))"

lemma Run_out_eq:
  assumes "threads k (currentThread k) = Some th" "fence_ok th" "threads k t = Some th'"
  shows "Run_out t k = Inr (k\<lparr>threads := switched t k, currentThread := t\<rparr>)"
proof -
  have "threads k = (threads k)(currentThread k \<mapsto> th)" using assms(1) by auto
  moreover have "CheckOverflow th = Inr ()" using assms(2) by (auto simp: CheckOverflow_def fence_ok_def)
  ultimately show ?thesis using assms
    by (cases "space th")
      (auto simp: Run_out_def thread_of_def SaveUserState_eq SaveState_def setStatus_def upd_thread_def switched_def saved_def
        Let_def fun_upd_idem)
qed

lemma Run_in_eq:
  assumes "threads k (currentThread k) = Some th"
    "\<forall>z. threadToBeDestroyed k = Some z \<longrightarrow> z \<noteq> currentThread k \<and> threads k z \<noteq> None"
  shows "Run_in k = Inr (k\<lparr>threads := (case threadToBeDestroyed k of None \<Rightarrow> threads k | Some z \<Rightarrow> (threads k)(z := None)),
      threadToBeDestroyed := None,
      machine := (case space th of None \<Rightarrow> machine k
        | Some sp \<Rightarrow> RestoreState sp ((machine k)\<lparr>regs := (\<lambda>i. if i < NumTotalRegs then userRegisters th i else regs (machine k) i)\<rparr>))\<rparr>)"
  using assms
  by (cases "threadToBeDestroyed k"; cases "space th")
     (auto simp: Run_in_def thread_of_def Thread_delete_def RestoreUserState_eq)

section \<open>Context switches keep the invariant\<close>

definition may_run :: "nat \<Rightarrow> Kernel \<Rightarrow> bool" where
  "may_run t k \<longleftrightarrow> core_ok (t # readyList k) k \<and> wake_ok (t # readyList k) k \<and> \<not> idling k \<and>
     current_status k \<in> {Some BLOCKED, Some READY}"

text \<open>As \<open>wake_ok\<close>, when the current thread was woken from \<open>s\<close> and has not tested the value yet.\<close>

definition wake_in_P :: "nat option \<Rightarrow> Kernel \<Rightarrow> bool" where
  "wake_in_P w k \<longleftrightarrow> (\<forall>s sm. sems k s = Some sm \<and> queue sm \<noteq> [] \<longrightarrow>
     sem_value sm \<le> int (length (filter (woken k s) (readyList k))) + (if w = Some s then 1 else 0))"

definition may_P :: "nat \<Rightarrow> Kernel \<Rightarrow> bool" where
  "may_P s k \<longleftrightarrow> core_ok (readyList k) k \<and> wake_in_P (Some s) k \<and> \<not> idling k \<and> current_status k = Some RUNNING \<and> sems k s \<noteq> None"

definition may_sched :: "Kernel \<Rightarrow> bool" where
  "may_sched k \<longleftrightarrow> core_ok (readyList k) k \<and> wake_ok (readyList k) k \<and> current_status k \<in> {Some BLOCKED, Some READY}"

fun woken_from :: "Resume \<Rightarrow> nat option" where
  "woken_from (InP s) = Some s" | "woken_from _ = None"

lemma woken_from_iff: "woken_from r = Some s \<longleftrightarrow> r = InP s"
  by (cases r) auto

lemmas thread_preds = ready_thread_def waiting_thread_def sem_ok_def

lemma filter_woken_cong:
  "(\<And>t. t \<in> set rl \<Longrightarrow> map_option resume_at (threads k' t) = map_option resume_at (threads k t)) \<Longrightarrow>
   filter (woken k' s) rl = filter (woken k s) rl"
  by (rule filter_cong) (simp_all add: woken_def)

lemma wake_ok_le:
  "wake_ok rl k \<Longrightarrow> sems k s = Some sm \<Longrightarrow> queue sm \<noteq> [] \<Longrightarrow> sem_value sm \<le> int (length (filter (woken k s) rl))"
  by (simp add: wake_ok_def)

lemma wake_in_P_le:
  "wake_in_P w k \<Longrightarrow> sems k s = Some sm \<Longrightarrow> queue sm \<noteq> [] \<Longrightarrow>
   sem_value sm \<le> int (length (filter (woken k s) (readyList k))) + (if w = Some s then 1 else 0)"
  by (simp add: wake_in_P_def)

lemma kernel_preds_upd [simp]:
  "core_ok rl (k\<lparr>idling := b\<rparr>) = core_ok rl k" "core_ok rl (k\<lparr>readyList := ts\<rparr>) = core_ok rl k"
  "core_ok rl (k\<lparr>machine := m\<rparr>) = core_ok rl k"
  "wake_ok rl (k\<lparr>idling := b\<rparr>) = wake_ok rl k" "wake_ok rl (k\<lparr>readyList := ts\<rparr>) = wake_ok rl k"
  "wake_ok rl (k\<lparr>machine := m\<rparr>) = wake_ok rl k"
  "current_status (k\<lparr>idling := b\<rparr>) = current_status k" "current_status (k\<lparr>readyList := ts\<rparr>) = current_status k"
  "current_status (k\<lparr>machine := m\<rparr>) = current_status k"
  unfolding core_ok_def wake_ok_def thread_preds woken_def [abs_def] current_status_def by simp_all

lemma Run_out_ok:
  assumes "may_run t k"
  shows "\<exists>k1 th. Run_out t k = Inr k1 \<and> threads k1 t = Some th \<and> currentThread k1 = t \<and> readyList k1 = readyList k \<and>
     core_ok (readyList k1) k1 \<and> wake_in_P (woken_from (resume_at th)) k1 \<and> \<not> idling k1 \<and> current_status k1 = Some RUNNING \<and>
     resume_at th \<noteq> InFinish \<and> (\<forall>s. resume_at th = InP s \<longrightarrow> sems k1 s \<noteq> None)"
proof -
  have ok: "core_ok (t # readyList k) k" "wake_ok (t # readyList k) k" "\<not> idling k" using assms by (auto simp: may_run_def)
  obtain old where old: "threads k (currentThread k) = Some old" "fence_ok old" using core_ok_current [OF ok(1)] by blast
  obtain th where th: "threads k t = Some th" "t_status th = READY" "resume_at th \<noteq> InFinish"
    "\<forall>s. resume_at th = InP s \<longrightarrow> sems k s \<noteq> None" using ok(1) by (auto simp: core_ok_def ready_thread_def)
  let ?k1 = "k\<lparr>threads := switched t k, currentThread := t\<rparr>"
  note out = Run_out_eq [OF old th(1)]
  have same: "map_option resume_at (threads ?k1 x) = map_option resume_at (threads k x)" for x
    using old th by (auto simp: switched_def)
  have t: "\<exists>th'. threads ?k1 t = Some th' \<and> t_status th' = RUNNING \<and> resume_at th' = resume_at th \<and> fence_ok th'"
    using old th ok(1) by (auto simp: switched_def core_ok_def fence_ok_def saved_def split: option.splits)
  have other: "x \<noteq> t \<Longrightarrow> threads k x = Some y \<Longrightarrow> \<exists>y'. threads ?k1 x = Some y' \<and> t_status y' = t_status y \<and>
      resume_at y' = resume_at y \<and> fence_ok y' = fence_ok y" for x y
    using old by (auto simp: switched_def)
  have none: "threads k x = None \<Longrightarrow> threads ?k1 x = None" for x using old by (auto simp: switched_def)
  have ready: "\<forall>x\<in>set (readyList k). ready_thread ?k1 x"
    using ok(1) other unfolding core_ok_def ready_thread_def by (fastforce simp: )
  have "sem_ok ?k1 s sm" if "sems k s = Some sm" for s sm
  proof -
    have "sem_ok k s sm" using ok(1) that by (simp add: core_ok_def)
    moreover have "x \<noteq> t" if "waiting_thread k s x" for x using that th by (auto simp: waiting_thread_def)
    ultimately show ?thesis using other unfolding sem_ok_def waiting_thread_def by (metis (no_types, lifting))
  qed
  moreover have "fence_ok y" if "threads ?k1 x = Some y" for x y
    using that ok(1) t other none unfolding core_ok_def by (metis option.exhaust option.inject)
  moreover have "\<exists>y. threads ?k1 z = Some y \<and> t_status y = BLOCKED \<and> resume_at y = InFinish"
    if z: "threadToBeDestroyed k = Some z" for z
  proof -
    obtain y where y: "threads k z = Some y" "t_status y = BLOCKED" "resume_at y = InFinish"
      using core_ok_doomed [OF ok(1) z] by blast
    then have "z \<noteq> t" using th by auto
    from other [OF this y(1)] y show ?thesis by auto
  qed
  ultimately have "core_ok (readyList k) ?k1" using ok(1) ready t by (auto simp: core_ok_def)
  moreover have "wake_in_P (woken_from (resume_at th)) ?k1"
  proof -
    have "int (length (filter (woken k s) (t # readyList k))) =
        int (length (filter (woken k s) (readyList k))) + (if woken_from (resume_at th) = Some s then 1 else 0)" for s
      using th(1) by (simp add: woken_def [of k s t] woken_from_iff)
    then show ?thesis using wake_ok_le [OF ok(2)] by (auto simp: wake_in_P_def filter_woken_cong [OF same])
  qed
  ultimately show ?thesis using out t ok(3) th(3,4) by (auto simp: current_status_def)
qed

lemma Run_in_ok:
  assumes "core_ok (readyList k) k" "current_status k = Some RUNNING" "wake_in_P w k"
  shows "\<exists>k2. Run_in k = Inr k2 \<and> core_ok (readyList k2) k2 \<and> current_status k2 = Some RUNNING \<and> wake_in_P w k2 \<and>
     readyList k2 = readyList k \<and> sems k2 = sems k \<and> idling k2 = idling k \<and> currentThread k2 = currentThread k \<and>
     threadToBeDestroyed k2 = None"
proof -
  obtain th where th: "threads k (currentThread k) = Some th" "t_status th = RUNNING"
    using assms(2) by (auto simp: current_status_def)
  have tbd: "\<forall>z. threadToBeDestroyed k = Some z \<longrightarrow> z \<noteq> currentThread k \<and> threads k z \<noteq> None"
    using assms(1) th by (auto simp: core_ok_def)
  note r = Run_in_eq [OF th(1) tbd]
  obtain k2 where k2: "Run_in k = Inr k2" "readyList k2 = readyList k" "sems k2 = sems k" "idling k2 = idling k"
    "currentThread k2 = currentThread k" "threadToBeDestroyed k2 = None"
    "threads k2 = (case threadToBeDestroyed k of None \<Rightarrow> threads k | Some z \<Rightarrow> (threads k)(z := None))"
    using r by auto
  have gone: "threadToBeDestroyed k = Some z \<Longrightarrow> z \<notin> set (readyList k) \<and> (\<forall>s sm. sems k s = Some sm \<longrightarrow> z \<notin> set (queue sm))" for z
    using assms(1) by (fastforce simp: core_ok_def thread_preds)
  have keep: "threads k2 x = threads k x" if "x \<in> set (readyList k) \<or> (\<exists>s sm. sems k s = Some sm \<and> x \<in> set (queue sm))" for x
    using that gone by (auto simp: k2(7) split: option.splits)
  have "core_ok (readyList k) k2"
  proof -
    have "fence_ok y" if "threads k2 x = Some y" for x y
      using that assms(1) by (auto simp: k2(7) core_ok_def split: option.splits if_splits)
    moreover have "\<forall>x\<in>set (readyList k). ready_thread k2 x"
      using assms(1) keep by (auto simp: core_ok_def ready_thread_def k2(3))
    moreover have "sem_ok k2 s sm" if "sems k s = Some sm" for s sm
      using assms(1) keep that unfolding core_ok_def sem_ok_def waiting_thread_def by metis
    moreover have "threads k2 (currentThread k) = Some th" using th tbd by (auto simp: k2(7) split: option.splits)
    ultimately show ?thesis using assms(1) by (simp add: core_ok_def k2)
  qed
  moreover have "wake_in_P w k2"
    using assms(3) filter_woken_cong [of "readyList k" k2 k] keep by (simp add: wake_in_P_def k2)
  moreover have "current_status k2 = Some RUNNING"
    using th tbd by (auto simp: current_status_def k2 split: option.splits)
  ultimately show ?thesis using k2 by auto
qed

lemma P_sleeps_ok:
  assumes "may_P s k" "sems k s = Some sm" "sem_value sm = 0"
  shows "\<exists>k1 k2. upd_sem s (\<lambda>sm. sm\<lparr>queue := queue sm @ [currentThread k]\<rparr>) k = Inr k1 \<and> block (InP s) k1 = Inr k2 \<and> may_sched k2"
proof -
  have ok: "core_ok (readyList k) k" "wake_in_P (Some s) k" using assms(1) by (auto simp: may_P_def)
  obtain th where th: "threads k (currentThread k) = Some th" "t_status th = RUNNING"
    using assms(1) by (auto simp: may_P_def current_status_def)
  let ?th = "th\<lparr>t_status := BLOCKED, resume_at := InP s\<rparr>"
  let ?k2 = "k\<lparr>sems := (sems k)(s \<mapsto> sm\<lparr>queue := queue sm @ [currentThread k]\<rparr>), threads := (threads k)(currentThread k \<mapsto> ?th)\<rparr>"
  have notin: "currentThread k \<notin> set (readyList k)" "\<And>s' sm'. sems k s' = Some sm' \<Longrightarrow> currentThread k \<notin> set (queue sm')"
    using ok(1) th by (fastforce simp: core_ok_def thread_preds)+
  have keep: "x \<noteq> currentThread k \<Longrightarrow> threads ?k2 x = threads k x" for x by simp
  have "core_ok (readyList k) ?k2"
  proof -
    have "ready_thread ?k2 x" if "x \<in> set (readyList k)" for x
      using that ok(1) notin(1) by (auto simp: core_ok_def ready_thread_def)
    moreover have "sem_ok ?k2 s' sm'" if "sems ?k2 s' = Some sm'" for s' sm'
    proof (cases "s' = s")
      case True
      then show ?thesis using that assms(2,3) ok(1) notin(2) [OF assms(2)] by (auto simp: core_ok_def thread_preds)
    next
      case False
      then show ?thesis using that ok(1) notin(2) [of s' sm'] by (auto simp: core_ok_def thread_preds)
    qed
    moreover have "fence_ok y" if "threads ?k2 x = Some y" for x y
      using that core_ok_fence [OF ok(1), of x] core_ok_fence [OF ok(1) th(1)] th(1) by (auto simp: fence_ok_def split: if_splits)
    moreover have "\<exists>y. threads ?k2 z = Some y \<and> t_status y = BLOCKED \<and> resume_at y = InFinish"
      if "threadToBeDestroyed k = Some z" for z
      using that ok(1) th by (auto simp: core_ok_def)
    ultimately show ?thesis using ok(1) by (auto simp: core_ok_def)
  qed
  moreover have "wake_ok (readyList k) ?k2"
  proof -
    have "filter (woken ?k2 s') (readyList k) = filter (woken k s') (readyList k)" for s'
      using notin(1) keep by (intro filter_woken_cong) metis
    moreover have "sem_value sm' \<le> int (length (filter (woken k s') (readyList k)))"
      if "sems k s' = Some sm'" "queue sm' \<noteq> []" "s' \<noteq> s" for s' sm'
      using wake_in_P_le [OF ok(2) that(1,2)] that(3) by simp
    ultimately show ?thesis using assms(3) by (auto simp: wake_ok_def)
  qed
  ultimately show ?thesis using assms(2) th
    by (auto simp: upd_sem_def sem_of_def block_def upd_thread_def thread_of_def may_sched_def current_status_def)
qed

lemma P_passes_ok:
  assumes "may_P s k" "sems k s = Some sm" "sem_value sm \<noteq> 0"
  shows "kernel_ok (k\<lparr>sems := (sems k)(s \<mapsto> sm\<lparr>sem_value := sem_value sm - 1\<rparr>)\<rparr>)"
proof -
  let ?k1 = "k\<lparr>sems := (sems k)(s \<mapsto> sm\<lparr>sem_value := sem_value sm - 1\<rparr>)\<rparr>"
  have ok: "core_ok (readyList k) k" "wake_in_P (Some s) k" using assms(1) by (auto simp: may_P_def)
  have "sem_ok ?k1 s' sm'" if "sems ?k1 s' = Some sm'" for s' sm'
    using that ok(1) assms(2,3) by (cases "s' = s") (fastforce simp: core_ok_def thread_preds)+
  moreover have "\<forall>t\<in>set (readyList k). ready_thread ?k1 t" using ok(1) by (auto simp: core_ok_def ready_thread_def)
  ultimately have "core_ok (readyList k) ?k1" using ok(1) by (simp add: core_ok_def)
  moreover have "wake_ok (readyList k) ?k1"
  proof -
    have "filter (woken ?k1 s') rl = filter (woken k s') rl" for s' rl by (rule filter_woken_cong) simp
    then show ?thesis using wake_in_P_le [OF ok(2)] assms(2) by (fastforce simp: wake_ok_def)
  qed
  ultimately show ?thesis using assms(1) by (simp add: kernel_ok_def may_P_def current_status_def)
qed

text \<open>The result of an operation that may switch threads.\<close>

definition lands :: "(Kernel \<times> passes) res \<Rightarrow> bool" where
  "lands r \<longleftrightarrow> (\<exists>k' ps. r = Inr (k', ps) \<and> kernel_ok k')"

lemma wake_in_P_None: "wake_in_P None k \<longleftrightarrow> wake_ok (readyList k) k"
  by (simp add: wake_in_P_def wake_ok_def)

lemma switch_lands:
  "may_run t k \<Longrightarrow> lands (run t k)"
  "may_P s k \<Longrightarrow> lands (P_loop s k)"
  "may_sched k \<Longrightarrow> lands (sched k)"
proof (induction t k and s k and k rule: run_P_loop_sched.induct)
  case (1 t k)
  obtain k1 th where k1: "Run_out t k = Inr k1" "threads k1 t = Some th" "currentThread k1 = t"
    "core_ok (readyList k1) k1" "wake_in_P (woken_from (resume_at th)) k1" "\<not> idling k1" "current_status k1 = Some RUNNING"
    "resume_at th \<noteq> InFinish" "\<forall>s. resume_at th = InP s \<longrightarrow> sems k1 s \<noteq> None"
    using Run_out_ok [OF 1(2)] by blast
  obtain k2 where k2: "Run_in k1 = Inr k2" "core_ok (readyList k2) k2" "current_status k2 = Some RUNNING"
    "wake_in_P (woken_from (resume_at th)) k2" "sems k2 = sems k1" "idling k2 = idling k1"
    using Run_in_ok [OF k1(4,7,5)] by blast
  have th: "thread_of t k1 = Inr th" using k1(2) by (simp add: thread_of_def)
  have r: "run t k = (case resume_at th of AtThreadRoot \<Rightarrow> Inr (k1, []) | InYield \<Rightarrow> Inr (k2, [])
      | InP s \<Rightarrow> P_loop s k2 | InFinish \<Rightarrow> Inl BadPointer)"
    by (simp add: run.simps k1(1) th k2(1) split: Resume.splits)
  show ?case
  proof (cases "resume_at th")
    case AtThreadRoot
    then show ?thesis using k1 by (simp add: r lands_def kernel_ok_def wake_in_P_None)
  next
    case InYield
    then show ?thesis using k1(6) k2 by (simp add: r lands_def kernel_ok_def wake_in_P_None)
  next
    case (InP s)
    then have "may_P s k2" using k1(6,9) k2 by (simp add: may_P_def)
    then show ?thesis using 1(1) [OF k1(1) th InP k2(1)] InP by (simp add: r)
  qed (use k1(8) in simp)
next
  case (2 s k)
  then obtain sm where sm: "sems k s = Some sm" by (auto simp: may_P_def)
  then have so: "sem_of s k = Inr sm" by (simp add: sem_of_def)
  show ?case
  proof (cases "sem_value sm = 0")
    case True
    obtain k1 k2 where k: "upd_sem s (\<lambda>sm. sm\<lparr>queue := queue sm @ [currentThread k]\<rparr>) k = Inr k1" "block (InP s) k1 = Inr k2"
      "may_sched k2" using P_sleeps_ok [OF 2(2) sm True] by blast
    then have "lands (sched k2)" using 2(1) [OF so True] by blast
    then show ?thesis by (simp add: P_loop.simps so True k(1,2))
  next
    case False
    have "kernel_ok (k\<lparr>sems := (sems k)(s \<mapsto> sm\<lparr>sem_value := sem_value sm - 1\<rparr>)\<rparr>)" using P_passes_ok [OF 2(2) sm False] .
    then show ?thesis using so sm False by (simp add: P_loop.simps lands_def upd_sem_def)
  qed
next
  case (3 k)
  show ?case
  proof (cases "readyList k")
    case Nil
    then show ?thesis using 3(2) Nil by (simp add: sched.simps lands_def kernel_ok_def may_sched_def)
  next
    case (Cons t rest)
    let ?k = "k\<lparr>readyList := rest, idling := False\<rparr>"
    have "may_run t ?k" using 3(2) Cons by (simp add: may_sched_def may_run_def)
    then show ?thesis using 3(1) [OF Cons] Cons by (simp add: sched.simps)
  qed
qed

section \<open>Every step of the kernel succeeds and keeps the invariant\<close>

text \<open>A thread that is in no queue.\<close>

definition loose :: "Kernel \<Rightarrow> nat \<Rightarrow> bool" where
  "loose k t \<longleftrightarrow> t \<notin> set (readyList k) \<and> (\<forall>s sm. sems k s = Some sm \<longrightarrow> t \<notin> set (queue sm)) \<and> threadToBeDestroyed k \<noteq> Some t"

lemma current_status_sems [simp]: "current_status (k\<lparr>sems := f\<rparr>) = current_status k"
  by (simp add: current_status_def)

lemma loose_status:
  assumes "core_ok (readyList k) k" "threads k t = Some th" "t_status th \<notin> {READY, BLOCKED}"
  shows "loose k t"
  using assms by (fastforce simp: loose_def core_ok_def thread_preds)

lemma core_ok_thread:
  assumes "core_ok rl k" "\<And>s sm. sems k s = Some sm \<Longrightarrow> t \<notin> set (queue sm)" "t \<notin> set rl" "threadToBeDestroyed k \<noteq> Some t"
    and "fence_ok th"
  shows "core_ok rl (k\<lparr>threads := (threads k)(t \<mapsto> th)\<rparr>)"
proof -
  let ?k = "k\<lparr>threads := (threads k)(t \<mapsto> th)\<rparr>"
  have "ready_thread ?k x" if "x \<in> set rl" for x
  proof -
    have "x \<noteq> t" "ready_thread k x" using that assms(1,3) by (auto simp: core_ok_def)
    then show ?thesis by (simp add: ready_thread_def)
  qed
  moreover have "sem_ok ?k s sm" if s: "sems k s = Some sm" for s sm
  proof -
    have "sem_ok k s sm" using assms(1) s by (simp add: core_ok_def)
    moreover have "waiting_thread ?k s x" if "x \<in> set (queue sm)" "waiting_thread k s x" for x
      using that assms(2) [OF s] by (auto simp: waiting_thread_def)
    ultimately show ?thesis by (auto simp: sem_ok_def)
  qed
  ultimately show ?thesis using assms(1,4,5) by (auto simp: core_ok_def)
qed

lemma core_ok_snoc:
  "core_ok rl k \<Longrightarrow> ready_thread k t \<Longrightarrow> t \<notin> set rl \<Longrightarrow> core_ok (rl @ [t]) k"
  by (auto simp: core_ok_def)

lemma make_ready:
  assumes "core_ok (readyList k) k" "loose k t" "fence_ok th" "t_status th = READY" "resume_at th \<noteq> InFinish"
    "\<forall>s. resume_at th = InP s \<longrightarrow> sems k s \<noteq> None"
  shows "core_ok (readyList k @ [t]) (k\<lparr>threads := (threads k)(t \<mapsto> th)\<rparr>)"
proof (rule core_ok_snoc)
  show "core_ok (readyList k) (k\<lparr>threads := (threads k)(t \<mapsto> th)\<rparr>)"
    using assms(2) by (intro core_ok_thread assms(1,3)) (auto simp: loose_def)
  show "ready_thread (k\<lparr>threads := (threads k)(t \<mapsto> th)\<rparr>) t" using assms by (auto simp: ready_thread_def)
  show "t \<notin> set (readyList k)" using assms(2) by (simp add: loose_def)
qed

lemma wake_ok_thread:
  assumes "wake_ok (readyList k) k" "loose k t"
  shows "wake_ok (readyList k) (k\<lparr>threads := (threads k)(t \<mapsto> th)\<rparr>)"
proof -
  have "filter (woken (k\<lparr>threads := (threads k)(t \<mapsto> th)\<rparr>) s) (readyList k) = filter (woken k s) (readyList k)" for s
    using assms(2) by (intro filter_woken_cong) (auto simp: loose_def)
  then show ?thesis using assms(1) by (simp add: wake_ok_def)
qed

lemma wake_ok_snoc: "wake_ok rl k \<Longrightarrow> wake_ok (rl @ [t]) k"
  by (force simp: wake_ok_def)

lemma wake_ok_snoc_thread:
  assumes "wake_ok (readyList k) k" "loose k t"
  shows "wake_ok (readyList k @ [t]) (k\<lparr>threads := (threads k)(t \<mapsto> th)\<rparr>)"
  using wake_ok_snoc [OF wake_ok_thread [OF assms]] .

lemma ReadyToRun_eq:
  "threads k t = Some th \<Longrightarrow>
   ReadyToRun t k = Inr (k\<lparr>threads := (threads k)(t \<mapsto> th\<lparr>t_status := READY\<rparr>), readyList := readyList k @ [t]\<rparr>)"
  by (simp add: ReadyToRun_def setStatus_def upd_thread_def thread_of_def)

lemma running_loose:
  assumes "kernel_ok k" "\<not> idling k"
  shows "\<exists>th. threads k (currentThread k) = Some th \<and> t_status th = RUNNING \<and> fence_ok th \<and> loose k (currentThread k)"
proof -
  have ok: "core_ok (readyList k) k" "current_status k = Some RUNNING" using assms by (auto simp: kernel_ok_def)
  then obtain th where th: "threads k (currentThread k) = Some th" "t_status th = RUNNING" by (auto simp: current_status_def)
  then show ?thesis using core_ok_fence [OF ok(1) th(1)] loose_status [OF ok(1) th(1)] by simp
qed

lemma Fork_ok:
  assumes "kernel_ok k" "\<not> idling k" "threads k t = Some th" "t_status th = JUST_CREATED"
  shows "\<exists>k'. Fork t f a k = Inr k' \<and> kernel_ok k'"
proof -
  obtain cur where cur: "threads k (currentThread k) = Some cur" "t_status cur = RUNNING"
    using running_loose [OF assms(1,2)] by blast
  then have ne: "currentThread k \<noteq> t" using assms(3,4) by auto
  have ok: "core_ok (readyList k) k" "wake_ok (readyList k) k" using assms(1) by (auto simp: kernel_ok_def)
  have l: "loose k t" using loose_status [OF ok(1) assms(3)] assms(4) by simp
  let ?th = "(StackAllocate f a th)\<lparr>t_status := READY\<rparr>"
  have "core_ok (readyList k @ [t]) (k\<lparr>threads := (threads k)(t \<mapsto> ?th)\<rparr>)"
    by (rule make_ready [OF ok(1) l]) (simp_all add: StackAllocate_def fence_ok_def)
  moreover note wake_ok_snoc_thread [OF ok(2) l, of ?th]
  moreover have "Fork t f a k = Inr (k\<lparr>threads := (threads k)(t \<mapsto> ?th), readyList := readyList k @ [t]\<rparr>)"
    using assms(3) by (simp add: Fork_def upd_thread_def thread_of_def ReadyToRun_eq)
  ultimately show ?thesis using assms(2) ne cur by (simp add: kernel_ok_def current_status_def)
qed

lemma V_eq_empty:
  "sems k s = Some sm \<Longrightarrow> queue sm = [] \<Longrightarrow> V s k = Inr (k\<lparr>sems := (sems k)(s \<mapsto> sm\<lparr>sem_value := sem_value sm + 1\<rparr>)\<rparr>)"
  by (simp add: V_def sem_of_def upd_sem_def)

lemma V_eq_wake:
  assumes "sems k s = Some sm" "queue sm = t # ts" "threads k t = Some th"
  shows "V s k = Inr (k\<lparr>sems := (sems k)(s \<mapsto> sm\<lparr>queue := ts, sem_value := sem_value sm + 1\<rparr>),
      threads := (threads k)(t \<mapsto> th\<lparr>t_status := READY\<rparr>), readyList := readyList k @ [t]\<rparr>)"
  using assms by (simp add: V_def sem_of_def upd_sem_def ReadyToRun_eq)

lemma V_ok:
  assumes "kernel_ok k" "sems k s = Some sm"
  shows "\<exists>k'. V s k = Inr k' \<and> kernel_ok k'"
proof -
  have ok: "core_ok (readyList k) k" "wake_ok (readyList k) k" using assms(1) by (auto simp: kernel_ok_def)
  have so: "sem_ok k s' sm'" if "sems k s' = Some sm'" for s' sm' using ok(1) that by (simp add: core_ok_def)
  show ?thesis
  proof (cases "queue sm")
    case Nil
    let ?k = "k\<lparr>sems := (sems k)(s \<mapsto> sm\<lparr>sem_value := sem_value sm + 1\<rparr>)\<rparr>"
    have "sem_ok ?k s' sm'" if "sems ?k s' = Some sm'" for s' sm'
      using that so assms(2) by (cases "s' = s") (fastforce simp: sem_ok_def waiting_thread_def)+
    moreover have "\<forall>t\<in>set (readyList k). ready_thread ?k t" using ok(1) by (auto simp: core_ok_def ready_thread_def)
    ultimately have "core_ok (readyList k) ?k" using ok(1) by (simp add: core_ok_def)
    moreover have "wake_ok (readyList k) ?k"
    proof -
      have "filter (woken ?k s') rl = filter (woken k s') rl" for s' rl by (rule filter_woken_cong) simp
      then show ?thesis using wake_ok_le [OF ok(2)] Nil by (auto simp: wake_ok_def)
    qed
    ultimately show ?thesis using assms V_eq_empty [OF assms(2) Nil] by (auto simp: kernel_ok_def split: if_splits)
  next
    case (Cons t ts)
    have q: "distinct (t # ts)" "waiting_thread k s t" using so [OF assms(2)] Cons by (auto simp: sem_ok_def)
    obtain th where th: "threads k t = Some th" "t_status th = BLOCKED" "resume_at th = InP s" "fence_ok th"
      using q(2) core_ok_fence [OF ok(1)] by (auto simp: waiting_thread_def)
    let ?sm = "sm\<lparr>queue := ts, sem_value := sem_value sm + 1\<rparr>"
    let ?k1 = "k\<lparr>sems := (sems k)(s \<mapsto> ?sm)\<rparr>"
    have "sem_ok ?k1 s' sm'" if "sems ?k1 s' = Some sm'" for s' sm'
      using that so assms(2) Cons q(1) by (cases "s' = s") (fastforce simp: sem_ok_def waiting_thread_def)+
    moreover have "\<forall>t\<in>set (readyList k). ready_thread ?k1 t" using ok(1) by (auto simp: core_ok_def ready_thread_def)
    ultimately have k1: "core_ok (readyList ?k1) ?k1" using ok(1) by (simp add: core_ok_def)
    have l: "loose ?k1 t"
    proof -
      have "t \<notin> set (readyList k)" using ok(1) th by (auto simp: core_ok_def ready_thread_def)
      moreover have "t \<notin> set (queue sm')" if "sems k s' = Some sm'" "s' \<noteq> s" for s' sm'
        using so [OF that(1)] th that(2) by (auto simp: sem_ok_def waiting_thread_def)
      moreover have "threadToBeDestroyed k \<noteq> Some t" using core_ok_doomed [OF ok(1)] th by fastforce
      ultimately show ?thesis using q(1) by (auto simp: loose_def)
    qed
    let ?th = "th\<lparr>t_status := READY\<rparr>"
    let ?k2 = "?k1\<lparr>threads := (threads k)(t \<mapsto> ?th)\<rparr>"
    have c: "core_ok (readyList k @ [t]) ?k2"
      using make_ready [OF k1 l, of ?th] th by (simp add: fence_ok_def)
    have "wake_ok (readyList k @ [t]) ?k2"
    proof -
      have f: "filter (woken ?k2 s') (readyList k) = filter (woken k s') (readyList k)" for s'
        using l by (intro filter_woken_cong) (auto simp: loose_def)
      have "woken ?k2 s t" using th by (simp add: woken_def)
      then show ?thesis using wake_ok_le [OF ok(2)] wake_ok_le [OF ok(2) assms(2)] Cons by (force simp: wake_ok_def f)
    qed
    moreover have "current_status ?k2 = (if currentThread k = t then Some READY else current_status k)"
      by (auto simp: current_status_def)
    moreover have "currentThread k = t \<Longrightarrow> idling k"
      using assms(1) th by (auto simp: kernel_ok_def current_status_def split: if_splits)
    ultimately show ?thesis using assms(1) c V_eq_wake [OF assms(2) Cons th(1)] by (auto simp: kernel_ok_def)
  qed
qed

lemma Yield_ok:
  assumes "kernel_ok k" "\<not> idling k"
  shows "lands (Yield k)"
proof (cases "readyList k")
  case Nil
  then show ?thesis using assms(1) by (simp add: Yield_def FindNextToRun_def lands_def)
next
  case (Cons t ts)
  obtain th where th: "threads k (currentThread k) = Some th" "t_status th = RUNNING" "fence_ok th" "loose k (currentThread k)"
    using running_loose [OF assms] by blast
  let ?th = "th\<lparr>resume_at := InYield, t_status := READY\<rparr>"
  let ?k = "k\<lparr>threads := (threads k)(currentThread k \<mapsto> ?th), readyList := ts @ [currentThread k]\<rparr>"
  have ok: "core_ok (readyList k) k" "wake_ok (readyList k) k" using assms(1) by (auto simp: kernel_ok_def)
  have "core_ok (readyList k @ [currentThread k]) (k\<lparr>threads := (threads k)(currentThread k \<mapsto> ?th)\<rparr>)"
    by (rule make_ready [OF ok(1) th(4)]) (use th in \<open>simp_all add: fence_ok_def\<close>)
  then have "may_run t ?k"
    using wake_ok_snoc_thread [OF ok(2) th(4), of ?th] assms(2) Cons
    by (simp only: may_run_def kernel_preds_upd) (simp add: current_status_def)
  then have "lands (run t ?k)" by (rule switch_lands)
  then show ?thesis using th(1)
    by (simp add: Yield_def FindNextToRun_def Cons upd_thread_def thread_of_def ReadyToRun_eq)
qed

lemma Finish_ok:
  assumes "kernel_ok k" "\<not> idling k"
  shows "lands (Finish k)"
proof -
  obtain th where th: "threads k (currentThread k) = Some th" "fence_ok th" "loose k (currentThread k)"
    using running_loose [OF assms] by blast
  have ok: "core_ok (readyList k) k" "wake_ok (readyList k) k" using assms(1) by (auto simp: kernel_ok_def)
  let ?th = "th\<lparr>t_status := BLOCKED, resume_at := InFinish\<rparr>"
  let ?k = "k\<lparr>threads := (threads k)(currentThread k \<mapsto> ?th)\<rparr>"
  have "core_ok (readyList k) ?k" using th by (intro core_ok_thread [OF ok(1)]) (auto simp: loose_def fence_ok_def)
  then have "core_ok (readyList k) (?k\<lparr>threadToBeDestroyed := Some (currentThread k)\<rparr>)"
    unfolding core_ok_def thread_preds by simp
  moreover have "wake_ok (readyList k) (?k\<lparr>threadToBeDestroyed := Some (currentThread k)\<rparr>)"
    using wake_ok_thread [OF ok(2) th(3), of ?th] unfolding wake_ok_def woken_def [abs_def] by simp
  ultimately have "may_sched (?k\<lparr>threadToBeDestroyed := Some (currentThread k)\<rparr>)"
    by (simp add: may_sched_def current_status_def)
  moreover have "?k\<lparr>threadToBeDestroyed := Some (currentThread k)\<rparr> =
      k\<lparr>threadToBeDestroyed := Some (currentThread k), threads := (threads k)(currentThread k \<mapsto> ?th)\<rparr>" by simp
  ultimately have "lands (sched (k\<lparr>threadToBeDestroyed := Some (currentThread k), threads := (threads k)(currentThread k \<mapsto> ?th)\<rparr>))"
    using switch_lands(3) by metis
  then show ?thesis using th(1) by (simp add: Finish_def block_def upd_thread_def thread_of_def)
qed

lemma act_ok:
  assumes "kernel_ok k" "enabled a k"
  shows "lands (act a k)"
proof (cases a)
  case (ANewThread t sp)
  have ok: "core_ok (readyList k) k" "wake_ok (readyList k) k" using assms(1) by (auto simp: kernel_ok_def)
  have n: "threads k t = None" "\<not> idling k" using assms(2) ANewThread by auto
  obtain cur where "threads k (currentThread k) = Some cur" "t_status cur = RUNNING" using running_loose [OF assms(1) n(2)] by blast
  moreover have l: "loose k t"
    using n(1) ok(1) unfolding loose_def core_ok_def thread_preds by (metis option.distinct(1))
  moreover have "core_ok (readyList k) (k\<lparr>threads := (threads k)(t \<mapsto> Thread_new\<lparr>space := sp\<rparr>)\<rparr>)"
    using l by (intro core_ok_thread [OF ok(1)]) (auto simp: loose_def fence_ok_def Thread_new_def)
  moreover note wake_ok_thread [OF ok(2) l, of "Thread_new\<lparr>space := sp\<rparr>"]
  ultimately show ?thesis using n ANewThread by (auto simp: lands_def kernel_ok_def current_status_def)
next
  case (ANewSem s n)
  let ?k = "k\<lparr>sems := (sems k)(s \<mapsto> Semaphore_new n)\<rparr>"
  have n: "sems k s = None" "0 \<le> n" using assms(2) ANewSem by auto
  have ok: "core_ok (readyList k) k" "wake_ok (readyList k) k" using assms(1) by (auto simp: kernel_ok_def)
  have "core_ok (readyList k) ?k" using ok(1) n unfolding core_ok_def thread_preds by (auto simp: Semaphore_new_def)
  moreover have "wake_ok (readyList k) ?k"
    using ok(2) unfolding wake_ok_def woken_def [abs_def] by (auto simp: Semaphore_new_def)
  ultimately show ?thesis using assms(1) ANewSem by (auto simp: lands_def kernel_ok_def split: if_splits)
next
  case (AFork t f a)
  then show ?thesis using assms Fork_ok [of k t _ f a] by (auto simp: lands_def split: option.splits)
next
  case (AP s)
  then have k: "core_ok (readyList k) k" "wake_ok (readyList k) k" "\<not> idling k" "current_status k = Some RUNNING" "sems k s \<noteq> None"
    using assms by (auto simp: kernel_ok_def)
  have "wake_in_P (Some s) k" unfolding wake_in_P_def using wake_ok_le [OF k(2)] by fastforce
  then have "may_P s k" using k by (simp add: may_P_def)
  then show ?thesis using AP switch_lands(2) by (simp add: P_def)
next
  case (ASetSpace sp)
  obtain th where th: "threads k (currentThread k) = Some th" "t_status th = RUNNING" "fence_ok th" "loose k (currentThread k)"
    using running_loose [OF assms(1)] assms(2) ASetSpace by auto
  have ok: "core_ok (readyList k) k" "wake_ok (readyList k) k" using assms(1) by (auto simp: kernel_ok_def)
  let ?k = "k\<lparr>threads := (threads k)(currentThread k \<mapsto> th\<lparr>space := Some sp\<rparr>)\<rparr>"
  have "core_ok (readyList k) ?k" using th by (intro core_ok_thread [OF ok(1)]) (auto simp: loose_def fence_ok_def)
  then show ?thesis using th assms(2) ASetSpace wake_ok_thread [OF ok(2) th(4), of "th\<lparr>space := Some sp\<rparr>"]
    by (simp add: lands_def kernel_ok_def upd_thread_def thread_of_def current_status_def)
next
  case (AV s)
  then show ?thesis using V_ok [OF assms(1), of s] assms(2) by (auto simp: lands_def)
next
  case (AHandlerV s)
  then show ?thesis using V_ok [OF assms(1), of s] assms(2) by (auto simp: lands_def)
next
  case (AUser m)
  then show ?thesis using assms by (simp add: lands_def kernel_ok_def)
next
  case AWake
  then have "may_sched k" using assms by (simp add: may_sched_def kernel_ok_def)
  then show ?thesis using AWake switch_lands(3) by simp
qed (use assms Yield_ok Finish_ok in simp_all)

section \<open>Semaphores count\<close>

text \<open>How many calls of \<open>P\<close> on \<open>s\<close> have passed.\<close>

definition passed :: "nat \<Rightarrow> passes \<Rightarrow> nat" where
  "passed s ps = length (filter (\<lambda>(t, s'). s' = s) ps)"

definition value_of :: "Kernel \<Rightarrow> nat \<Rightarrow> int option" where
  "value_of k s = map_option sem_value (sems k s)"

definition drops :: "Kernel \<Rightarrow> (Kernel \<times> passes) res \<Rightarrow> bool" where
  "drops k r \<longleftrightarrow> (\<forall>k' ps. r = Inr (k', ps) \<longrightarrow> (\<forall>s v. value_of k s = Some v \<longrightarrow> value_of k' s = Some (v - int (passed s ps))))"

lemma drops_same: "value_of k1 = value_of k \<Longrightarrow> drops k1 r \<Longrightarrow> drops k r"
  by (simp add: drops_def)

lemma drops_Inr: "value_of k1 = value_of k \<Longrightarrow> drops k (Inr (k1, []))"
  by (simp add: drops_def passed_def)

lemma value_of_upd [simp]:
  "value_of (k\<lparr>threads := f\<rparr>) = value_of k" "value_of (k\<lparr>currentThread := t\<rparr>) = value_of k"
  "value_of (k\<lparr>readyList := l\<rparr>) = value_of k" "value_of (k\<lparr>idling := b\<rparr>) = value_of k" "value_of (k\<lparr>machine := m\<rparr>) = value_of k"
  "value_of (k\<lparr>threadToBeDestroyed := z\<rparr>) = value_of k"
  by (simp_all add: value_of_def fun_eq_iff)

lemma value_of_Run_out: "Run_out t k = Inr k' \<Longrightarrow> value_of k' = value_of k"
  by (auto simp: Run_out_def setStatus_def upd_thread_eq rbind_eq_Inr Let_def split: option.splits)

lemma value_of_Run_in: "Run_in k = Inr k' \<Longrightarrow> value_of k' = value_of k"
  by (auto simp: Run_in_def Thread_delete_def rbind_eq_Inr split: option.splits)

lemma value_of_sem: "sems k s = Some sm \<Longrightarrow> value_of (k\<lparr>sems := (sems k)(s \<mapsto> sm')\<rparr>) = (value_of k)(s \<mapsto> sem_value sm')"
  by (auto simp: value_of_def)

lemma value_of_queue: "upd_sem s (\<lambda>sm. sm\<lparr>queue := f sm\<rparr>) k = Inr k' \<Longrightarrow> value_of k' = value_of k"
  by (auto simp: upd_sem_eq value_of_sem) (auto simp: value_of_def)

lemma switch_drops:
  "drops k (run t k)" "drops k (P_loop s k)" "drops k (sched k)"
proof (induction t k and s k and k rule: run_P_loop_sched.induct)
  case (1 t k)
  show ?case
  proof (cases "Run_out t k")
    case (Inr k1)
    note v1 = value_of_Run_out [OF Inr]
    show ?thesis
    proof (cases "thread_of t k1")
      case th: (Inr th)
      show ?thesis
      proof (cases "Run_in k1")
        case k2: (Inr k2)
        note v2 = value_of_Run_in [OF k2]
        have "drops k (P_loop s k2)" if "resume_at th = InP s" for s
          using 1(1) [OF Inr th that k2] v1 v2 drops_same [of k2 k] by simp
        then show ?thesis using v1 v2 by (simp add: run.simps Inr th k2 drops_Inr drops_def [of _ "Inl _"] split: Resume.splits)
      qed (use v1 in \<open>simp add: run.simps Inr th drops_Inr drops_def [of _ "Inl _"] split: Resume.splits\<close>)
    qed (simp add: run.simps Inr drops_def)
  qed (simp add: run.simps drops_def)
next
  case (2 s k)
  show ?case
  proof (cases "sems k s")
    case (Some sm)
    then have so: "sem_of s k = Inr sm" by (simp add: sem_of_def)
    show ?thesis
    proof (cases "sem_value sm = 0")
      case True
      obtain k1 where k1: "upd_sem s (\<lambda>sm. sm\<lparr>queue := queue sm @ [currentThread k]\<rparr>) k = Inr k1"
        using Some by (simp add: upd_sem_def sem_of_def)
      note v1 = value_of_queue [OF k1]
      show ?thesis
      proof (cases "block (InP s) k1")
        case (Inr k2)
        have "value_of k2 = value_of k1" using Inr by (auto simp: block_def upd_thread_eq)
        then show ?thesis using 2 [OF so True k1 Inr] drops_same [of k2 k] v1 by (simp add: P_loop.simps so True k1 Inr)
      qed (simp add: P_loop.simps so True k1 drops_def)
    next
      case False
      then show ?thesis using Some
        by (auto simp: P_loop.simps so upd_sem_def drops_def value_of_sem passed_def) (auto simp: value_of_def)
    qed
  qed (simp add: P_loop.simps sem_of_def drops_def)
next
  case (3 k)
  show ?case
  proof (cases "readyList k")
    case (Cons t ts)
    then show ?thesis using 3 [OF Cons] drops_same [of "k\<lparr>readyList := ts, idling := False\<rparr>" k] by (simp add: sched.simps)
  qed (simp add: sched.simps drops_Inr)
qed

section \<open>Runs of the kernel\<close>

definition signals :: "nat \<Rightarrow> Action \<Rightarrow> bool" where
  "signals s a \<longleftrightarrow> a = AV s \<or> a = AHandlerV s"

lemma V_value:
  assumes "V s' k = Inr k'" "value_of k s = Some v"
  shows "value_of k' s = Some (v + (if s' = s then 1 else 0))"
proof -
  obtain sm k1 where k1: "sems k s' = Some sm" "(case queue sm of [] \<Rightarrow> Inr k
      | t # ts \<Rightarrow> rbind (upd_sem s' (\<lambda>sm. sm\<lparr>queue := ts\<rparr>) k) (ReadyToRun t)) = Inr k1"
      "upd_sem s' (\<lambda>sm. sm\<lparr>sem_value := sem_value sm + 1\<rparr>) k1 = Inr k'"
    using assms(1) by (auto simp: V_def sem_of_def rbind_eq_Inr split: option.splits)
  have "value_of k1 = value_of k"
    using k1(2) by (auto simp: rbind_eq_Inr ReadyToRun_def setStatus_def upd_thread_eq dest: value_of_queue split: list.splits)
  then have "value_of k1 s = Some v" using assms(2) by simp
  then show ?thesis using k1(3) by (auto simp: upd_sem_eq value_of_def)
qed

lemma act_value:
  assumes "enabled a k" "act a k = Inr (k', ps)" "value_of k s = Some v"
  shows "value_of k' s = Some (v + (if signals s a then 1 else 0) - int (passed s ps))"
proof (cases a)
  case (ANewSem s' n)
  then show ?thesis using assms by (auto simp: value_of_def signals_def passed_def)
next
  case (AFork t f a)
  then show ?thesis using assms(2,3)
    by (auto simp: signals_def passed_def rbind_eq_Inr Fork_def ReadyToRun_def setStatus_def upd_thread_eq)
next
  case AYield
  obtain x k1 where x: "FindNextToRun k = (x, k1)" by force
  then have v: "value_of k1 = value_of k" by (auto simp: FindNextToRun_def split: list.splits)
  show ?thesis
  proof (cases x)
    case (Some t)
    then obtain k2 k3 where k: "upd_thread (currentThread k1) (\<lambda>th. th\<lparr>resume_at := InYield\<rparr>) k1 = Inr k2"
      "ReadyToRun (currentThread k2) k2 = Inr k3" "run t k3 = Inr (k', ps)"
      using assms(2) AYield x by (auto simp: Yield_def rbind_eq_Inr)
    then have "value_of k3 = value_of k" using v by (auto simp: upd_thread_eq ReadyToRun_def setStatus_def rbind_eq_Inr)
    then show ?thesis using switch_drops(1) [of k3 t] k(3) assms(3) AYield by (simp add: drops_def signals_def)
  qed (use assms AYield x v in \<open>simp add: Yield_def signals_def passed_def\<close>)
next
  case AFinish
  then obtain k1 where k1: "block InFinish (k\<lparr>threadToBeDestroyed := Some (currentThread k)\<rparr>) = Inr k1" "sched k1 = Inr (k', ps)"
    using assms(2) by (auto simp: Finish_def rbind_eq_Inr)
  then have "value_of k1 = value_of k" by (auto simp: block_def upd_thread_eq)
  then show ?thesis using switch_drops(3) [of k1] k1(2) assms(3) AFinish by (simp add: drops_def signals_def)
next
  case (AP s')
  then show ?thesis using switch_drops(2) [of k s'] assms by (simp add: drops_def P_def signals_def)
next
  case (AV s')
  then show ?thesis using assms V_value [of s' k _ s v] by (auto simp: rbind_eq_Inr signals_def passed_def)
next
  case (AHandlerV s')
  then show ?thesis using assms V_value [of s' k _ s v] by (auto simp: rbind_eq_Inr signals_def passed_def)
next
  case AWake
  then show ?thesis using switch_drops(3) [of k] assms by (simp add: drops_def signals_def)
qed (use assms in \<open>auto simp: signals_def passed_def rbind_eq_Inr upd_thread_eq\<close>)

lemma kernel_run_ok: "kernel_run k tr k' \<Longrightarrow> kernel_ok k \<Longrightarrow> kernel_ok k'"
proof (induction rule: kernel_run.induct)
  case (run_step k tr k1 a k2 ps)
  then show ?case using act_ok [of k1 a] by (auto simp: lands_def)
qed

text \<open>The number of \<open>V\<close>s and of passed \<open>P\<close>s on a semaphore along a run.\<close>

definition ups :: "nat \<Rightarrow> (Action \<times> passes) list \<Rightarrow> nat" where
  "ups s tr = length (filter (\<lambda>(a, ps). signals s a) tr)"

definition downs :: "nat \<Rightarrow> (Action \<times> passes) list \<Rightarrow> nat" where
  "downs s tr = sum_list (map (\<lambda>(a, ps). passed s ps) tr)"

lemma kernel_run_value:
  "kernel_run k tr k' \<Longrightarrow> value_of k s = Some v \<Longrightarrow> value_of k' s = Some (v + int (ups s tr) - int (downs s tr))"
proof (induction rule: kernel_run.induct)
  case (run_step k tr k1 a k2 ps)
  then show ?case using act_value [OF run_step(2,3) run_step.IH] by (simp add: ups_def downs_def)
qed (simp add: ups_def downs_def)

text \<open>A kernel with its main thread running, and with a second thread and a semaphore.\<close>

definition kernel0 :: Kernel where
  "kernel0 = \<lparr>threads = [0 \<mapsto> Thread_new\<lparr>t_status := RUNNING\<rparr>], currentThread = 0, threadToBeDestroyed = None,
     readyList = [], sems = Map.empty, machine = Machine_new 0, idling = False\<rparr>"

lemma kernel0_ok: "kernel_ok kernel0"
  by (simp add: kernel0_def kernel_ok_def core_ok_def wake_ok_def current_status_def Thread_new_def fence_ok_def)

text \<open>
  C4: the thread system never fails. From a well-formed state, whatever sequence of thread
  operations, semaphore operations, device signals and wake-ups happens, the next one that is
  enabled completes: no assertion of \<open>Yield\<close>, \<open>Sleep\<close>, \<open>Run\<close> or \<open>~Thread\<close> fails, no pointer to a
  deleted thread is followed, and the switch to a resumed thread, which may go back to sleep
  at once, ends. In every state it leads to, the ready list has no duplicates, the running
  thread is in no queue, no thread waits for two semaphores or is ready and waiting, and a
  thread that has finished is never the running one.
\<close>

theorem kernel_never_fails:
  assumes "kernel_ok k0" "kernel_run k0 tr k"
  shows "kernel_ok k \<and> (\<forall>a. enabled a k \<longrightarrow> (\<exists>k' ps. act a k = Inr (k', ps) \<and> kernel_ok k')) \<and>
    distinct (readyList k) \<and>
    (\<not> idling k \<longrightarrow> currentThread k \<notin> set (readyList k) \<and> threadToBeDestroyed k \<noteq> Some (currentThread k) \<and>
       (\<forall>s sm. sems k s = Some sm \<longrightarrow> currentThread k \<notin> set (queue sm))) \<and>
    (\<forall>s sm. sems k s = Some sm \<longrightarrow> set (queue sm) \<inter> set (readyList k) = {} \<and>
       (\<forall>s' sm'. sems k s' = Some sm' \<and> s' \<noteq> s \<longrightarrow> set (queue sm) \<inter> set (queue sm') = {}))"
proof -
  have ok: "kernel_ok k" using kernel_run_ok assms by blast
  then have c: "core_ok (readyList k) k" by (simp add: kernel_ok_def)
  have w: "waiting_thread k s t" if "sems k s = Some sm" "t \<in> set (queue sm)" for s sm t
    using c that by (auto simp: core_ok_def sem_ok_def)
  have "\<not> idling k \<Longrightarrow> loose k (currentThread k)" using running_loose [OF ok] by blast
  moreover have "set (queue sm) \<inter> set (readyList k) = {}" if "sems k s = Some sm" for s sm
    using w [OF that] c by (fastforce simp: core_ok_def ready_thread_def waiting_thread_def)
  moreover have "set (queue sm) \<inter> set (queue sm') = {}" if "sems k s = Some sm" "sems k s' = Some sm'" "s' \<noteq> s" for s sm s' sm'
    using w [OF that(1)] w [OF that(2)] that(3) by (fastforce simp: waiting_thread_def)
  moreover have "distinct (readyList k)" using c by (simp add: core_ok_def)
  ultimately show ?thesis using ok act_ok [OF ok] unfolding lands_def loose_def by blast
qed

theorem kernel_never_fails_witness:
  "kernel_ok kernel0 \<and> (\<exists>k' ps. act AFinish kernel0 = Inr (k', ps) \<and> kernel_ok k')"
proof -
  have "enabled AFinish kernel0" by (simp add: kernel0_def)
  then show ?thesis using kernel_never_fails [OF kernel0_ok run_start] kernel0_ok by blast
qed


definition kernel1 :: Kernel where
  "kernel1 = kernel0\<lparr>sems := [7 \<mapsto> Semaphore_new 1]\<rparr>"

lemma kernel1_ok: "kernel_ok kernel1"
  by (simp add: kernel1_def kernel0_def kernel_ok_def core_ok_def wake_ok_def current_status_def Thread_new_def fence_ok_def
      sem_ok_def Semaphore_new_def)

lemma kernel1_P: "kernel_run kernel1 [(AP 7, [(0, 7)])] (kernel1\<lparr>sems := [7 \<mapsto> Semaphore_new 0]\<rparr>)"
proof -
  have "act (AP 7) kernel1 = Inr (kernel1\<lparr>sems := [7 \<mapsto> Semaphore_new 0]\<rparr>, [(0, 7)])"
    by (simp add: P_def P_loop.simps sem_of_def upd_sem_def kernel1_def kernel0_def Semaphore_new_def)
  moreover have "enabled (AP 7) kernel1" by (simp add: kernel1_def kernel0_def)
  ultimately show ?thesis using run_step [OF run_start] by fastforce
qed


text \<open>
  C13: no wakeup is lost. In every state of a run, while a thread waits for a semaphore, the
  value of the semaphore is at most the number of threads that were woken from its queue and
  are still on the ready list. In particular a kernel that idles with an empty ready list has
  no thread asleep on a semaphore whose value would let it pass.
\<close>

theorem no_lost_wakeup:
  assumes "kernel_ok k0" "kernel_run k0 tr k" "sems k s = Some sm" "queue sm \<noteq> []"
  shows "sem_value sm \<le> int (length (filter (woken k s) (readyList k))) \<and> (readyList k = [] \<longrightarrow> sem_value sm = 0)"
proof -
  have ok: "kernel_ok k" using kernel_run_ok assms by blast
  have "sem_value sm \<le> int (length (filter (woken k s) (readyList k)))" using ok wake_ok_le assms(3,4) by (simp add: kernel_ok_def)
  moreover have "0 \<le> sem_value sm" using ok assms(3) by (simp add: kernel_ok_def core_ok_def sem_ok_def)
  ultimately show ?thesis by auto
qed

definition kernel2 :: Kernel where
  "kernel2 = kernel0\<lparr>sems := [7 \<mapsto> Semaphore_new 0]\<rparr>"

lemma kernel2_ok: "kernel_ok kernel2"
  by (simp add: kernel2_def kernel0_def kernel_ok_def core_ok_def wake_ok_def current_status_def Thread_new_def fence_ok_def
      sem_ok_def Semaphore_new_def)

theorem no_lost_wakeup_witness:
  "\<exists>k. kernel_run kernel2 [(AP 7, [])] k \<and> idling k \<and> (\<exists>sm. sems k 7 = Some sm \<and> queue sm = [0] \<and> sem_value sm = 0)"
proof -
  obtain k where k: "act (AP 7) kernel2 = Inr (k, [])" "idling k" "readyList k = []" "sems k 7 = Some \<lparr>sem_value = 0, queue = [0]\<rparr>"
    by (simp add: P_def P_loop.simps sched.simps sem_of_def upd_sem_def block_def upd_thread_def thread_of_def
        kernel2_def kernel0_def Semaphore_new_def)
  moreover have "enabled (AP 7) kernel2" by (simp add: kernel2_def kernel0_def)
  ultimately have r: "kernel_run kernel2 [(AP 7, [])] k" using run_step [OF run_start] by fastforce
  then show ?thesis using k no_lost_wakeup [OF kernel2_ok r k(4)] by auto
qed

section \<open>Context switches are transparent to user programs\<close>

text \<open>
  A user thread \<open>t\<close> with address space \<open>sp\<close> and register contents \<open>R\<close>: while it runs they are in
  the machine, with the page table of \<open>sp\<close>; while it does not, they are in the thread.
\<close>

definition saved_as :: "nat \<Rightarrow> (nat \<Rightarrow> 32 word) \<Rightarrow> AddrSpace \<Rightarrow> Kernel \<Rightarrow> bool" where
  "saved_as t R sp k \<longleftrightarrow> threadToBeDestroyed k \<noteq> Some t \<and> (\<exists>th. threads k t = Some th \<and> space th = Some sp \<and>
     resume_at th \<noteq> AtThreadRoot \<and> (\<forall>i<NumTotalRegs. userRegisters th i = R i))"

definition live_as :: "nat \<Rightarrow> (nat \<Rightarrow> 32 word) \<Rightarrow> AddrSpace \<Rightarrow> Kernel \<Rightarrow> bool" where
  "live_as t R sp k \<longleftrightarrow> threadToBeDestroyed k \<noteq> Some t \<and> (\<exists>th. threads k t = Some th \<and> space th = Some sp \<and>
     (idling k \<longrightarrow> resume_at th \<noteq> AtThreadRoot)) \<and> (\<forall>i<NumTotalRegs. regs (machine k) i = R i) \<and>
     (\<not> idling k \<longrightarrow> pageTable (machine k) = Some (as_pageTable sp) \<and> pageTableSize (machine k) = numPages sp)"

definition user_view :: "nat \<Rightarrow> (nat \<Rightarrow> 32 word) \<Rightarrow> AddrSpace \<Rightarrow> Kernel \<Rightarrow> bool" where
  "user_view t R sp k \<longleftrightarrow> (if currentThread k = t then live_as t R sp k else saved_as t R sp k)"

text \<open>The same while \<open>t\<close> may be about to be switched away from.\<close>

definition leaving :: "nat \<Rightarrow> (nat \<Rightarrow> 32 word) \<Rightarrow> AddrSpace \<Rightarrow> Kernel \<Rightarrow> bool" where
  "leaving t R sp k \<longleftrightarrow> threadToBeDestroyed k \<noteq> Some t \<and> (\<exists>th. threads k t = Some th \<and> space th = Some sp \<and>
     resume_at th \<noteq> AtThreadRoot \<and>
     (\<forall>i<NumTotalRegs. (if currentThread k = t then regs (machine k) i else userRegisters th i) = R i))"

lemma Run_out_saves:
  assumes "leaving t R sp k" "Run_out n k = Inr k1"
  shows "saved_as t R sp k1" "currentThread k1 = n" "idling k1 = idling k"
  using assms
  by (auto simp: Run_out_def leaving_def saved_as_def SaveUserState_eq setStatus_def upd_thread_eq rbind_eq_Inr thread_of_def Let_def
      split: option.splits if_splits)

lemma Run_in_restores:
  assumes "saved_as t R sp k" "Run_in k = Inr k1" "\<not> idling k"
  shows "user_view t R sp k1"
  using assms
  by (auto simp: Run_in_def saved_as_def user_view_def live_as_def RestoreUserState_eq RestoreState_def Thread_delete_def
      rbind_eq_Inr thread_of_def split: option.splits if_splits)

lemma switch_keeps_view:
  "leaving t R sp k \<Longrightarrow> \<not> idling k \<Longrightarrow> run n k = Inr (k', ps) \<Longrightarrow> user_view t R sp k'"
  "user_view t R sp k \<Longrightarrow> \<not> idling k \<Longrightarrow> P_loop s k = Inr (k', ps) \<Longrightarrow> user_view t R sp k'"
  "leaving t R sp k \<Longrightarrow> sched k = Inr (k', ps) \<Longrightarrow> user_view t R sp k'"
proof (induction n k and s k and k rule: run_P_loop_sched.induct)
  case (1 n k)
  obtain k1 th where k1: "Run_out n k = Inr k1" "thread_of n k1 = Inr th"
    using 1(4) by (auto simp: run.simps rbind_eq_Inr)
  note s = Run_out_saves [OF 1(2) k1(1)]
  have th: "threads k1 n = Some th" using k1(2) by (simp add: thread_of_def split: option.splits)
  show ?case
  proof (cases "resume_at th")
    case AtThreadRoot
    then have "n \<noteq> t" using s(1) th by (auto simp: saved_as_def)
    then show ?thesis using 1(4) k1 s AtThreadRoot by (simp add: run.simps user_view_def)
  next
    case InYield
    then obtain k2 where "Run_in k1 = Inr k2" "k' = k2" using 1(4) k1 by (auto simp: run.simps rbind_eq_Inr)
    then show ?thesis using Run_in_restores [OF s(1)] s(3) 1(3) by simp
  next
    case (InP s')
    then obtain k2 where k2: "Run_in k1 = Inr k2" "P_loop s' k2 = Inr (k', ps)" using 1(4) k1 by (auto simp: run.simps rbind_eq_Inr)
    have "user_view t R sp k2" using Run_in_restores [OF s(1) k2(1)] s(3) 1(3) by simp
    moreover have "\<not> idling k2" using k2(1) s(3) 1(3) by (auto simp: Run_in_def Thread_delete_def rbind_eq_Inr split: option.splits)
    ultimately show ?thesis using 1(1) [OF k1 InP k2(1)] k2(2) by blast
  next
    case InFinish
    then show ?thesis using 1(4) k1 by (simp add: run.simps)
  qed
next
  case (2 s k)
  obtain sm where sm: "sem_of s k = Inr sm" using 2(4) by (auto simp: P_loop.simps rbind_eq_Inr)
  show ?case
  proof (cases "sem_value sm = 0")
    case True
    then obtain k1 k2 where k: "upd_sem s (\<lambda>sm. sm\<lparr>queue := queue sm @ [currentThread k]\<rparr>) k = Inr k1"
      "block (InP s) k1 = Inr k2" "sched k2 = Inr (k', ps)"
      using 2(4) sm by (auto simp: P_loop.simps rbind_eq_Inr)
    have "leaving t R sp k2"
      using 2(2,3) k(1,2) by (auto simp: upd_sem_eq block_def upd_thread_eq leaving_def user_view_def live_as_def saved_as_def split: if_splits)
    then show ?thesis using 2(1) [OF sm True k(1,2)] k(3) by blast
  next
    case False
    then show ?thesis using 2(2-4) sm
      by (auto simp: P_loop.simps rbind_eq_Inr upd_sem_eq user_view_def live_as_def saved_as_def)
  qed
next
  case (3 k)
  show ?case
  proof (cases "readyList k")
    case Nil
    then show ?thesis using 3(2,3) by (auto simp: sched.simps user_view_def live_as_def saved_as_def leaving_def)
  next
    case (Cons n rest)
    have "leaving t R sp (k\<lparr>readyList := rest, idling := False\<rparr>)" using 3(2) by (auto simp: leaving_def)
    then show ?thesis using 3(1) [OF Cons] 3(3) Cons by (simp add: sched.simps)
  qed
qed

text \<open>Actions in which \<open>t\<close> itself changes its user state or ends, or is started anew.\<close>

fun own :: "nat \<Rightarrow> Kernel \<Rightarrow> Action \<Rightarrow> bool" where
  "own t k AFinish = (currentThread k = t)"
| "own t k (AUser m) = (currentThread k = t)"
| "own t k (ASetSpace sp) = (currentThread k = t)"
| "own t k (AFork t' f a) = (t' = t)"
| "own t k _ = False"

lemma V_keeps_view:
  assumes "user_view t R sp k" "V s k = Inr k'"
  shows "user_view t R sp k'"
  using assms
  by (auto simp: V_def sem_of_def upd_sem_eq ReadyToRun_def setStatus_def upd_thread_eq rbind_eq_Inr
      user_view_def live_as_def saved_as_def split: option.splits list.splits if_splits)

lemma act_keeps_view:
  assumes "user_view t R sp k" "enabled a k" "\<not> own t k a" "act a k = Inr (k', ps)"
  shows "user_view t R sp k'"
proof (cases a)
  case (AFork t' f x)
  then show ?thesis using assms
    by (auto simp: Fork_def ReadyToRun_def setStatus_def upd_thread_eq rbind_eq_Inr StackAllocate_def
        user_view_def live_as_def saved_as_def split: if_splits)
next
  case AYield
  show ?thesis
  proof (cases "readyList k")
    case (Cons n rest)
    obtain cur where cur: "threads k (currentThread k) = Some cur"
      using assms(4) AYield Cons by (auto simp: Yield_def FindNextToRun_def rbind_eq_Inr upd_thread_eq)
    let ?k = "k\<lparr>threads := (threads k)(currentThread k \<mapsto> cur\<lparr>resume_at := InYield, t_status := READY\<rparr>),
        readyList := rest @ [currentThread k]\<rparr>"
    have "leaving t R sp ?k"
      using assms(1) cur by (auto simp: leaving_def user_view_def live_as_def saved_as_def split: if_splits)
    moreover have "run n ?k = Inr (k', ps)"
      using assms(4) AYield Cons cur by (simp add: Yield_def FindNextToRun_def upd_thread_def thread_of_def ReadyToRun_eq)
    ultimately show ?thesis using switch_keeps_view(1) assms(2) AYield by simp
  qed (use assms AYield in \<open>simp add: Yield_def FindNextToRun_def\<close>)
next
  case AFinish
  then obtain k1 where k1: "block InFinish (k\<lparr>threadToBeDestroyed := Some (currentThread k)\<rparr>) = Inr k1" "sched k1 = Inr (k', ps)"
    using assms(4) by (auto simp: Finish_def rbind_eq_Inr)
  have "leaving t R sp k1"
    using assms(1,3) AFinish k1(1) by (auto simp: block_def upd_thread_eq leaving_def user_view_def saved_as_def)
  then show ?thesis using switch_keeps_view(3) k1(2) by blast
next
  case (AP s)
  then show ?thesis using switch_keeps_view(2) assms by (auto simp: P_def)
next
  case (AV s)
  then show ?thesis using V_keeps_view assms(1,4) by (auto simp: rbind_eq_Inr)
next
  case (AHandlerV s)
  then show ?thesis using V_keeps_view assms(1,4) by (auto simp: rbind_eq_Inr)
next
  case AWake
  then have "leaving t R sp k"
    using assms(1,2) by (auto simp: user_view_def live_as_def saved_as_def leaving_def split: if_splits)
  then show ?thesis using switch_keeps_view(3) assms(4) AWake by simp
qed (use assms in \<open>auto simp: rbind_eq_Inr upd_thread_eq user_view_def live_as_def saved_as_def split: if_splits\<close>)

text \<open>Runs in which \<open>t\<close> executes no user instruction: other threads run, and it is switched away from and back to.\<close>

inductive others_run :: "nat \<Rightarrow> Kernel \<Rightarrow> Kernel \<Rightarrow> bool" for t where
  others_none: "others_run t k k"
| others_step: "others_run t k k1 \<Longrightarrow> enabled a k1 \<Longrightarrow> \<not> own t k1 a \<Longrightarrow> act a k1 = Inr (k2, ps) \<Longrightarrow> others_run t k k2"

lemma others_run_view: "others_run t k k' \<Longrightarrow> user_view t R sp k \<Longrightarrow> user_view t R sp k'"
  by (induction rule: others_run.induct) (use act_keeps_view in blast)+

text \<open>
  C5: a user program does not notice that it was switched away from. Let a thread with an
  address space run, and let then any kernel operations happen, its own yields and waits
  included, in which other threads run and change the machine as they like. Whenever it is the
  running thread again, all 40 user registers hold what they held, and the page table of its
  own address space is installed.
\<close>

theorem context_switch_transparent:
  assumes "kernel_ok k" "\<not> idling k" "threads k (currentThread k) = Some th" "space th = Some sp"
    and "pageTable (machine k) = Some (as_pageTable sp)" "pageTableSize (machine k) = numPages sp"
    and "others_run (currentThread k) k k'" "currentThread k' = currentThread k" "\<not> idling k'"
  shows "(\<forall>i<NumTotalRegs. regs (machine k') i = regs (machine k) i) \<and>
    pageTable (machine k') = Some (as_pageTable sp) \<and> pageTableSize (machine k') = numPages sp"
proof -
  have "threadToBeDestroyed k \<noteq> Some (currentThread k)"
    using running_loose [OF assms(1,2)] by (auto simp: loose_def)
  then have "user_view (currentThread k) (regs (machine k)) sp k"
    using assms(2-6) by (auto simp: user_view_def live_as_def)
  from others_run_view [OF assms(7) this] show ?thesis using assms(8,9) by (auto simp: user_view_def live_as_def)
qed

definition space0 :: AddrSpace where
  "space0 = \<lparr>as_pageTable = 5, numPages = 3\<rparr>"

text \<open>A user thread 0 that runs, and a kernel thread 1 that is ready.\<close>

definition kernel3 :: Kernel where
  "kernel3 = \<lparr>threads = [0 \<mapsto> Thread_new\<lparr>t_status := RUNNING, space := Some space0\<rparr>,
       1 \<mapsto> (StackAllocate 9 0 Thread_new)\<lparr>t_status := READY\<rparr>],
     currentThread = 0, threadToBeDestroyed = None, readyList = [1], sems = Map.empty,
     machine = RestoreState space0 ((Machine_new 0)\<lparr>regs := (\<lambda>_. 42)\<rparr>), idling = False\<rparr>"

lemma kernel3_ok: "kernel_ok kernel3"
  by (simp add: kernel3_def kernel_ok_def core_ok_def wake_ok_def current_status_def Thread_new_def fence_ok_def
      ready_thread_def StackAllocate_def)

lemmas act_eval = Yield_def FindNextToRun_def upd_thread_def thread_of_def ReadyToRun_eq run.simps Run_out_def CheckOverflow_def
  SaveUserState_eq SaveState_def setStatus_def Run_in_def RestoreUserState_eq RestoreState_def Let_def

lemma kernel3_run:
  "\<exists>k. others_run 0 kernel3 k \<and> currentThread k = 0 \<and> \<not> idling k"
proof -
  obtain k1 where k1: "act AYield kernel3 = Inr (k1, [])" "currentThread k1 = 1" "\<not> idling k1"
      "readyList k1 = [0]" "threadToBeDestroyed k1 = None"
      "\<exists>th. threads k1 0 = Some th \<and> resume_at th = InYield \<and> space th = Some space0" "\<exists>th. threads k1 1 = Some th \<and> space th = None \<and> stack th = Some STACK_FENCEPOST"
    by (simp add: act_eval kernel3_def Thread_new_def StackAllocate_def)
  let ?k2 = "k1\<lparr>machine := Machine_new 0\<rparr>"
  obtain k3 where k3: "act AYield ?k2 = Inr (k3, [])" "currentThread k3 = 0" "\<not> idling k3"
    using k1(2-) by (auto simp: act_eval)
  have "others_run 0 kernel3 k1"
    using k1(1) by (intro others_step [OF others_none, where a = AYield]) (simp_all add: kernel3_def)
  then have "others_run 0 kernel3 ?k2"
    using k1(2,3) by (rule_tac others_step [where a = "AUser (Machine_new 0)"]) simp_all
  then have "others_run 0 kernel3 k3"
    using k1(3) k3(1) by (rule_tac others_step [where a = AYield]) simp_all
  then show ?thesis using k3 by blast
qed

theorem context_switch_transparent_witness:
  "\<exists>k. others_run 0 kernel3 k \<and> currentThread k = 0 \<and> regs (machine k) StackReg = 42 \<and> pageTable (machine k) = Some 5"
proof -
  obtain k where k: "others_run 0 kernel3 k" "currentThread k = 0" "\<not> idling k" using kernel3_run by blast
  have "\<not> idling kernel3" "threads kernel3 (currentThread kernel3) = Some (Thread_new\<lparr>t_status := RUNNING, space := Some space0\<rparr>)"
    "currentThread kernel3 = 0" by (simp_all add: kernel3_def)
  then have "(\<forall>i<NumTotalRegs. regs (machine k) i = regs (machine kernel3) i) \<and> pageTable (machine k) = Some (as_pageTable space0)"
    using k context_switch_transparent [OF kernel3_ok, of "Thread_new\<lparr>t_status := RUNNING, space := Some space0\<rparr>" space0 k]
    by (simp add: kernel3_def RestoreState_def)
  moreover have "StackReg < NumTotalRegs" "regs (machine kernel3) StackReg = 42" by (simp_all add: kernel3_def RestoreState_def)
  ultimately have "regs (machine k) StackReg = 42" "pageTable (machine k) = Some 5" by (auto simp: space0_def)
  then show ?thesis using k by blast
qed

end
