(* ===== verification/Synch_Devices.thy ===== *)
theory Synch_Devices
  imports Devices Threads
begin

text \<open>
  The synchronous devices (\<open>filesys/synchdisk.cc\<close>, \<open>threads/synchcons.cc\<close>), where the raw devices
  meet the thread system: a thread that uses one sleeps on a semaphore, and the handler of the
  device's interrupt signals it. The kernel of the device model is now the thread system, and
  the handlers' signal is \<open>V\<close>.
\<close>

section \<open>The kernel behind the devices\<close>

text \<open>
  The semaphores of the synchronous devices: \<open>synchReadAvail\<close>, \<open>synchWriteAvail\<close>, the semaphore of
  the synchronous disk, and \<open>messageAvailable\<close> and \<open>messageSent\<close> of the post office.
\<close>

fun sem_for :: "Signal \<Rightarrow> nat" where
  "sem_for SigReadAvail = 0"
| "sem_for SigWriteDone = 1"
| "sem_for SigDiskRequestDone = 2"
| "sem_for SigPacketAvail = 3"
| "sem_for SigPacketSent = 4"

abbreviation disk_sem :: nat where "disk_sem \<equiv> 2"

text \<open>
  The handlers \<open>SynchReadFunct\<close>, \<open>SynchWriteFunct\<close>, \<open>DiskRequestDone\<close>, \<open>ReadAvail\<close> and \<open>WriteDone\<close>. A device
  whose semaphore does not exist is not in use.
\<close>

definition kernel_signal :: "Signal \<Rightarrow> Kernel \<Rightarrow> Kernel" where
  "kernel_signal sig k = (case V (sem_for sig) k of Inr k' \<Rightarrow> k' | Inl e \<Rightarrow> k)"

section \<open>Synchronous disk\<close>

text \<open>
  \<open>lock->Acquire()\<close> and \<open>lock->Release()\<close> do nothing in \<open>synch.cc\<close>. The result is what the request
  left, with the effect of \<open>semaphore->P()\<close> on the threads: as a rule the caller sleeps.
\<close>

definition SynchDisk_new :: "string \<Rightarrow> Kernel sim \<Rightarrow> Kernel sim res" where
  "SynchDisk_new name s =
     Disk_new name (upd_kernel (\<lambda>k. k\<lparr>sems := (sems k)(disk_sem \<mapsto> Semaphore_new 0)\<rparr>) s)"

definition ReadSector :: "int \<Rightarrow> Kernel sim \<Rightarrow> (byte list \<times> passes \<times> Kernel sim) res" where
  "ReadSector sectorNumber s =
     rbind (ReadRequest sectorNumber s) (\<lambda>(data, s1).
     rbind (P disk_sem (kernel (world s1))) (\<lambda>(k, ps).
       Inr (data, ps, upd_kernel (\<lambda>_. k) s1)))"

definition WriteSector :: "int \<Rightarrow> byte list \<Rightarrow> Kernel sim \<Rightarrow> (passes \<times> Kernel sim) res" where
  "WriteSector sectorNumber data s =
     rbind (WriteRequest sectorNumber data s) (\<lambda>s1.
     rbind (P disk_sem (kernel (world s1))) (\<lambda>(k, ps).
       Inr (ps, upd_kernel (\<lambda>_. k) s1)))"

definition RequestDone :: "Kernel \<Rightarrow> Kernel res" where
  "RequestDone = V disk_sem"

section \<open>A disk request as seen by its thread\<close>

text \<open>Nothing waits for another device.\<close>

definition others_quiet :: "Kernel \<Rightarrow> bool" where
  "others_quiet k \<longleftrightarrow> (\<forall>s sm. sems k s = Some sm \<and> s \<noteq> disk_sem \<longrightarrow> queue sm = [])"

text \<open>Thread \<open>t\<close> waits for the disk, alone; and it was woken.\<close>

definition awaits_disk :: "nat \<Rightarrow> Kernel \<Rightarrow> bool" where
  "awaits_disk t k \<longleftrightarrow> readyList k = [] \<and> (\<exists>sm. sems k disk_sem = Some sm \<and> queue sm = [t] \<and> sem_value sm = 0)"

definition woken_by_disk :: "nat \<Rightarrow> Kernel \<Rightarrow> bool" where
  "woken_by_disk t k \<longleftrightarrow> readyList k = [t] \<and> (\<exists>sm. sems k disk_sem = Some sm \<and> queue sm = [] \<and> 0 < sem_value sm) \<and>
     (\<exists>th. threads k t = Some th \<and> resume_at th = InP disk_sem)"

definition disk_wait :: "nat \<Rightarrow> Kernel \<Rightarrow> bool" where
  "disk_wait t k \<longleftrightarrow> kernel_ok k \<and> idling k \<and> currentThread k = t \<and> others_quiet k \<and> (awaits_disk t k \<or> woken_by_disk t k)"

lemma V_fields:
  assumes "V s k = Inr k'"
  shows "idling k' = idling k" "currentThread k' = currentThread k"
  using assms by (auto simp: V_def sem_of_def upd_sem_eq ReadyToRun_def setStatus_def upd_thread_eq rbind_eq_Inr
      split: option.splits list.splits)

lemma kernel_signal_ok: "kernel_ok k \<Longrightarrow> kernel_ok (kernel_signal sig k)"
proof (cases "V (sem_for sig) k")
  case (Inr k')
  assume ok: "kernel_ok k"
  have "sems k (sem_for sig) \<noteq> None" using Inr by (auto simp: V_def sem_of_def rbind_eq_Inr split: option.splits)
  then obtain sm where "sems k (sem_for sig) = Some sm" by blast
  from V_ok [OF ok this] show ?thesis using Inr by (simp add: kernel_signal_def)
qed (simp add: kernel_signal_def)

lemma V_quiet:
  assumes "sems k s = Some sm" "queue sm = []" "sem_for sig = s"
  shows "kernel_signal sig k = k\<lparr>sems := (sems k)(s \<mapsto> sm\<lparr>sem_value := sem_value sm + 1\<rparr>)\<rparr>"
  using V_eq_empty [OF assms(1,2)] assms(3) by (simp add: kernel_signal_def)

lemma signal_other:
  assumes "disk_wait t k" "sem_for sig \<noteq> disk_sem"
  shows "disk_wait t (kernel_signal sig k)" "woken_by_disk t k \<Longrightarrow> woken_by_disk t (kernel_signal sig k)"
proof -
  have ok: "kernel_ok (kernel_signal sig k)" using assms(1) kernel_signal_ok by (simp add: disk_wait_def)
  have "disk_wait t (kernel_signal sig k) \<and> (woken_by_disk t k \<longrightarrow> woken_by_disk t (kernel_signal sig k))"
  proof (cases "sems k (sem_for sig)")
    case None
    then have "kernel_signal sig k = k" by (simp add: kernel_signal_def V_def sem_of_def)
    then show ?thesis using assms(1) by simp
  next
    case (Some sm)
    then have q: "queue sm = []" using assms by (auto simp: disk_wait_def others_quiet_def)
    from V_quiet [OF Some q refl] ok assms q show ?thesis
      by (auto simp: disk_wait_def others_quiet_def awaits_disk_def woken_by_disk_def)
  qed
  then show "disk_wait t (kernel_signal sig k)" "woken_by_disk t k \<Longrightarrow> woken_by_disk t (kernel_signal sig k)" by auto
qed

lemma signal_disk:
  assumes "disk_wait t k" "sem_for sig = disk_sem"
  shows "disk_wait t (kernel_signal sig k) \<and> woken_by_disk t (kernel_signal sig k)"
proof -
  have ok: "kernel_ok (kernel_signal sig k)" using assms(1) kernel_signal_ok by (simp add: disk_wait_def)
  show ?thesis
  proof (cases "awaits_disk t k")
    case True
    then obtain sm where sm: "sems k disk_sem = Some sm" "queue sm = [t]" "sem_value sm = 0" "readyList k = []"
      by (auto simp: awaits_disk_def)
    have "core_ok (readyList k) k" using assms(1) by (simp add: disk_wait_def kernel_ok_def)
    from core_ok_waiting [OF this sm(1), of t] sm(2) obtain th where th: "threads k t = Some th" "resume_at th = InP disk_sem"
      by (auto simp: waiting_thread_def)
    from V_eq_wake [OF sm(1,2) th(1)] have "kernel_signal sig k = k\<lparr>sems := (sems k)(disk_sem \<mapsto> sm\<lparr>queue := [], sem_value := 1\<rparr>),
        threads := (threads k)(t \<mapsto> th\<lparr>t_status := READY\<rparr>), readyList := [t]\<rparr>"
      using sm assms(2) by (simp add: kernel_signal_def)
    then show ?thesis using ok assms(1) th by (auto simp: disk_wait_def others_quiet_def woken_by_disk_def)
  next
    case False
    then have w: "woken_by_disk t k" using assms(1) by (simp add: disk_wait_def)
    then obtain sm where sm: "sems k disk_sem = Some sm" "queue sm = []" "0 < sem_value sm" by (auto simp: woken_by_disk_def)
    from V_quiet [OF sm(1,2) assms(2)] ok assms(1) w sm show ?thesis
      by (auto simp: disk_wait_def others_quiet_def woken_by_disk_def)
  qed
qed

lemma disk_wait_signal: "disk_wait t k \<Longrightarrow> disk_wait t (kernel_signal sig k)"
  using signal_other(1) signal_disk by (cases "sem_for sig = disk_sem") blast+

lemma woken_signal: "disk_wait t k \<Longrightarrow> woken_by_disk t k \<Longrightarrow> woken_by_disk t (kernel_signal sig k)"
  using signal_other(2) signal_disk by (cases "sem_for sig = disk_sem") blast+

text \<open>The device handlers under the invariant of the waiting thread.\<close>

definition waiting_ok :: "nat \<Rightarrow> Kernel Devices \<Rightarrow> bool" where
  "waiting_ok t w \<longleftrightarrow> device_ok w \<and> disk_wait t (kernel w)"

interpretation sync: interrupt_handlers "device_call kernel_signal" "waiting_ok t"
proof
  fix s h a
  assume *: "sim_ok s" "waiting_ok t (world s)" "inHandler s" "level s = IntOff" "status s = SystemMode"
  then obtain s' where s': "device_call kernel_signal h a s = Inr s'" "handler_step s s'" "device_ok (world s')"
    using device_call_ok [of s kernel_signal h a] by (auto simp: waiting_ok_def)
  have "disk_wait t (kernel (world s'))"
    using device_call_signals [OF s'(1)] * disk_wait_signal by (auto simp: waiting_ok_def)
  then show "\<exists>s'. device_call kernel_signal h a s = Inr s' \<and> handler_step s s' \<and> waiting_ok t (world s')"
    using s' by (auto simp: waiting_ok_def)
qed

lemma disk_event_wakes:
  "completes (device_call kernel_signal) (waiting_ok t) (disk_event w) (\<lambda>w. woken_by_disk t (kernel w))"
proof -
  have "woken_by_disk t (kernel (world s'))"
    if "waiting_ok t (world s)" "woken_by_disk t (kernel (world s))" "device_call kernel_signal h a s = Inr s'" for h a s s'
    using device_call_signals [OF that(3)] that(1,2) woken_signal by (auto simp: waiting_ok_def)
  moreover have "woken_by_disk t (kernel (world s'))"
    if "waiting_ok t (world s)" "device_call kernel_signal DiskDone 0 s = Inr s'" for s s'
    using that signal_disk [of t "kernel (world s)" SigDiskRequestDone]
    by (auto simp: waiting_ok_def HandleInterrupt_def upd_defs)
  ultimately show ?thesis by (auto simp: completes_def disk_event_def)
qed

section \<open>Reading and writing a sector synchronously\<close>

lemma P_sleeps_alone:
  assumes "kernel_ok k" "\<not> idling k" "readyList k = []" "sems k s = Some sm" "sem_value sm = 0"
  shows "\<exists>k'. P s k = Inr (k', []) \<and> kernel_ok k' \<and> idling k' \<and> currentThread k' = currentThread k \<and> readyList k' = [] \<and>
     sems k' = (sems k)(s \<mapsto> sm\<lparr>queue := queue sm @ [currentThread k]\<rparr>)"
proof -
  obtain th where th: "threads k (currentThread k) = Some th" using running_loose [OF assms(1,2)] by blast
  let ?k = "k\<lparr>sems := (sems k)(s \<mapsto> sm\<lparr>queue := queue sm @ [currentThread k]\<rparr>),
     threads := (threads k)(currentThread k \<mapsto> th\<lparr>t_status := BLOCKED, resume_at := InP s\<rparr>), idling := True\<rparr>"
  have "P s k = Inr (?k, [])"
    using assms(3-5) th
    by (simp add: P_def P_loop.simps sched.simps sem_of_def upd_sem_def block_def upd_thread_def thread_of_def)
  moreover have "lands (act (AP s) k)" using act_ok [OF assms(1), of "AP s"] assms(2,4) by simp
  ultimately show ?thesis using assms(3) by (auto simp: lands_def)
qed

lemma wake_passes:
  assumes "disk_wait t k" "woken_by_disk t k"
  shows "\<exists>k'. sched k = Inr (k', [(t, disk_sem)]) \<and> kernel_ok k' \<and> \<not> idling k' \<and> currentThread k' = t"
proof -
  have k: "kernel_ok k" "idling k" "readyList k = [t]" using assms by (auto simp: disk_wait_def woken_by_disk_def)
  obtain sm th where sm: "sems k disk_sem = Some sm" "queue sm = []" "0 < sem_value sm"
    "threads k t = Some th" "resume_at th = InP disk_sem" using assms(2) by (auto simp: woken_by_disk_def)
  let ?k = "k\<lparr>readyList := [], idling := False\<rparr>"
  have "may_run t ?k" using k by (simp add: kernel_ok_def may_run_def)
  then obtain k1 th' where k1: "Run_out t ?k = Inr k1" "threads k1 t = Some th'" "currentThread k1 = t"
    "core_ok (readyList k1) k1" "wake_in_P (woken_from (resume_at th')) k1" "\<not> idling k1" "current_status k1 = Some RUNNING"
    using Run_out_ok by blast
  have same: "sems k1 = sems k" "resume_at th' = InP disk_sem"
    using k1(1-3) sm(4,5)
    by (auto simp: Run_out_def SaveUserState_eq setStatus_def upd_thread_eq rbind_eq_Inr thread_of_def Let_def
        split: option.splits if_splits)
  obtain k2 where k2: "Run_in k1 = Inr k2" "sems k2 = sems k1" "currentThread k2 = t" "idling k2 = idling k1"
    using Run_in_ok [OF k1(4,7,5)] k1(3) by auto
  have "sched k = P_loop disk_sem k2"
    using k(3) k1(1,2) same(2) k2(1) by (simp add: sched.simps run.simps thread_of_def)
  also have "\<dots> = Inr (k2\<lparr>sems := (sems k2)(disk_sem \<mapsto> sm\<lparr>sem_value := sem_value sm - 1\<rparr>)\<rparr>, [(t, disk_sem)])"
    using sm(1,3) k2(2,3) same(1) by (simp add: P_loop.simps sem_of_def upd_sem_def)
  finally have r: "sched k = Inr (k2\<lparr>sems := (sems k2)(disk_sem \<mapsto> sm\<lparr>sem_value := sem_value sm - 1\<rparr>)\<rparr>, [(t, disk_sem)])" .
  moreover have "lands (sched k)" using act_ok [OF k(1), of AWake] k(2) by simp
  ultimately show ?thesis using k1(6) k2(3,4) by (auto simp: lands_def)
qed

text \<open>
  The wait that follows a request, for the state the request has left: the caller sleeps, the
  machine idles until the interrupt of the disk, and the caller passes its \<open>P\<close>.
\<close>

definition wait_returns :: "nat \<Rightarrow> Kernel sim \<Rightarrow> bool" where
  "wait_returns t s \<longleftrightarrow> idling (kernel (world s)) \<and> (\<exists>s2 k3.
     wait_idle (device_call kernel_signal) (\<lambda>w. readyList (kernel w) \<noteq> []) 32000 (ChangeLevel IntOff s) = Inr (Resumed, s2) \<and>
     act AWake (kernel (world s2)) = Inr (k3, [(t, disk_sem)]) \<and> kernel_ok k3 \<and> \<not> idling k3 \<and> currentThread k3 = t)"

lemma request_wait:
  assumes s: "sim_ok s" "device_ok (world s)" "due s = 0" "0 < L" "L \<le> 31999"
    and st: "totalTicks st = totalTicks (stats s)" "idleTicks st = idleTicks (stats s)"
      "systemTicks st = systemTicks (stats s)" "userTicks st = userTicks (stats s)"
    and k: "kernel_ok (kernel (world s))" "\<not> idling (kernel (world s))" "readyList (kernel (world s)) = []"
      "others_quiet (kernel (world s))" "sems (kernel (world s)) disk_sem = Some (Semaphore_new 0)"
  defines "t \<equiv> currentThread (kernel (world s))"
  shows "\<exists>k1. P disk_sem (kernel (world (requested sec L h st s))) = Inr (k1, []) \<and>
     wait_returns t (upd_kernel (\<lambda>_. k1) (requested sec L h st s))"
proof -
  have kr: "kernel (world (requested sec L h st s)) = kernel (world s)" by (simp add: requested_def upd_defs)
  obtain k1 where k1: "P disk_sem (kernel (world s)) = Inr (k1, [])" "kernel_ok k1" "idling k1" "currentThread k1 = t" "readyList k1 = []"
    "sems k1 = (sems (kernel (world s)))(disk_sem \<mapsto> (Semaphore_new 0)\<lparr>queue := [t]\<rparr>)"
    using P_sleeps_alone [OF k(1,2,3,5)] by (auto simp: Semaphore_new_def t_def)
  have dw: "disk_wait t k1" using k1 k(4) by (auto simp: disk_wait_def others_quiet_def awaits_disk_def Semaphore_new_def)
  let ?s = "ChangeLevel IntOff (requested sec L h st s)" and ?s1 = "ChangeLevel IntOff (upd_kernel (\<lambda>_. k1) (requested sec L h st s))"
  note r = requested_sim [OF s(1-4) st, of sec h]
  have s1: "sim_ready (waiting_ok t) ?s1" "due ?s1 = 0" "now ?s1 = now s"
    "(now s + L, Some (disk_event (now s + L))) \<in> set (pending ?s1)"
    using r dw by (auto simp: sim_ready_def sim_ok_def waiting_ok_def device_ok_def upd_kernel_def ChangeLevel_def due_def now_def)
  have "\<exists>s'. wait_idle (device_call kernel_signal) (\<lambda>w. readyList (kernel w) \<noteq> []) 32000 ?s1 = Inr (Resumed, s') \<and>
      sim_ready (waiting_ok t) s' \<and> readyList (kernel (world s')) \<noteq> []"
    using s1 s(5) by (intro sync.wait_idle_awaits [OF disk_event_wakes _ s1(1)]) (auto simp: woken_by_disk_def)
  then obtain s2 where s2: "wait_idle (device_call kernel_signal) (\<lambda>w. readyList (kernel w) \<noteq> []) 32000 ?s1 = Inr (Resumed, s2)"
    "sim_ready (waiting_ok t) s2" "readyList (kernel (world s2)) \<noteq> []" by blast
  have "disk_wait t (kernel (world s2))" using s2(2) by (simp add: sim_ready_def waiting_ok_def)
  moreover from this s2(3) have "woken_by_disk t (kernel (world s2))" by (auto simp: disk_wait_def awaits_disk_def)
  ultimately obtain k3 where "sched (kernel (world s2)) = Inr (k3, [(t, disk_sem)])" "kernel_ok k3" "\<not> idling k3" "currentThread k3 = t"
    using wake_passes by blast
  then have "wait_returns t (upd_kernel (\<lambda>_. k1) (requested sec L h st s))"
    using s2(1) k1(3) by (auto simp: wait_returns_def upd_kernel_def [of _ "requested sec L h st s"])
  then show ?thesis using k1(1) unfolding kr by blast
qed


text \<open>A machine whose main thread is about to use the disk.\<close>

definition synch0 :: "Kernel sim" where
  "synch0 = \<lparr>level = IntOn, pending = pending sim1, inHandler = False, yieldOnReturn = False, status = SystemMode,
     stats = Statistics_new, cpu = None,
     world = \<lparr>randomize = False, rand = (\<lambda>_. 0), drawn = 0, console = console devices0, disk = disk devices0,
       network = network devices0, host = host0, kernel = kernel0\<lparr>sems := [disk_sem \<mapsto> Semaphore_new 0]\<rparr>\<rparr>\<rparr>"


end
