(* ===== verification/File_Stub.thy ===== *)
theory File_Stub
  imports Kernel_Table Sysdep
begin

text \<open>
  The stub file system of \<open>filesys/openfile.h\<close> and \<open>filesys/filesys.h\<close> (\<open>FILESYS_STUB\<close>), which the
  system calls on files use: an open file is a host descriptor with a position and an access
  type, and the table of ten pointers maps the file identifiers of user programs to open files.
  Its first two entries, the console, hold the pointer of the file system itself.
\<close>

section \<open>Open files\<close>

record OpenFile =
  host_fd :: int
  currentOffset :: int
  open_type :: int

definition OpenFile_new :: "int \<Rightarrow> int \<Rightarrow> OpenFile" where
  "OpenFile_new f t = \<lparr>host_fd = f, currentOffset = 0, open_type = t\<rparr>"

definition OpenFile_delete :: "OpenFile \<Rightarrow> Host \<Rightarrow> Host res" where
  "OpenFile_delete f h = Close (host_fd f) h"

text \<open>The number of bytes read or -1, the bytes, and the host.\<close>

definition OpenFile_ReadAt :: "OpenFile \<Rightarrow> int \<Rightarrow> int \<Rightarrow> Host \<Rightarrow> (int \<times> byte list \<times> Host) res" where
  "OpenFile_ReadAt f numBytes position h =
     rbind (Lseek (host_fd f) position 0 h) (\<lambda>h1. Inr (ReadPartial (host_fd f) numBytes h1))"

text \<open>
  \<open>from\<close> is the caller's buffer. A negative count makes \<open>write(2)\<close> fail with -1, which the wrapper
  compares with the count.
\<close>

definition OpenFile_WriteAt :: "OpenFile \<Rightarrow> byte list \<Rightarrow> int \<Rightarrow> int \<Rightarrow> Host \<Rightarrow> (int \<times> Host) res" where
  "OpenFile_WriteAt f from numBytes position h =
     (if open_type f = 1 then Inr (-1, h)
      else rbind (Lseek (host_fd f) position 0 h) (\<lambda>h1.
        if numBytes < 0 then rbind (ASSERT (numBytes = -1)) (\<lambda>_. Inr (numBytes, h1))
        else if int (length from) < numBytes then Inl OutOfBounds
        else rbind (WriteFile (host_fd f) (take (nat numBytes) from) h1) (\<lambda>h2. Inr (numBytes, h2))))"

definition OpenFile_Read :: "OpenFile \<Rightarrow> int \<Rightarrow> Host \<Rightarrow> (int \<times> byte list \<times> OpenFile \<times> Host) res" where
  "OpenFile_Read f numBytes h =
     rbind (OpenFile_ReadAt f numBytes (currentOffset f) h) (\<lambda>(numRead, bs, h').
       Inr (numRead, bs, f\<lparr>currentOffset := wrap32 (currentOffset f + numRead)\<rparr>, h'))"

definition OpenFile_Write :: "OpenFile \<Rightarrow> byte list \<Rightarrow> int \<Rightarrow> Host \<Rightarrow> (int \<times> OpenFile \<times> Host) res" where
  "OpenFile_Write f from numBytes h =
     (if open_type f = 1 then Inr (-1, f, h)
      else rbind (OpenFile_WriteAt f from numBytes (currentOffset f) h) (\<lambda>(numWritten, h').
        Inr (numWritten, f\<lparr>currentOffset := wrap32 (currentOffset f + numWritten)\<rparr>, h')))"

definition OpenFile_Length :: "OpenFile \<Rightarrow> Host \<Rightarrow> (int \<times> Host) res" where
  "OpenFile_Length f h = rbind (Lseek (host_fd f) 0 2 h) (\<lambda>h'. Inr (wrap32 (Tell (host_fd f) h'), h'))"

text \<open>\<open>Seek\<close>: every call of \<open>Length()\<close> is one, since it moves the host's position.\<close>

definition OpenFile_Seek :: "OpenFile \<Rightarrow> int \<Rightarrow> Host \<Rightarrow> (int \<times> OpenFile \<times> Host) res" where
  "OpenFile_Seek f position h =
     (if position = -1 then
        rbind (OpenFile_Length f h) (\<lambda>(len, h'). Inr (len, f\<lparr>currentOffset := len\<rparr>, h'))
      else if position < 0 then Inr (-1, f, h)
      else if open_type f = 1 then
        rbind (OpenFile_Length f h) (\<lambda>(len, h1).
          if len < position
          then rbind (OpenFile_Length f h1) (\<lambda>(len', h2). Inr (len', f\<lparr>currentOffset := len'\<rparr>, h2))
          else Inr (position, f\<lparr>currentOffset := position\<rparr>, h1))
      else Inr (position, f\<lparr>currentOffset := position\<rparr>, h))"

section \<open>The file system\<close>

text \<open>What a table entry points to.\<close>

datatype slot = SelfSlot | FileSlot OpenFile

record FileSystem =
  gFileTable :: "slot Table"
  host :: Host

definition FileSystem_new :: "Host \<Rightarrow> FileSystem" where
  "FileSystem_new h = \<lparr>gFileTable = snd (Table_Set (Some SelfSlot) 1 (snd (Table_Set (Some SelfSlot) 0 (Table_new 10)))), host = h\<rparr>"

definition FileSystem_fopen :: "string \<Rightarrow> int \<Rightarrow> FileSystem \<Rightarrow> (int \<times> FileSystem) res" where
  "FileSystem_fopen name ty s =
     (if ty \<noteq> 0 \<and> ty \<noteq> 1 then Inr (-1, s)
      else rbind (OpenForReadWrite name False (host s)) (\<lambda>(fd, h).
        if fd = -1 then Inr (-1, s\<lparr>host := h\<rparr>)
        else let f = OpenFile_new fd ty;
                 (fid, t) = Table_Alloc (Some (FileSlot f)) (gFileTable s)
             in if fid = -1 then rbind (OpenFile_delete f h) (\<lambda>h'. Inr (-1, s\<lparr>host := h'\<rparr>))
                else Inr (fid, s\<lparr>gFileTable := t, host := h\<rparr>)))"

text \<open>An entry from the table, used as a pointer to an open file.\<close>

definition as_file :: "slot option \<Rightarrow> OpenFile option res" where
  "as_file p = (case p of None \<Rightarrow> Inr None | Some SelfSlot \<Rightarrow> Inl BadPointer | Some (FileSlot f) \<Rightarrow> Inr (Some f))"

definition FileSystem_fclose :: "int \<Rightarrow> FileSystem \<Rightarrow> (int \<times> FileSystem) res" where
  "FileSystem_fclose fid s =
     (if fid < 2 then Inr (-1, s)
      else rbind (as_file (Table_Get fid (gFileTable s))) (\<lambda>p. case p of
             None \<Rightarrow> Inr (-1, s)
           | Some f \<Rightarrow> rbind (OpenFile_delete f (host s)) (\<lambda>h.
               Inr (0, s\<lparr>gFileTable := snd (Table_Release fid (gFileTable s)), host := h\<rparr>))))"

definition getOpenFile :: "int \<Rightarrow> FileSystem \<Rightarrow> OpenFile option res" where
  "getOpenFile fid s = (if fid < 2 then Inr None else as_file (Table_Get fid (gFileTable s)))"

definition FileSystem_Create :: "string \<Rightarrow> FileSystem \<Rightarrow> (bool \<times> FileSystem) res" where
  "FileSystem_Create name s =
     rbind (OpenForWrite name (host s)) (\<lambda>(fd, h).
       if fd = -1 then Inr (False, s\<lparr>host := h\<rparr>)
       else rbind (Close fd h) (\<lambda>h'. Inr (True, s\<lparr>host := h'\<rparr>)))"

text \<open>\<open>Open\<close>, for the kernel's own use; the constructor leaves the type as it finds it, here \<open>ty0\<close>.\<close>

definition FileSystem_Open :: "int \<Rightarrow> string \<Rightarrow> FileSystem \<Rightarrow> (OpenFile option \<times> FileSystem) res" where
  "FileSystem_Open ty0 name s =
     rbind (OpenForReadWrite name False (host s)) (\<lambda>(fd, h).
       Inr (if fd = -1 then None else Some (OpenFile_new fd ty0), s\<lparr>host := h\<rparr>))"

definition FileSystem_Remove :: "string \<Rightarrow> FileSystem \<Rightarrow> bool \<times> FileSystem" where
  "FileSystem_Remove name s = (let (r, h) = Unlink name (host s) in (\<not> r, s\<lparr>host := h\<rparr>))"

text \<open>The operations on the object behind a file identifier change it in place.\<close>

definition put_file :: "int \<Rightarrow> OpenFile \<Rightarrow> Host \<Rightarrow> FileSystem \<Rightarrow> FileSystem" where
  "put_file fid f h s = s\<lparr>gFileTable := (gFileTable s)\<lparr>m_entries := (m_entries (gFileTable s))[nat fid := Some (FileSlot f)]\<rparr>, host := h\<rparr>"

section \<open>Well-formed file systems\<close>

text \<open>The open files by identifier, and the number of descriptors the host still has.\<close>

definition files :: "FileSystem \<Rightarrow> nat \<rightharpoonup> OpenFile" where
  "files s i = (if i < 10 then (case m_entries (gFileTable s) ! i of Some (FileSlot f) \<Rightarrow> Some f | _ \<Rightarrow> None) else None)"

definition free_fds :: "Host \<Rightarrow> nat" where
  "free_fds h = card {i. i < open_max h \<and> fds h i = None}"

definition file_ok :: "Host \<Rightarrow> OpenFile \<Rightarrow> bool" where
  "file_ok h f \<longleftrightarrow> file_of h (host_fd f) \<noteq> None \<and> host_fd f < int (open_max h) \<and>
     0 \<le> currentOffset f \<and> currentOffset f < 2 ^ 31 \<and> (open_type f = 0 \<or> open_type f = 1)"

text \<open>
  Every open file has a host descriptor of its own, the first two entries stay reserved, and
  the host has a descriptor for every free entry and one more.
\<close>

definition fs_ok :: "FileSystem \<Rightarrow> bool" where
  "fs_ok s \<longleftrightarrow> table_ok (gFileTable s) \<and> table_length (gFileTable s) = 10 \<and>
     (\<forall>i<10. m_entries (gFileTable s) ! i = Some SelfSlot \<longleftrightarrow> i < 2) \<and>
     (\<forall>i f. files s i = Some f \<longrightarrow> file_ok (host s) f) \<and>
     (\<forall>i j f g. files s i = Some f \<longrightarrow> files s j = Some g \<longrightarrow> host_fd f = host_fd g \<longrightarrow> i = j) \<and>
     11 \<le> card (in_use (gFileTable s)) + free_fds (host s)"

text \<open>Host operations that open and close nothing.\<close>

definition host_keep :: "Host \<Rightarrow> Host \<Rightarrow> bool" where
  "host_keep h h' \<longleftrightarrow> open_max h' = open_max h \<and> names h' = names h \<and> next_inode h' = next_inode h \<and> (\<forall>fd. file_of h' fd = file_of h fd)"

lemma host_keep_refl [simp]: "host_keep h h"
  by (simp add: host_keep_def)

lemma host_keep_trans: "host_keep h h1 \<Longrightarrow> host_keep h1 h2 \<Longrightarrow> host_keep h h2"
  by (simp add: host_keep_def)

lemma file_of_int: "file_of h (int i) = map_option fst (fds h i)"
  by (simp add: file_of_def fd_lookup_def)

lemma host_keep_fds: "host_keep h h' \<Longrightarrow> fds h' i = None \<longleftrightarrow> fds h i = None"
  unfolding host_keep_def using file_of_int [of h i] file_of_int [of h' i] by (metis map_option_is_None)

lemma host_keep_free: "host_keep h h' \<Longrightarrow> free_fds h' = free_fds h"
  using host_keep_fds [of h h'] by (simp add: free_fds_def host_keep_def)

lemma files_lt: "files s i = Some f \<Longrightarrow> i < 10 \<and> m_entries (gFileTable s) ! i = Some (FileSlot f)"
  by (auto simp: files_def split: if_splits option.splits slot.splits)

lemma files_ge2: "fs_ok s \<Longrightarrow> files s i = Some f \<Longrightarrow> 2 \<le> i \<and> i < 10"
  using files_lt [of s i f] by (fastforce simp: fs_ok_def)

lemma fs_ok_file: "fs_ok s \<Longrightarrow> files s i = Some f \<Longrightarrow> file_ok (host s) f"
  by (simp add: fs_ok_def)

lemma fs_ok_room: "fs_ok s \<Longrightarrow> 0 < free_fds (host s)"
proof -
  assume ok: "fs_ok s"
  have "in_use (gFileTable s) \<subseteq> {..<10}" using ok by (auto simp: fs_ok_def in_use_def)
  then have "card (in_use (gFileTable s)) \<le> 10" using card_mono [of "{..<10::nat}"] by fastforce
  then show ?thesis using ok by (simp add: fs_ok_def)
qed

lemma as_file_files:
  assumes "fs_ok s" "2 \<le> fid"
  shows "as_file (Table_Get fid (gFileTable s)) = Inr (files s (nat fid))"
proof (cases "fid < 10")
  case True
  then have "m_entries (gFileTable s) ! nat fid \<noteq> Some SelfSlot" "m_size (gFileTable s) = 10"
    using assms by (auto simp: fs_ok_def table_ok_def)
  then show ?thesis using assms(2) True
    by (auto simp: as_file_def Table_Get_def files_def split: option.splits slot.splits)
next
  case False
  then have "m_size (gFileTable s) \<le> fid" using assms(1) by (auto simp: fs_ok_def table_ok_def)
  then show ?thesis using False by (auto simp: as_file_def Table_Get_def files_def)
qed

lemma files_reserved: "fs_ok s \<Longrightarrow> i < 2 \<Longrightarrow> files s i = None"
  using files_ge2 [of s i] by (cases "files s i") auto

lemma getOpenFile_files:
  "fs_ok s \<Longrightarrow> getOpenFile fid s = Inr (if fid < 0 then None else files s (nat fid))"
  by (cases "fid < 2") (auto simp: getOpenFile_def as_file_files files_reserved)

lemma files_put:
  assumes "fs_ok s" "files s i = Some f"
  shows "files (put_file (int i) f' h s) = (files s)(i \<mapsto> f')"
proof
  fix j
  have "i < table_length (gFileTable s)" using files_ge2 [OF assms] assms(1) by (simp add: fs_ok_def)
  then show "files (put_file (int i) f' h s) j = ((files s)(i \<mapsto> f')) j"
    using files_ge2 [OF assms] by (auto simp: files_def put_file_def nth_list_update)
qed

lemma host_put [simp]: "host (put_file fid f h s) = h"
  by (simp add: put_file_def)

lemma file_ok_keep: "host_keep h h' \<Longrightarrow> file_ok h f \<Longrightarrow> file_ok h' f"
  by (simp add: file_ok_def host_keep_def)

lemma fs_ok_put:
  assumes ok: "fs_ok s" "files s i = Some f" and keep: "host_keep (host s) h'"
    and f': "file_ok h' f'" "host_fd f' = host_fd f"
  shows "fs_ok (put_file (int i) f' h' s)"
proof -
  let ?s = "put_file (int i) f' h' s"
  have i: "2 \<le> i" "i < table_length (gFileTable s)" "i \<in> in_use (gFileTable s)"
    using files_ge2 [OF ok] files_lt [OF ok(2)] ok(1) by (auto simp: fs_ok_def in_use_def)
  have use: "in_use (gFileTable ?s) = in_use (gFileTable s)"
    using i by (simp add: put_file_def in_use_update insert_absorb)
  have "table_ok (gFileTable ?s)" "table_length (gFileTable ?s) = 10"
    "\<forall>j<10. m_entries (gFileTable ?s) ! j = Some SelfSlot \<longleftrightarrow> j < 2"
    using ok(1) i by (auto simp: fs_ok_def put_file_def table_ok_def nth_list_update)
  moreover have "\<forall>j g. files ?s j = Some g \<longrightarrow> file_ok h' g"
    using ok(1) f'(1) file_ok_keep [OF keep] by (auto simp: files_put [OF ok] fs_ok_def)
  moreover have "\<forall>j k g g'. files ?s j = Some g \<longrightarrow> files ?s k = Some g' \<longrightarrow> host_fd g = host_fd g' \<longrightarrow> j = k"
    using ok f'(2) unfolding files_put [OF ok] fs_ok_def by (metis (full_types) fun_upd_apply option.inject)
  ultimately show ?thesis using ok(1) use host_keep_free [OF keep] by (simp add: fs_ok_def)
qed

section \<open>Operations on one open file\<close>

lemma keep_fds_upd: "file_of h fd = Some ino \<Longrightarrow> host_keep h (h\<lparr>fds := (fds h)(nat fd \<mapsto> (ino, off))\<rparr>)"
  by (simp add: host_keep_def)

lemma keep_inodes_fds_upd:
  "file_of h fd = Some ino \<Longrightarrow> host_keep h (h\<lparr>inodes := d, fds := (fds h)(nat fd \<mapsto> (ino, off))\<rparr>)"
  by (auto simp: host_keep_def file_of_def fd_lookup_def split: if_splits)

lemma OpenFile_Read_eq:
  assumes "file_of h (host_fd f) = Some ino" "0 \<le> currentOffset f" "0 \<le> n"
  defines "bs \<equiv> take (nat n) (drop (nat (currentOffset f)) (inodes h ino))"
  shows "\<exists>h'. OpenFile_Read f n h = Inr (int (length bs), bs, f\<lparr>currentOffset := wrap32 (currentOffset f + int (length bs))\<rparr>, h') \<and>
     host_keep h h' \<and> inodes h' = inodes h"
  using file_of_Some [OF assms(1)] assms(2,3) keep_fds_upd [OF assms(1)]
  by (auto simp: OpenFile_Read_def OpenFile_ReadAt_def Lseek_set [OF assms(1)] ReadPartial_def unix_read_def fd_lookup_def bs_def Let_def)

lemma OpenFile_Write_eq:
  assumes "file_of h (host_fd f) = Some ino" "0 \<le> currentOffset f" "0 \<le> n" "n \<le> int (length from)" "open_type f \<noteq> 1"
  shows "\<exists>h'. OpenFile_Write f from n h = Inr (n, f\<lparr>currentOffset := wrap32 (currentOffset f + n)\<rparr>, h') \<and>
     host_keep h h' \<and> inodes h' = (inodes h)(ino := (if n = 0 then inodes h ino
       else splice (inodes h ino) (nat (currentOffset f)) (take (nat n) from)))"
proof -
  have t: "int (length (take (nat n) from)) = n" "take (nat n) from = [] \<longleftrightarrow> n = 0" using assms(3,4) by auto
  show ?thesis using file_of_Some [OF assms(1)] assms(2-5) keep_fds_upd [OF assms(1)] keep_inodes_fds_upd [OF assms(1)] t
    by (auto simp: OpenFile_Write_def OpenFile_WriteAt_def Lseek_set [OF assms(1)] WriteFile_def unix_write_def fd_lookup_def Let_def)
qed

lemma OpenFile_Length_eq:
  assumes "file_of h (host_fd f) = Some ino"
  shows "\<exists>h'. OpenFile_Length f h = Inr (wrap32 (int (length (inodes h ino))), h') \<and> host_keep h h' \<and> inodes h' = inodes h"
  using file_of_Some [OF assms] keep_fds_upd [OF assms]
  by (auto simp: OpenFile_Length_def Lseek_def Tell_def unix_lseek_def fd_lookup_def Let_def)

section \<open>The files as a program sees them\<close>

text \<open>
  The abstract file system: each identifier is a file, a position and whether it is read-only;
  each file is a sequence of bytes. Reading and writing are at the position, seeking to -1 goes
  to the end of the file, and a read-only file cannot be left.
\<close>

type_synonym abs_fs = "(nat \<rightharpoonup> nat \<times> nat \<times> bool) \<times> (nat \<Rightarrow> byte list)"

definition fs_abs :: "FileSystem \<Rightarrow> abs_fs" where
  "fs_abs s = (\<lambda>i. map_option (\<lambda>f. (the (file_of (host s) (host_fd f)), nat (currentOffset f), open_type f = 1)) (files s i),
     inodes (host s))"

definition abs_read :: "nat \<Rightarrow> nat \<Rightarrow> abs_fs \<Rightarrow> byte list \<times> abs_fs" where
  "abs_read i n A = (case the (fst A i) of (ino, pos, ro) \<Rightarrow>
     let bs = take n (drop pos (snd A ino)) in (bs, (fst A)(i \<mapsto> (ino, pos + length bs, ro)), snd A))"

definition abs_write :: "nat \<Rightarrow> byte list \<Rightarrow> abs_fs \<Rightarrow> int \<times> abs_fs" where
  "abs_write i bs A = (case the (fst A i) of (ino, pos, ro) \<Rightarrow>
     if ro then (-1, A)
     else (int (length bs), (fst A)(i \<mapsto> (ino, pos + length bs, ro)),
           (snd A)(ino := (if bs = [] then snd A ino else splice (snd A ino) pos bs))))"

definition abs_seek :: "nat \<Rightarrow> int \<Rightarrow> abs_fs \<Rightarrow> int \<times> abs_fs" where
  "abs_seek i p A = (case the (fst A i) of (ino, pos, ro) \<Rightarrow>
     if p < -1 then (-1, A)
     else let len = length (snd A ino); q = (if p = -1 then len else if ro then min (nat p) len else nat p)
          in (int q, (fst A)(i \<mapsto> (ino, q, ro)), snd A))"

lemma fs_abs_put:
  assumes "fs_ok s" "files s i = Some f" "host_keep (host s) h'" "host_fd f' = host_fd f" "open_type f' = open_type f"
    "file_of (host s) (host_fd f) = Some ino"
  shows "fs_abs (put_file (int i) f' h' s) = ((fst (fs_abs s))(i \<mapsto> (ino, nat (currentOffset f'), open_type f = 1)), inodes h')"
  using assms(3-6) by (auto simp: fs_abs_def files_put [OF assms(1,2)] host_keep_def)

lemma file_ok_offset:
  "file_ok h f \<Longrightarrow> host_keep h h' \<Longrightarrow> 0 \<le> p \<Longrightarrow> p < 2 ^ 31 \<Longrightarrow> file_ok h' (f\<lparr>currentOffset := p\<rparr>)"
  by (simp add: file_ok_def host_keep_def)

lemma stub_read:
  assumes ok: "fs_ok s" "files s i = Some f" and n: "0 \<le> n" "currentOffset f + n < 2 ^ 31"
  shows "\<exists>bs f' h'. OpenFile_Read f n (host s) = Inr (int (length bs), bs, f', h') \<and> int (length bs) \<le> n \<and>
           fs_ok (put_file (int i) f' h' s) \<and> (bs, fs_abs (put_file (int i) f' h' s)) = abs_read i (nat n) (fs_abs s)"
proof -
  have f: "file_ok (host s) f" using fs_ok_file [OF ok] .
  then obtain ino where ino: "file_of (host s) (host_fd f) = Some ino" and off: "0 \<le> currentOffset f"
    by (auto simp: file_ok_def)
  define bs where "bs = take (nat n) (drop (nat (currentOffset f)) (inodes (host s) ino))"
  have l: "int (length bs) \<le> n" using n by (auto simp: bs_def)
  obtain h' where h: "OpenFile_Read f n (host s) = Inr (int (length bs), bs, f\<lparr>currentOffset := wrap32 (currentOffset f + int (length bs))\<rparr>, h')"
    "host_keep (host s) h'" "inodes h' = inodes (host s)"
    using OpenFile_Read_eq [OF ino off n(1)] by (auto simp: bs_def)
  let ?f = "f\<lparr>currentOffset := currentOffset f + int (length bs)\<rparr>"
  have w: "wrap32 (currentOffset f + int (length bs)) = currentOffset f + int (length bs)"
    using l n off by (intro wrap32_id) auto
  have "fs_ok (put_file (int i) ?f h' s)"
    using l n off by (intro fs_ok_put [OF ok h(2)] file_ok_offset [OF f h(2)]) auto
  moreover have "fs_abs (put_file (int i) ?f h' s) = ((fst (fs_abs s))(i \<mapsto> (ino, nat (currentOffset f) + length bs, open_type f = 1)), inodes (host s))"
    using fs_abs_put [OF ok h(2), of ?f ino] ino off h(3) by (simp add: nat_add_distrib)
  moreover have "fst (fs_abs s) i = Some (ino, nat (currentOffset f), open_type f = 1)" "snd (fs_abs s) = inodes (host s)"
    using ok(2) ino by (simp_all add: fs_abs_def)
  then have "abs_read i (nat n) (fs_abs s) = (bs, (fst (fs_abs s))(i \<mapsto> (ino, nat (currentOffset f) + length bs, open_type f = 1)), inodes (host s))"
    by (simp only: abs_read_def option.sel prod.case Let_def bs_def)
  ultimately show ?thesis using h(1) l unfolding w
    by (intro exI [of _ bs] exI [of _ ?f] exI [of _ h']) simp
qed

lemma stub_write:
  assumes ok: "fs_ok s" "files s i = Some f" and n: "0 \<le> n" "currentOffset f + n < 2 ^ 31" "n \<le> int (length from)"
  shows "\<exists>r f' h'. OpenFile_Write f from n (host s) = Inr (r, f', h') \<and>
           fs_ok (put_file (int i) f' h' s) \<and> (r, fs_abs (put_file (int i) f' h' s)) = abs_write i (take (nat n) from) (fs_abs s)"
proof -
  have f: "file_ok (host s) f" using fs_ok_file [OF ok] .
  then obtain ino where ino: "file_of (host s) (host_fd f) = Some ino" and off: "0 \<le> currentOffset f"
    by (auto simp: file_ok_def)
  have v: "fst (fs_abs s) i = Some (ino, nat (currentOffset f), open_type f = 1)" "snd (fs_abs s) = inodes (host s)"
    using ok(2) ino by (simp_all add: fs_abs_def)
  show ?thesis
  proof (cases "open_type f = 1")
    case True
    then have "OpenFile_Write f from n (host s) = Inr (-1, f, host s)" by (simp add: OpenFile_Write_def)
    moreover have "fs_abs (put_file (int i) f (host s) s) = fs_abs s"
      using fs_abs_put [OF ok host_keep_refl, of f ino] ino v by (auto simp: prod_eq_iff fun_upd_idem)
    moreover have "fs_ok (put_file (int i) f (host s) s)" using fs_ok_put [OF ok host_keep_refl f] by simp
    ultimately show ?thesis using True v by (simp add: abs_write_def)
  next
    case False
    let ?f = "f\<lparr>currentOffset := currentOffset f + n\<rparr>"
    have w: "wrap32 (currentOffset f + n) = currentOffset f + n" using n off by (intro wrap32_id) auto
    obtain h' where h: "OpenFile_Write f from n (host s) = Inr (n, ?f, h')" "host_keep (host s) h'"
      "inodes h' = (inodes (host s))(ino := (if n = 0 then inodes (host s) ino else splice (inodes (host s) ino) (nat (currentOffset f)) (take (nat n) from)))"
      using OpenFile_Write_eq [OF ino off n(1,3) False] unfolding w by blast
    have "fs_ok (put_file (int i) ?f h' s)"
      using n off by (intro fs_ok_put [OF ok h(2)] file_ok_offset [OF f h(2)]) auto
    moreover have "fs_abs (put_file (int i) ?f h' s) = ((fst (fs_abs s))(i \<mapsto> (ino, nat (currentOffset f) + nat n, open_type f = 1)), inodes h')"
      using fs_abs_put [OF ok h(2), of ?f ino] ino off n by (simp add: nat_add_distrib)
    moreover have "int (length (take (nat n) from)) = n" "take (nat n) from = [] \<longleftrightarrow> n = 0" using n by auto
    ultimately show ?thesis using False v h n by (intro exI [of _ n] exI [of _ ?f] exI [of _ h']) (simp add: abs_write_def)
  qed
qed

lemma stub_seek:
  assumes ok: "fs_ok s" "files s i = Some f" and p: "p < 2 ^ 31" "\<forall>ino. file_of (host s) (host_fd f) = Some ino \<longrightarrow> int (length (inodes (host s) ino)) < 2 ^ 31"
  shows "\<exists>r f' h'. OpenFile_Seek f p (host s) = Inr (r, f', h') \<and>
           fs_ok (put_file (int i) f' h' s) \<and> (r, fs_abs (put_file (int i) f' h' s)) = abs_seek i p (fs_abs s)"
proof -
  have f: "file_ok (host s) f" using fs_ok_file [OF ok] .
  then obtain ino where ino: "file_of (host s) (host_fd f) = Some ino" and off: "0 \<le> currentOffset f"
    by (auto simp: file_ok_def)
  have v: "fst (fs_abs s) i = Some (ino, nat (currentOffset f), open_type f = 1)" "snd (fs_abs s) = inodes (host s)"
    using ok(2) ino by (simp_all add: fs_abs_def)
  let ?len = "length (inodes (host s) ino)"
  have len: "wrap32 (int ?len) = int ?len" "int ?len < 2 ^ 31" using p(2) ino by (auto intro: wrap32_id)
  have moved: "fs_ok (put_file (int i) (f\<lparr>currentOffset := int q\<rparr>) h' s) \<and>
      fs_abs (put_file (int i) (f\<lparr>currentOffset := int q\<rparr>) h' s) = ((fst (fs_abs s))(i \<mapsto> (ino, q, open_type f = 1)), inodes (host s))"
    if "int q < 2 ^ 31" "host_keep (host s) h'" "inodes h' = inodes (host s)" for q h'
    using fs_ok_put [OF ok that(2) file_ok_offset [OF f that(2), of "int q"]] fs_abs_put [OF ok that(2), of "f\<lparr>currentOffset := int q\<rparr>" ino] ino that
    by simp
  obtain h1 where h1: "OpenFile_Length f (host s) = Inr (int ?len, h1)" "host_keep (host s) h1" "inodes h1 = inodes (host s)"
    using OpenFile_Length_eq [OF ino] len(1) by auto
  have "file_of h1 (host_fd f) = Some ino" using ino h1(2) by (simp add: host_keep_def)
  then obtain h2 where h2: "OpenFile_Length f h1 = Inr (int ?len, h2)" "host_keep h1 h2" "inodes h2 = inodes (host s)"
    using OpenFile_Length_eq [of h1 f ino] len(1) h1(3) by auto
  consider "p = -1" | "p < -1" | "0 \<le> p" "open_type f = 1" "int ?len < p" | "0 \<le> p" "open_type f = 1" "p \<le> int ?len" | "0 \<le> p" "open_type f \<noteq> 1"
    by linarith
  then show ?thesis
  proof cases
    case 1
    then show ?thesis using moved [OF len(2) h1(2,3)] h1(1) v by (simp add: OpenFile_Seek_def abs_seek_def Let_def)
  next
    case 2
    have "fs_abs (put_file (int i) f (host s) s) = fs_abs s"
      using fs_abs_put [OF ok host_keep_refl, of f ino] ino v by (auto simp: prod_eq_iff fun_upd_idem)
    then show ?thesis using 2 fs_ok_put [OF ok host_keep_refl f] v by (simp add: OpenFile_Seek_def abs_seek_def)
  next
    case 3
    then have "\<not> nat p \<le> ?len" by linarith
    then show ?thesis using 3 moved [OF len(2) host_keep_trans [OF h1(2) h2(2)] h2(3)] h1(1) h2(1) v
      by (simp add: OpenFile_Seek_def abs_seek_def Let_def min_def) 
  next
    case 4
    then have "min (nat p) ?len = nat p" by simp
    then show ?thesis using 4 moved [of "nat p", OF _ h1(2,3)] h1(1) v p(1) by (simp add: OpenFile_Seek_def abs_seek_def Let_def)
  next
    case 5
    then show ?thesis using moved [of "nat p", OF _ host_keep_refl refl] v p(1) by (simp add: OpenFile_Seek_def abs_seek_def Let_def)
  qed
qed

section \<open>Opening, closing and creating\<close>

lemma fs_ok_inj: "fs_ok s \<Longrightarrow> files s i = Some f \<Longrightarrow> files s j = Some g \<Longrightarrow> host_fd f = host_fd g \<Longrightarrow> i = j"
  by (simp add: fs_ok_def)

lemma distinct_keys_upd:
  assumes "\<And>i j f g. m i = Some f \<Longrightarrow> m j = Some g \<Longrightarrow> key f = key g \<Longrightarrow> i = j" "\<And>j g. m j = Some g \<Longrightarrow> key g \<noteq> key x"
    "(m(a \<mapsto> x)) i = Some f" "(m(a \<mapsto> x)) j = Some g" "key f = key g"
  shows "i = j"
proof (cases "i = a")
  case True
  then have "key g = key x" using assms(3,5) by simp
  then show ?thesis using True assms(2,4) by (metis fun_upd_other)
next
  case False
  then have i: "m i = Some f" using assms(3) by simp
  then have "j \<noteq> a" using assms(2,4,5) by (metis fun_upd_same option.inject)
  then show ?thesis using i assms(1,4,5) by simp
qed

lemma fd_alloc_free:
  assumes "0 < free_fds h"
  shows "\<exists>i<open_max h. fds h i = None \<and> fd_alloc ino h = (int i, h\<lparr>fds := (fds h)(i \<mapsto> (ino, 0))\<rparr>)"
proof -
  have "{i. i < open_max h \<and> fds h i = None} \<noteq> {}" using assms unfolding free_fds_def by (metis card.empty less_irrefl)
  then have "first_index (\<lambda>i. fds h i = None) (open_max h) \<noteq> None" by (simp add: first_index_None)
  then obtain i where "first_index (\<lambda>i. fds h i = None) (open_max h) = Some i" by blast
  then show ?thesis using first_index_Some [of "\<lambda>i. fds h i = None" "open_max h" i] by (auto simp: fd_alloc_def)
qed

lemma free_fds_open:
  "i < open_max h \<Longrightarrow> fds h i = None \<Longrightarrow> Suc (free_fds (h\<lparr>fds := (fds h)(i \<mapsto> x)\<rparr>)) = free_fds h"
proof -
  assume i: "i < open_max h" "fds h i = None"
  have "{j. j < open_max h \<and> fds h j = None} = insert i {j. j < open_max h \<and> ((fds h)(i \<mapsto> x)) j = None}"
    using i by auto
  then show ?thesis by (simp add: free_fds_def)
qed

lemma free_fds_close:
  assumes "i < open_max h" "fds h i \<noteq> None"
  shows "free_fds (h\<lparr>fds := (fds h)(i := None)\<rparr>) = Suc (free_fds h)"
proof -
  have "{j. j < open_max h \<and> ((fds h)(i := None)) j = None} = insert i {j. j < open_max h \<and> fds h j = None}"
    using assms(1) by auto
  then show ?thesis using assms(2) by (simp add: free_fds_def)
qed

lemma Close_open: "fds h i = None \<Longrightarrow> Close (int i) (h\<lparr>fds := (fds h)(i \<mapsto> x)\<rparr>) = Inr h"
proof -
  assume "fds h i = None"
  then have "(fds h)(i := None) = fds h" by auto
  then show ?thesis by (simp add: Close_def fd_lookup_def)
qed

lemma OpenFile_new_sel [simp]:
  "host_fd (OpenFile_new d ty) = d" "currentOffset (OpenFile_new d ty) = 0" "open_type (OpenFile_new d ty) = ty"
  by (simp_all add: OpenFile_new_def)

text \<open>The state after \<open>fopen\<close> gave the entry \<open>i\<close> and the descriptor \<open>d\<close> to a file.\<close>

abbreviation opened :: "nat \<Rightarrow> nat \<Rightarrow> nat \<Rightarrow> int \<Rightarrow> FileSystem \<Rightarrow> FileSystem" where
  "opened i d ino ty s \<equiv> s\<lparr>gFileTable := (gFileTable s)\<lparr>m_entries := (m_entries (gFileTable s))[i := Some (FileSlot (OpenFile_new (int d) ty))]\<rparr>,
      host := (host s)\<lparr>fds := (fds (host s))(d \<mapsto> (ino, 0))\<rparr>\<rparr>"

lemma files_opened:
  "fs_ok s \<Longrightarrow> i < 10 \<Longrightarrow> files (opened i d ino ty s) = (files s)(i \<mapsto> OpenFile_new (int d) ty)"
  by (auto simp: files_def fs_ok_def nth_list_update)

lemma fd_open_other: "file_ok h f \<Longrightarrow> fds h d = None \<Longrightarrow> host_fd f \<noteq> int d"
  by (auto simp: file_ok_def file_of_int)

lemma file_of_open: "file_of (h\<lparr>fds := (fds h)(d \<mapsto> (ino, off))\<rparr>) fd = (if fd = int d then Some ino else file_of h fd)"
  by (auto simp: file_of_def fd_lookup_def nat_eq_iff)

lemma fs_ok_opened:
  assumes ok: "fs_ok s" and i: "i < 10" "i \<notin> in_use (gFileTable s)" and d: "d < open_max (host s)" "fds (host s) d = None"
    and ty: "ty = 0 \<or> ty = 1"
  shows "fs_ok (opened i d ino ty s)"
proof -
  let ?s = "opened i d ino ty s"
  have len: "table_length (gFileTable s) = 10" using ok by (simp add: fs_ok_def)
  have i2: "2 \<le> i" using i ok by (force simp: fs_ok_def in_use_def)
  have old: "files s j = Some g \<Longrightarrow> file_ok (host ?s) g \<and> host_fd g \<noteq> int d" for j g
    using fs_ok_file [OF ok, of j g] fd_open_other [OF _ d(2), of g] by (auto simp: file_ok_def file_of_open)
  have "finite (in_use (gFileTable s))" using finite_subset [of "in_use (gFileTable s)" "{..<10}"] len by (auto simp: in_use_def)
  then have card: "card (in_use (gFileTable ?s)) = Suc (card (in_use (gFileTable s)))"
    using i len by (simp add: in_use_update)
  have "table_ok (gFileTable ?s)" "table_length (gFileTable ?s) = 10" "\<forall>j<10. m_entries (gFileTable ?s) ! j = Some SelfSlot \<longleftrightarrow> j < 2"
    using ok i i2 by (auto simp: fs_ok_def table_ok_def nth_list_update)
  moreover have "\<forall>j g. files ?s j = Some g \<longrightarrow> file_ok (host ?s) g"
    unfolding files_opened [OF ok i(1)]
  proof (intro allI impI)
    fix j g
    assume g: "((files s)(i \<mapsto> OpenFile_new (int d) ty)) j = Some g"
    show "file_ok (host ?s) g"
    proof (cases "j = i")
      case True
      then have "g = OpenFile_new (int d) ty" using g by simp
      then show ?thesis using d(1) ty by (simp add: file_ok_def file_of_open)
    next
      case False
      then show ?thesis using g old [of j g] by simp
    qed
  qed
  moreover have "\<forall>j k g g'. files ?s j = Some g \<longrightarrow> files ?s k = Some g' \<longrightarrow> host_fd g = host_fd g' \<longrightarrow> j = k"
  proof (intro allI impI)
    fix j k g g'
    assume a: "files ?s j = Some g" "files ?s k = Some g'" "host_fd g = host_fd g'"
    have new: "files s j = Some g \<Longrightarrow> host_fd g \<noteq> host_fd (OpenFile_new (int d) ty)" for j g using old by simp
    show "j = k" by (rule distinct_keys_upd [OF fs_ok_inj [OF ok] new a [unfolded files_opened [OF ok i(1)]]])
  qed
  moreover have "11 \<le> card (in_use (gFileTable ?s)) + free_fds (host ?s)"
    using ok card free_fds_open [OF d, of "(ino, 0)"] by (simp add: fs_ok_def)
  ultimately show ?thesis unfolding fs_ok_def by blast
qed

lemma fs_abs_opened:
  assumes "fs_ok s" "i < 10" "fds (host s) d = None"
  shows "fs_abs (opened i d ino ty s) = ((fst (fs_abs s))(i \<mapsto> (ino, 0, ty = 1)), snd (fs_abs s))"
proof -
  have "file_of (host (opened i d ino ty s)) (host_fd g) = file_of (host s) (host_fd g)" if "files s j = Some g" for j g
    using fd_open_other [OF fs_ok_file [OF assms(1) that] assms(3)] by (simp add: file_of_open)
  then have "map_option (\<lambda>f. (the (file_of (host (opened i d ino ty s)) (host_fd f)), nat (currentOffset f), open_type f = 1)) (files s j) =
      map_option (\<lambda>f. (the (file_of (host s) (host_fd f)), nat (currentOffset f), open_type f = 1)) (files s j)" for j
    by (intro option.map_cong0) auto
  then show ?thesis unfolding fs_abs_def files_opened [OF assms(1,2)] by (auto simp: file_of_open)
qed

lemma fclose_opened:
  assumes "fs_ok s" "i < 10" "i \<notin> in_use (gFileTable s)" "d < open_max (host s)" "fds (host s) d = None" "ty = 0 \<or> ty = 1"
  shows "FileSystem_fclose (int i) (opened i d ino ty s) = Inr (0, s)"
proof -
  let ?s = "opened i d ino ty s"
  have ok: "fs_ok ?s" by (rule fs_ok_opened [OF assms])
  have f: "files ?s i = Some (OpenFile_new (int d) ty)" using files_opened [OF assms(1,2)] by simp
  then have i: "2 \<le> i" using files_ge2 [OF ok] by simp
  have len: "table_length (gFileTable s) = 10" "m_size (gFileTable s) = 10" using assms(1) by (auto simp: fs_ok_def table_ok_def)
  have "m_entries (gFileTable s) ! i = None" using assms(2,3) len by (simp add: in_use_def)
  then have "Table_Release (int i) (gFileTable ?s) = (0, gFileTable s)"
    using assms(2) len by (simp add: Table_Release_def list_update_same_conv [THEN iffD2])
  moreover have "OpenFile_delete (OpenFile_new (int d) ty) (host ?s) = Inr (host s)"
    using Close_open [OF assms(5)] by (simp add: OpenFile_delete_def)
  ultimately show ?thesis using i as_file_files [OF ok, of "int i"] f
    by (simp add: FileSystem_fclose_def)
qed

lemma fopen_cases:
  assumes ok: "fs_ok s"
  shows "if ty \<notin> {0, 1} \<or> names (host s) name = None \<or> in_use (gFileTable s) = {..<10}
    then FileSystem_fopen name ty s = Inr (-1, s)
    else \<exists>i d. FileSystem_fopen name ty s = Inr (int i, opened i d (the (names (host s) name)) ty s) \<and>
      i < 10 \<and> i \<notin> in_use (gFileTable s) \<and> (\<forall>j<i. j \<in> in_use (gFileTable s)) \<and> d < open_max (host s) \<and> fds (host s) d = None"
proof (cases "ty \<in> {0, 1} \<and> names (host s) name \<noteq> None")
  case True
  then obtain ino where ino: "names (host s) name = Some ino" by blast
  obtain d where d: "d < open_max (host s)" "fds (host s) d = None"
    "fd_alloc ino (host s) = (int d, (host s)\<lparr>fds := (fds (host s))(d \<mapsto> (ino, 0))\<rparr>)"
    using fd_alloc_free [OF fs_ok_room [OF ok]] by blast
  have t: "table_ok (gFileTable s)" "table_length (gFileTable s) = 10" using ok by (auto simp: fs_ok_def)
  have o: "OpenForReadWrite name False (host s) = Inr (int d, (host s)\<lparr>fds := (fds (host s))(d \<mapsto> (ino, 0))\<rparr>)"
    using ino d by (simp add: OpenForReadWrite_def)
  have c: "OpenFile_delete (OpenFile_new (int d) ty) ((host s)\<lparr>fds := (fds (host s))(d \<mapsto> (ino, 0))\<rparr>) = Inr (host s)"
    using Close_open [OF d(2)] by (simp add: OpenFile_delete_def)
  have "if in_use (gFileTable s) = {..<10} then FileSystem_fopen name ty s = Inr (-1, s)
    else \<exists>i. FileSystem_fopen name ty s = Inr (int i, opened i d ino ty s) \<and> i < 10 \<and> i \<notin> in_use (gFileTable s) \<and> (\<forall>j<i. j \<in> in_use (gFileTable s))"
    using Alloc_cases [OF t(1), of "Some (FileSlot (OpenFile_new (int d) ty))"] True o c unfolding t(2)
    by (auto simp: FileSystem_fopen_def Let_def split: if_splits)
  then show ?thesis using True ino d by (auto split: if_splits)
next
  case False
  then have "FileSystem_fopen name ty s = Inr (-1, s)" by (auto simp: FileSystem_fopen_def OpenForReadWrite_def)
  then show ?thesis using False by auto
qed

text \<open>The state after \<open>fclose\<close> of the file behind \<open>i\<close>.\<close>

abbreviation closed :: "nat \<Rightarrow> OpenFile \<Rightarrow> FileSystem \<Rightarrow> FileSystem" where
  "closed i f s \<equiv> s\<lparr>gFileTable := (gFileTable s)\<lparr>m_entries := (m_entries (gFileTable s))[i := None]\<rparr>,
      host := (host s)\<lparr>fds := (fds (host s))(nat (host_fd f) := None)\<rparr>\<rparr>"

lemma fclose_cases:
  assumes ok: "fs_ok s"
  shows "case (if fid < 0 then None else files s (nat fid)) of
      None \<Rightarrow> FileSystem_fclose fid s = Inr (-1, s)
    | Some f \<Rightarrow> FileSystem_fclose fid s = Inr (0, closed (nat fid) f s)"
proof (cases "fid < 2")
  case True
  then show ?thesis using files_reserved [OF ok, of "nat fid"] by (auto simp: FileSystem_fclose_def)
next
  case False
  show ?thesis
  proof (cases "files s (nat fid)")
    case (Some f)
    have "fd_lookup (host s) (host_fd f) \<noteq> None" using fs_ok_file [OF ok Some] by (auto simp: file_ok_def file_of_def)
    moreover have "m_size (gFileTable s) = 10" "fid < 10" using ok files_lt [OF Some] by (auto simp: fs_ok_def table_ok_def)
    ultimately show ?thesis using False Some files_lt [OF Some] as_file_files [OF ok, of fid]
      by (simp add: FileSystem_fclose_def OpenFile_delete_def Close_def Table_Release_def)
  qed (use False as_file_files [OF ok, of fid] in \<open>simp add: FileSystem_fclose_def\<close>)
qed

lemma files_closed: "fs_ok s \<Longrightarrow> files s i = Some f \<Longrightarrow> files (closed i f s) = (files s)(i := None)"
proof
  fix j
  assume s: "fs_ok s" "files s i = Some f"
  have "i < table_length (gFileTable s)" using files_ge2 [OF s] s(1) by (simp add: fs_ok_def)
  then show "files (closed i f s) j = ((files s)(i := None)) j" by (cases "j = i") (simp_all add: files_def)
qed

lemma file_of_close: "0 \<le> d \<Longrightarrow> file_of (h\<lparr>fds := (fds h)(nat d := None)\<rparr>) fd = (if fd = d then None else file_of h fd)"
  by (auto simp: file_of_def fd_lookup_def nat_eq_iff)

lemma fs_ok_closed:
  assumes ok: "fs_ok s" and f: "files s i = Some f"
  shows "fs_ok (closed i f s)"
proof -
  let ?s = "closed i f s"
  have fok: "file_ok (host s) f" using fs_ok_file [OF ok f] .
  then obtain ino where ino: "file_of (host s) (host_fd f) = Some ino" by (auto simp: file_ok_def)
  have d: "0 \<le> host_fd f" "nat (host_fd f) < open_max (host s)" "fds (host s) (nat (host_fd f)) \<noteq> None"
    using file_of_Some [OF ino] fok by (auto simp: file_ok_def)
  have i: "2 \<le> i" "i < 10" "i \<in> in_use (gFileTable s)" "table_length (gFileTable s) = 10"
    using files_ge2 [OF ok f] files_lt [OF f] ok by (auto simp: fs_ok_def in_use_def)
  have "finite (in_use (gFileTable s))" using finite_subset [of "in_use (gFileTable s)" "{..<10}"] i by (auto simp: in_use_def)
  then have card: "Suc (card (in_use (gFileTable ?s))) = card (in_use (gFileTable s))"
    using i by (simp add: in_use_update card_Suc_Diff1 del: card_Diff_insert)
  have "table_ok (gFileTable ?s)" "table_length (gFileTable ?s) = 10" "\<forall>j<10. m_entries (gFileTable ?s) ! j = Some SelfSlot \<longleftrightarrow> j < 2"
    using ok i by (auto simp: fs_ok_def table_ok_def nth_list_update)
  moreover have "file_ok (host ?s) g" if "files ?s j = Some g" for j g
  proof -
    have g: "files s j = Some g" "j \<noteq> i" using that by (auto simp: files_closed [OF ok f] split: if_splits)
    then have "host_fd g \<noteq> host_fd f" using fs_ok_inj [OF ok _ f] by blast
    then show ?thesis using fs_ok_file [OF ok g(1)] d(1) by (simp add: file_ok_def file_of_close)
  qed
  moreover have "\<forall>j k g g'. files ?s j = Some g \<longrightarrow> files ?s k = Some g' \<longrightarrow> host_fd g = host_fd g' \<longrightarrow> j = k"
  proof (intro allI impI)
    fix j k g g'
    assume "files ?s j = Some g" "files ?s k = Some g'" "host_fd g = host_fd g'"
    then show "j = k" unfolding files_closed [OF ok f] by (cases "j = i"; cases "k = i") (auto intro: fs_ok_inj [OF ok])
  qed
  moreover have "11 \<le> card (in_use (gFileTable ?s)) + free_fds (host ?s)"
    using ok card free_fds_close [OF d(2,3)] by (simp add: fs_ok_def)
  ultimately show ?thesis unfolding fs_ok_def by blast
qed

lemma fs_ok_host:
  assumes "fs_ok s" "fds h' = fds (host s)" "open_max h' = open_max (host s)"
  shows "fs_ok (s\<lparr>host := h'\<rparr>)"
proof -
  have "file_of h' = file_of (host s)" using assms(2) by (auto simp: file_of_def fd_lookup_def)
  then have "file_ok h' = file_ok (host s)" "free_fds h' = free_fds (host s)" using assms(2,3) by (auto simp: file_ok_def free_fds_def)
  moreover have "files (s\<lparr>host := h'\<rparr>) = files s" by (auto simp: files_def)
  ultimately show ?thesis using assms(1) unfolding fs_ok_def by simp
qed

lemma Create_ok:
  assumes ok: "fs_ok s"
  shows "\<exists>s'. FileSystem_Create name s = Inr (True, s') \<and> fs_ok s' \<and> fds (host s') = fds (host s) \<and> gFileTable s' = gFileTable s \<and>
     (\<exists>ino. names (host s') = (names (host s))(name \<mapsto> ino) \<and> inodes (host s') = (inodes (host s))(ino := []) \<and>
        (case names (host s) name of Some k \<Rightarrow> ino = k | None \<Rightarrow> ino = next_inode (host s) \<and> next_inode (host s') = Suc ino))"
proof -
  define ino h1 where "ino = (case names (host s) name of Some k \<Rightarrow> k | None \<Rightarrow> next_inode (host s))"
    and "h1 = (case names (host s) name of Some k \<Rightarrow> host s
      | None \<Rightarrow> (host s)\<lparr>names := (names (host s))(name \<mapsto> next_inode (host s)), next_inode := Suc (next_inode (host s))\<rparr>)"
  have h1: "fds h1 = fds (host s)" "open_max h1 = open_max (host s)" "inodes h1 = inodes (host s)" "names h1 = (names (host s))(name \<mapsto> ino)"
    by (auto simp: h1_def ino_def split: option.splits)
  then have "0 < free_fds h1" using fs_ok_room [OF ok] by (simp add: free_fds_def)
  then obtain d where d: "fds h1 d = None" "fd_alloc ino h1 = (int d, h1\<lparr>fds := (fds h1)(d \<mapsto> (ino, 0))\<rparr>)"
    using fd_alloc_free by blast
  let ?h = "h1\<lparr>inodes := (inodes h1)(ino := [])\<rparr>"
  have o: "OpenForWrite name (host s) = Inr (int d, ?h\<lparr>fds := (fds ?h)(d \<mapsto> (ino, 0))\<rparr>)"
    using d(2) by (auto simp: OpenForWrite_def h1_def ino_def Let_def split: option.splits)
  have "Close (int d) (?h\<lparr>fds := (fds ?h)(d \<mapsto> (ino, 0))\<rparr>) = Inr ?h" by (rule Close_open) (use d(1) in simp)
  then have "FileSystem_Create name s = Inr (True, s\<lparr>host := ?h\<rparr>)" by (simp add: FileSystem_Create_def o)
  moreover have "fs_ok (s\<lparr>host := ?h\<rparr>)" using h1 by (intro fs_ok_host [OF ok]) simp_all
  ultimately show ?thesis using h1 by (auto simp: h1_def ino_def split: option.splits)
qed

lemma FileSystem_new_ok: "9 \<le> free_fds h \<Longrightarrow> fs_ok (FileSystem_new h)"
proof -
  assume r: "9 \<le> free_fds h"
  let ?t = "\<lparr>m_entries = [Some SelfSlot, Some SelfSlot, None, None, None, None, None, None, None, None], m_size = 10\<rparr> :: slot Table"
  have "replicate 10 (None :: slot option) = [None, None, None, None, None, None, None, None, None, None]" by (simp add: numeral_eq_Suc)
  then have t: "gFileTable (FileSystem_new h) = ?t" by (simp add: FileSystem_new_def Table_Set_def Table_new_def)
  have nth: "\<forall>i<10. m_entries ?t ! i = (if i < 2 then Some SelfSlot else None)" by (simp add: All_less_Suc numeral_eq_Suc)
  have len: "length (m_entries ?t) = 10" by simp
  have "files (FileSystem_new h) i = None" for i using nth [rule_format, of i] unfolding files_def t by (simp del: nth_Cons_numeral split: option.splits)
  moreover have "in_use ?t = {..<2}" using nth unfolding in_use_def len by (auto simp del: nth_Cons_numeral split: if_splits)
  moreover have "table_ok ?t" by (simp add: table_ok_def)
  moreover have "host (FileSystem_new h) = h" by (simp add: FileSystem_new_def)
  ultimately show ?thesis using r nth len unfolding fs_ok_def t by simp
qed

section \<open>Properties\<close>

text \<open>
  C17: reading, writing and seeking through a file identifier implement the abstract file system:
  \<open>Read\<close> returns the bytes at the position, at most as many as asked, and moves past them;
  \<open>Write\<close> replaces the bytes at the position, filling a gap with zeros, or returns -1 and changes
  nothing when the file is open read-only; \<open>Seek\<close> goes to the position, to the end for -1, and not
  past the end of a read-only file. The calls keep the file system well formed and touch no other open file.
  Positions and file sizes fit in an \<open>int\<close>.
\<close>

theorem stub_files_refine:
  assumes "fs_ok s" "getOpenFile fid s = Inr (Some f)" "0 \<le> n" "currentOffset f + n < 2 ^ 31" "n \<le> int (length from)"
    "p < 2 ^ 31" "\<forall>ino. file_of (host s) (host_fd f) = Some ino \<longrightarrow> int (length (inodes (host s) ino)) < 2 ^ 31"
  shows "(\<exists>bs f' h'. OpenFile_Read f n (host s) = Inr (int (length bs), bs, f', h') \<and>
            fs_ok (put_file fid f' h' s) \<and> (bs, fs_abs (put_file fid f' h' s)) = abs_read (nat fid) (nat n) (fs_abs s)) \<and>
         (\<exists>r f' h'. OpenFile_Write f from n (host s) = Inr (r, f', h') \<and>
            fs_ok (put_file fid f' h' s) \<and> (r, fs_abs (put_file fid f' h' s)) = abs_write (nat fid) (take (nat n) from) (fs_abs s)) \<and>
         (\<exists>r f' h'. OpenFile_Seek f p (host s) = Inr (r, f', h') \<and>
            fs_ok (put_file fid f' h' s) \<and> (r, fs_abs (put_file fid f' h' s)) = abs_seek (nat fid) p (fs_abs s))"
proof -
  have fid: "0 \<le> fid" "files s (nat fid) = Some f"
    using assms(2) unfolding getOpenFile_files [OF assms(1)] by (auto split: if_splits)
  have i: "int (nat fid) = fid" using fid by simp
  show ?thesis
    using stub_read [OF assms(1) fid(2) assms(3,4)] stub_write [OF assms(1) fid(2) assms(3-5)] stub_seek [OF assms(1) fid(2) assms(6,7)]
    unfolding i by blast
qed

text \<open>A host with a file \<open>a\<close> of two bytes and 16 descriptors, three of them taken.\<close>

definition demo_host :: Host where
  "demo_host = \<lparr>names = [''a'' \<mapsto> 0], inodes = (\<lambda>_. [])(0 := [104, 105]), next_inode = 1,
     fds = [0 \<mapsto> (9, 0), 1 \<mapsto> (9, 0), 2 \<mapsto> (9, 0)], open_max = 16\<rparr>"

lemma demo_host_room: "free_fds demo_host = 13"
proof -
  have "{i. i < open_max demo_host \<and> fds demo_host i = None} = {3..<16}" by (auto simp: demo_host_def)
  then show ?thesis by (simp add: free_fds_def)
qed

definition demo_fs :: FileSystem where
  "demo_fs = opened 2 3 0 0 (FileSystem_new demo_host)"

lemma demo_fs_ok: "fs_ok (FileSystem_new demo_host)" "fs_ok demo_fs" "files demo_fs 2 = Some (OpenFile_new 3 0)"
  "file_of (host demo_fs) 3 = Some 0" "inodes (host demo_fs) 0 = [104, 105]"
proof -
  show new: "fs_ok (FileSystem_new demo_host)" by (rule FileSystem_new_ok) (simp add: demo_host_room)
  have "2 \<notin> in_use (gFileTable (FileSystem_new demo_host))"
    by (simp add: in_use_def FileSystem_new_def Table_Set_def Table_new_def)
  then show "fs_ok demo_fs" unfolding demo_fs_def
    by (intro fs_ok_opened [OF new]) (simp_all add: FileSystem_new_def demo_host_def)
  show "files demo_fs 2 = Some (OpenFile_new 3 0)" using files_opened [OF new, of 2 3 0 0] by (simp add: demo_fs_def)
  show "file_of (host demo_fs) 3 = Some 0" by (simp add: demo_fs_def file_of_def fd_lookup_def)
  show "inodes (host demo_fs) 0 = [104, 105]" by (simp add: demo_fs_def FileSystem_new_def demo_host_def)
qed

theorem stub_files_refine_witness:
  "\<exists>r f' h'. OpenFile_Write (OpenFile_new 3 0) [72, 0, 7] 1 (host demo_fs) = Inr (r, f', h') \<and> r = 1 \<and>
     fs_ok (put_file 2 f' h' demo_fs) \<and> fst (fs_abs (put_file 2 f' h' demo_fs)) 2 = Some (0, 1, False) \<and> inodes h' 0 = [72, 105]"
proof -
  have g: "getOpenFile 2 demo_fs = Inr (Some (OpenFile_new 3 0))"
    using getOpenFile_files [OF demo_fs_ok(2), of 2] demo_fs_ok(3) by simp
  have v: "fst (fs_abs demo_fs) 2 = Some (0, 0, False)" "snd (fs_abs demo_fs) = inodes (host demo_fs)"
    using demo_fs_ok(3,4) by (simp_all add: fs_abs_def)
  have w: "abs_write 2 [72] (fs_abs demo_fs) = (1, (fst (fs_abs demo_fs))(2 \<mapsto> (0, 1, False)), (inodes (host demo_fs))(0 := [72, 105]))"
    using demo_fs_ok(5) by (simp add: abs_write_def v splice_def)
  have t: "take (nat 1) [72, 0, 7 :: byte] = [72]" by simp
  obtain r f' h' where r: "OpenFile_Write (OpenFile_new 3 0) [72, 0, 7] 1 (host demo_fs) = Inr (r, f', h')"
    "fs_ok (put_file 2 f' h' demo_fs)" "(r, fs_abs (put_file 2 f' h' demo_fs)) = abs_write 2 [72] (fs_abs demo_fs)"
    using stub_files_refine [OF demo_fs_ok(2) g, of 1 "[72, 0, 7]" 0] demo_fs_ok(4,5) unfolding t by auto
  moreover have "inodes h' = snd (fs_abs (put_file 2 f' h' demo_fs))" by (simp add: fs_abs_def)
  ultimately show ?thesis unfolding w by (intro exI [of _ r] exI [of _ f'] exI [of _ h']) auto
qed

lemma in_use_full: "fs_ok s \<Longrightarrow> in_use (gFileTable s) = {..<10} \<Longrightarrow> 2 \<le> i \<Longrightarrow> i < 10 \<Longrightarrow> files s i \<noteq> None"
proof -
  assume a: "fs_ok s" "in_use (gFileTable s) = {..<10}" "2 \<le> i" "i < 10"
  then have "m_entries (gFileTable s) ! i \<noteq> Some SelfSlot" by (simp add: fs_ok_def)
  moreover have "i \<in> in_use (gFileTable s)" using a by simp
  ultimately show ?thesis using a(4) by (auto simp: files_def in_use_def split: slot.splits)
qed

text \<open>
  C32: \<open>fopen\<close> never aborts the kernel. It returns -1 and changes nothing, the host's descriptors
  included, when the type is neither 0 nor 1, the file does not exist, or all eight identifiers are
  taken; otherwise it returns a free identifier between 2 and 9 that names the file at
  position 0, leaves every other open file as it was, and \<open>fclose\<close> of the identifier gives back the state before.
\<close>

theorem fopen_fclose_no_leak:
  assumes "fs_ok s"
  shows "\<exists>fid s'. FileSystem_fopen name ty s = Inr (fid, s') \<and> fs_ok s' \<and>
    (if fid = -1 then s' = s \<and> (ty \<notin> {0, 1} \<or> names (host s) name = None \<or> (\<forall>i. 2 \<le> i \<and> i < 10 \<longrightarrow> files s i \<noteq> None))
     else 2 \<le> fid \<and> fid < 10 \<and> fst (fs_abs s) (nat fid) = None \<and>
       fs_abs s' = ((fst (fs_abs s))(nat fid \<mapsto> (the (names (host s) name), 0, ty = 1)), snd (fs_abs s)) \<and>
       FileSystem_fclose fid s' = Inr (0, s))"
proof (cases "ty \<notin> {0, 1} \<or> names (host s) name = None \<or> in_use (gFileTable s) = {..<10}")
  case True
  then show ?thesis using fopen_cases [OF assms, of ty name] assms in_use_full [OF assms] by auto
next
  case False
  then obtain i d where o: "FileSystem_fopen name ty s = Inr (int i, opened i d (the (names (host s) name)) ty s)"
    "i < 10" "i \<notin> in_use (gFileTable s)" "d < open_max (host s)" "fds (host s) d = None"
    using fopen_cases [OF assms, of ty name] unfolding if_not_P [OF False] by blast
  have ty: "ty = 0 \<or> ty = 1" using False by simp
  let ?s = "opened i d (the (names (host s) name)) ty s"
  have s: "fs_ok ?s" by (rule fs_ok_opened [OF assms o(2-5) ty])
  have "files ?s i \<noteq> None" unfolding files_opened [OF assms o(2)] by simp
  then have "2 \<le> i" using files_ge2 [OF s, of i] by blast
  moreover have "files s i = None" using o(3) assms by (auto simp: files_def in_use_def fs_ok_def)
  then have "fst (fs_abs s) i = None" by (simp add: fs_abs_def)
  ultimately show ?thesis
    using o(1,2) s fs_abs_opened [OF assms o(2,5)] fclose_opened [OF assms o(2-5) ty]
    by (intro exI [of _ "int i"] exI [of _ ?s]) simp
qed

theorem fopen_fclose_no_leak_witness:
  "\<exists>s'. FileSystem_fopen ''a'' 1 demo_fs = Inr (3, s') \<and> fs_ok s' \<and> fst (fs_abs s') 3 = Some (0, 0, True) \<and>
     FileSystem_fclose 3 s' = Inr (0, demo_fs) \<and> FileSystem_fopen ''b'' 0 demo_fs = Inr (-1, demo_fs)"
proof -
  have names: "names (host demo_fs) = [''a'' \<mapsto> 0]" by (simp add: demo_fs_def FileSystem_new_def demo_host_def)
  have "\<exists>h. FileSystem_fopen ''a'' 1 demo_fs = Inr (3, h)"
    by (simp add: FileSystem_fopen_def OpenForReadWrite_def names demo_fs_def FileSystem_new_def demo_host_def fd_alloc_def first_index_def
        Table_Alloc_def Table_Set_def Table_new_def upt_rec numeral_eq_Suc)
  moreover have "\<exists>fid h. FileSystem_fopen ''b'' 0 demo_fs = Inr (-1, h)"
    by (simp add: FileSystem_fopen_def OpenForReadWrite_def names)
  ultimately show ?thesis
    using fopen_fclose_no_leak [OF demo_fs_ok(2), of "''a''" 1] fopen_fclose_no_leak [OF demo_fs_ok(2), of "''b''" 0]
    by (auto simp: names)
qed

end
