(* ===== verification/Process_Table.thy ===== *)
theory Process_Table
  imports Threads File_Stub
begin

text \<open>
  Processes: the control block of \<open>threads/pcb.cc\<close> and the table of ten of \<open>threads/ptable.cc\<close>, which
  start a program, wait for a child and end a process. The state is the table with the thread
  system, the file system, the bitmap of page frames and the names of threads. No system call is
  preempted: a context switch happens where the code sleeps in \<open>P\<close> or finishes.
\<close>

section \<open>State\<close>

abbreviation MAX_PROCESS :: nat where "MAX_PROCESS \<equiv> 10"
abbreviation MAX_FILENAME_LEN :: nat where "MAX_FILENAME_LEN \<equiv> 255"

record PCB =
  pID :: int
  parentID :: int
  exitcode :: int
  numwait :: int
  joinID :: int
  joinExitcode :: int
  isExit :: int
  pcb_thread :: "nat option"
  joinsem :: nat
  exitsem :: nat
  mutex :: nat
  fileName :: string

record PTable =
  pt_bm :: BitMap
  pcb :: "PCB cell list"
  bmsem :: nat

record Proc =
  ptab :: PTable
  kern :: Kernel
  fsys :: FileSystem
  gPhysPageBitMap :: BitMap
  t_name :: "nat \<Rightarrow> string"

text \<open>The addresses \<open>new\<close> returns while a process is made.\<close>

record Addrs =
  new_joinsem :: nat
  new_exitsem :: nat
  new_mutex :: nat
  new_thread :: nat
  new_table :: nat

text \<open>How a call ends: it returns, its thread sleeps in \<open>P\<close> (and goes on later), or the machine halts.\<close>

datatype 'a call_result = Returns 'a | Sleeps | Halts

text \<open>\<open>s->P()\<close> followed by the rest of the function, if the caller passes at once.\<close>

definition P_then :: "nat \<Rightarrow> (Proc \<Rightarrow> ('a call_result \<times> Proc) res) \<Rightarrow> Proc \<Rightarrow> ('a call_result \<times> Proc) res" where
  "P_then sm f s = rbind (P sm (kern s)) (\<lambda>(k, ps).
     if currentThread (kern s) \<in> fst ` set ps then f (s\<lparr>kern := k\<rparr>) else Inr (Sleeps, s\<lparr>kern := k\<rparr>))"

definition V_on :: "nat \<Rightarrow> Proc \<Rightarrow> Proc res" where
  "V_on sm s = rbind (V sm (kern s)) (\<lambda>k. Inr (s\<lparr>kern := k\<rparr>))"

text \<open>\<open>s->V(); return r;\<close>\<close>

definition V_return :: "nat \<Rightarrow> 'a \<Rightarrow> Proc \<Rightarrow> ('a call_result \<times> Proc) res" where
  "V_return sm r s = rbind (V_on sm s) (\<lambda>s'. Inr (Returns r, s'))"

section \<open>Process control blocks\<close>

text \<open>An entry of the table; a negative index is outside the array.\<close>

definition pcb_at :: "int \<Rightarrow> Proc \<Rightarrow> PCB res" where
  "pcb_at i s = (if i < 0 \<or> int (length (pcb (ptab s))) \<le> i then Inl OutOfBounds else cell_deref (pcb (ptab s) ! nat i))"

definition set_cell :: "int \<Rightarrow> PCB cell \<Rightarrow> Proc \<Rightarrow> Proc" where
  "set_cell i c s = s\<lparr>ptab := (ptab s)\<lparr>pcb := (pcb (ptab s))[nat i := c]\<rparr>\<rparr>"

definition upd_pcb :: "int \<Rightarrow> (PCB \<Rightarrow> PCB) \<Rightarrow> Proc \<Rightarrow> Proc res" where
  "upd_pcb i f s = rbind (pcb_at i s) (\<lambda>p. Inr (set_cell i (CObj (f p)) s))"

definition PCB_new :: "Addrs \<Rightarrow> Kernel \<Rightarrow> PCB \<times> Kernel" where
  "PCB_new ad k =
     (\<lparr>pID = -1, parentID = -1, exitcode = 0, numwait = 0, joinID = -1, joinExitcode = 0, isExit = 0, pcb_thread = None,
        joinsem = new_joinsem ad, exitsem = new_exitsem ad, mutex = new_mutex ad, fileName = []\<rparr>,
      k\<lparr>sems := (sems k)(new_joinsem ad \<mapsto> Semaphore_new 0, new_exitsem ad \<mapsto> Semaphore_new 0, new_mutex ad \<mapsto> Semaphore_new 1)\<rparr>)"

definition PCB_delete :: "PCB \<Rightarrow> Kernel \<Rightarrow> Kernel" where
  "PCB_delete p k = k\<lparr>sems := (sems k)(joinsem p := None, exitsem p := None, mutex p := None)\<rparr>"

text \<open>What a process started by a parent does first, and the first process at once.\<close>

definition start_space :: "Proc \<Rightarrow> Proc res" where
  "start_space s =
     rbind (thread_of (currentThread (kern s)) (kern s)) (\<lambda>th.
       case space th of None \<Rightarrow> Inl NullDeref
       | Some sp \<Rightarrow> rbind (InitRegisters sp (machine (kern s))) (\<lambda>m.
           Inr (s\<lparr>kern := (kern s)\<lparr>machine := RestoreState sp m\<rparr>\<rparr>)))"

abbreviation exec_func :: nat where "exec_func \<equiv> 1"

text \<open>
  \<open>PCB::Exec\<close> on the control block in entry \<open>pid\<close>. The new thread runs in the new address space;
  the first process, which has no parent, takes the place of the calling thread.
\<close>

definition PCB_Exec_body :: "Addrs \<Rightarrow> (nat \<Rightarrow> 8 word) \<Rightarrow> string \<Rightarrow> int \<Rightarrow> int \<Rightarrow> PCB \<Rightarrow> Proc \<Rightarrow> (int call_result \<times> Proc) res" where
  "PCB_Exec_body ad garbage filename pid parentid p s =
     (if pid < 0 \<or> pcb_thread p \<noteq> None then V_return (mutex p) (-1) s
      else rbind (FileSystem_Open 0 filename (fsys s)) (\<lambda>(f, fs). case f of
        None \<Rightarrow> V_return (mutex p) (-1) (s\<lparr>fsys := fs\<rparr>)
      | Some executable \<Rightarrow>
          let t = new_thread ad; name = take MAX_FILENAME_LEN filename; k = kern s
          in rbind (AddrSpace_new garbage (content (host fs) (host_fd executable)) (new_table ad) (gPhysPageBitMap s) (machine k)) (\<lambda>(sp, bm, m).
             rbind (OpenFile_delete executable (host fs)) (\<lambda>h.
             let s1 = set_cell pid (CObj (p\<lparr>pID := pid, parentID := parentid, fileName := name, pcb_thread := Some t\<rparr>))
                   (s\<lparr>kern := k\<lparr>threads := (threads k)(t \<mapsto> Thread_new\<lparr>space := Some sp\<rparr>), machine := m\<rparr>,
                      fsys := fs\<lparr>host := h\<rparr>, gPhysPageBitMap := bm, t_name := (t_name s)(t := name)\<rparr>)
             in rbind (if parentid = -1
                       then let tempthread = currentThread (kern s1)
                            in rbind (setStatus t RUNNING ((kern s1)\<lparr>currentThread := t\<rparr>)) (\<lambda>k2.
                               rbind (Thread_delete tempthread k2) (\<lambda>k3. start_space (s1\<lparr>kern := k3\<rparr>)))
                       else rbind (Fork t exec_func 0 (kern s1)) (\<lambda>k2. Inr (s1\<lparr>kern := k2\<rparr>)))
                  (V_return (mutex p) pid)))))"

definition PCB_Exec :: "Addrs \<Rightarrow> (nat \<Rightarrow> 8 word) \<Rightarrow> string \<Rightarrow> int \<Rightarrow> int \<Rightarrow> Proc \<Rightarrow> (int call_result \<times> Proc) res" where
  "PCB_Exec ad garbage filename pid parentid s =
     rbind (pcb_at pid s) (\<lambda>p. P_then (mutex p) (PCB_Exec_body ad garbage filename pid parentid p) s)"

text \<open>\<open>JoinWait\<close> and \<open>ExitWait\<close> go on with \<open>f\<close>, at once or when their \<open>P\<close> passes.\<close>

definition JoinWait :: "int \<Rightarrow> int \<Rightarrow> (Proc \<Rightarrow> ('a call_result \<times> Proc) res) \<Rightarrow> Proc \<Rightarrow> ('a call_result \<times> Proc) res" where
  "JoinWait i joinid f s = rbind (pcb_at i s) (\<lambda>p.
     if joinID p \<noteq> -1 then f s
     else P_then (joinsem p) f (set_cell i (CObj (p\<lparr>joinID := joinid\<rparr>)) s))"

definition ExitWait :: "int \<Rightarrow> (Proc \<Rightarrow> ('a call_result \<times> Proc) res) \<Rightarrow> Proc \<Rightarrow> ('a call_result \<times> Proc) res" where
  "ExitWait i f s = rbind (pcb_at i s) (\<lambda>p.
     if 0 < numwait p then P_then (exitsem p) f (set_cell i (CObj (p\<lparr>isExit := 1\<rparr>)) s) else f s)"

definition JoinRelease :: "int \<Rightarrow> int \<Rightarrow> int \<Rightarrow> Proc \<Rightarrow> Proc res" where
  "JoinRelease i joinid joinexitcode s = rbind (pcb_at i s) (\<lambda>p.
     if joinID p \<noteq> joinid then Inr s
     else V_on (joinsem p) (set_cell i (CObj (p\<lparr>joinID := -1, joinExitcode := joinexitcode\<rparr>)) s))"

definition ExitRelease :: "int \<Rightarrow> Proc \<Rightarrow> Proc res" where
  "ExitRelease i s = rbind (pcb_at i s) (\<lambda>p.
     if numwait p = 0 \<and> isExit p = 1 then V_on (exitsem p) s else Inr s)"

definition IncNumWait :: "int \<Rightarrow> Proc \<Rightarrow> Proc res" where
  "IncNumWait i = upd_pcb i (\<lambda>p. p\<lparr>numwait := numwait p + 1\<rparr>)"

definition DecNumWait :: "int \<Rightarrow> Proc \<Rightarrow> Proc res" where
  "DecNumWait i = upd_pcb i (\<lambda>p. p\<lparr>numwait := numwait p - 1\<rparr>)"

definition SetExitCode :: "int \<Rightarrow> int \<Rightarrow> Proc \<Rightarrow> Proc res" where
  "SetExitCode i ec = upd_pcb i (\<lambda>p. p\<lparr>exitcode := ec\<rparr>)"

definition SetFileName :: "int \<Rightarrow> string \<Rightarrow> Proc \<Rightarrow> Proc res" where
  "SetFileName i fn = upd_pcb i (\<lambda>p. p\<lparr>fileName := take MAX_FILENAME_LEN fn\<rparr>)"

section \<open>The process table\<close>

definition PTable_new :: "(nat \<Rightarrow> 32 word) \<Rightarrow> nat \<Rightarrow> Kernel \<Rightarrow> (PTable \<times> Kernel) res" where
  "PTable_new mem sm k = rbind (BitMap_new mem (int MAX_PROCESS)) (\<lambda>bm.
     Inr (\<lparr>pt_bm = bm, pcb = replicate MAX_PROCESS CNull, bmsem = sm\<rparr>, k\<lparr>sems := (sems k)(sm \<mapsto> Semaphore_new 1)\<rparr>))"

text \<open>The destructor; an entry that was deleted and not set to null would be deleted twice.\<close>

fun delete_pcbs :: "PCB cell list \<Rightarrow> Kernel \<Rightarrow> Kernel res" where
  "delete_pcbs [] k = Inr k"
| "delete_pcbs (CNull # cs) k = delete_pcbs cs k"
| "delete_pcbs (CFreed # cs) k = Inl BadPointer"
| "delete_pcbs (CObj p # cs) k = delete_pcbs cs (PCB_delete p k)"

definition PTable_delete :: "PTable \<Rightarrow> Kernel \<Rightarrow> Kernel res" where
  "PTable_delete t k = delete_pcbs (pcb t) (k\<lparr>sems := (sems k)(bmsem t := None)\<rparr>)"

text \<open>The loop that looks for the control block of the running thread.\<close>

fun find_process :: "nat \<Rightarrow> PCB cell list \<Rightarrow> nat \<Rightarrow> nat option res" where
  "find_process t [] i = Inr None"
| "find_process t (CNull # cs) i = find_process t cs (Suc i)"
| "find_process t (CFreed # cs) i = Inl BadPointer"
| "find_process t (CObj p # cs) i = (if pcb_thread p = Some t then Inr (Some i) else find_process t cs (Suc i))"

definition current_process :: "Proc \<Rightarrow> nat option res" where
  "current_process s = find_process (currentThread (kern s)) (pcb (ptab s)) 0"

text \<open>\<open>ExecUpdate\<close> once the entry \<open>pid\<close> of the new process is known.\<close>

definition Exec_entry :: "Addrs \<Rightarrow> (nat \<Rightarrow> 8 word) \<Rightarrow> string \<Rightarrow> int \<Rightarrow> int \<Rightarrow> Proc \<Rightarrow> (int call_result \<times> Proc) res" where
  "Exec_entry ad garbage filename pid parentid s =
     (let (p, k) = PCB_new ad (kern s)
      in rbind (PCB_Exec ad garbage filename pid parentid (set_cell pid (CObj p) (s\<lparr>kern := k\<rparr>))) (\<lambda>(ret, s1).
         case ret of
           Returns r \<Rightarrow>
             if r = -1
             then rbind (BitMap_Clear (pt_bm (ptab s1)) pid) (\<lambda>bm.
                  rbind (pcb_at pid s1) (\<lambda>p'.
                    V_return (bmsem (ptab s1)) (-1)
                      ((set_cell pid CFreed s1)\<lparr>ptab := (ptab (set_cell pid CFreed s1))\<lparr>pt_bm := bm\<rparr>, kern := PCB_delete p' (kern s1)\<rparr>)))
             else rbind (IncNumWait parentid s1) (V_return (bmsem (ptab s1)) pid)
         | _ \<Rightarrow> Inr (ret, s1)))"

definition ExecUpdate_body :: "Addrs \<Rightarrow> (nat \<Rightarrow> 8 word) \<Rightarrow> string \<Rightarrow> Proc \<Rightarrow> (int call_result \<times> Proc) res" where
  "ExecUpdate_body ad garbage filename s =
     (let sm = bmsem (ptab s)
      in rbind (FileSystem_Open 0 filename (fsys s)) (\<lambda>(f, fs). case f of
        None \<Rightarrow> V_return sm (-1) (s\<lparr>fsys := fs\<rparr>)
      | Some executable \<Rightarrow> rbind (OpenFile_delete executable (host fs)) (\<lambda>h.
          let s1 = s\<lparr>fsys := fs\<lparr>host := h\<rparr>\<rparr>
          in rbind (BitMap_NumClear (pt_bm (ptab s1))) (\<lambda>clear.
             if clear = int MAX_PROCESS
             then rbind (BitMap_Mark (pt_bm (ptab s1)) 0) (\<lambda>bm.
                    Exec_entry ad garbage filename 0 (-1) (s1\<lparr>ptab := (ptab s1)\<lparr>pt_bm := bm\<rparr>\<rparr>))
             else if strncmp_eq MAX_FILENAME_LEN (t_name s1 (currentThread (kern s1))) filename then V_return sm (-1) s1
             else rbind (current_process s1) (\<lambda>parent. case parent of
               None \<Rightarrow> V_return sm (-1) s1
             | Some parentid \<Rightarrow> rbind (BitMap_Find (pt_bm (ptab s1))) (\<lambda>(pid, bm).
                 if pid = -1 then V_return sm (-1) (s1\<lparr>ptab := (ptab s1)\<lparr>pt_bm := bm\<rparr>\<rparr>)
                 else Exec_entry ad garbage filename pid (int parentid) (s1\<lparr>ptab := (ptab s1)\<lparr>pt_bm := bm\<rparr>\<rparr>)))))))"

definition ExecUpdate :: "Addrs \<Rightarrow> (nat \<Rightarrow> 8 word) \<Rightarrow> string \<Rightarrow> Proc \<Rightarrow> (int call_result \<times> Proc) res" where
  "ExecUpdate ad garbage filename s = P_then (bmsem (ptab s)) (ExecUpdate_body ad garbage filename) s"

text \<open>
  \<open>ExitUpdate\<close>, and what it does after \<open>ExitWait\<close>: the process never returns to its program, the
  thread finishes and another one runs.
\<close>

definition ExitUpdate_rest :: "nat \<Rightarrow> int \<Rightarrow> int \<Rightarrow> Proc \<Rightarrow> (int call_result \<times> Proc) res" where
  "ExitUpdate_rest pid parentid ec s =
     (if parentid = -1 then Inr (Halts, s)
      else rbind (JoinRelease parentid (int pid) ec s) (\<lambda>s1.
           rbind (DecNumWait parentid s1) (\<lambda>s2.
           rbind (ExitRelease parentid s2) (\<lambda>s3.
           rbind (pcb_at (int pid) s3) (\<lambda>p.
           let s4 = (set_cell (int pid) CNull s3)\<lparr>kern := PCB_delete p (kern s3)\<rparr>
           in rbind (BitMap_Clear (pt_bm (ptab s4)) (int pid)) (\<lambda>bm.
              rbind (thread_of (currentThread (kern s4)) (kern s4)) (\<lambda>th.
              case space th of None \<Rightarrow> Inl NullDeref
              | Some sp \<Rightarrow> rbind (AddrSpace_delete sp (gPhysPageBitMap s4) (machine (kern s4))) (\<lambda>(frames, m).
                  rbind (Finish ((kern s4)\<lparr>machine := m\<rparr>)) (\<lambda>(k, ps).
                    Inr (Sleeps, s4\<lparr>ptab := (ptab s4)\<lparr>pt_bm := bm\<rparr>, gPhysPageBitMap := frames, kern := k\<rparr>))))))))))"

definition ExitUpdate :: "int \<Rightarrow> Proc \<Rightarrow> (int call_result \<times> Proc) res" where
  "ExitUpdate ec s = rbind (current_process s) (\<lambda>r. case r of
     None \<Rightarrow> Inr (Returns (-1), s)
   | Some pid \<Rightarrow> rbind (pcb_at (int pid) s) (\<lambda>p. ExitWait (int pid) (ExitUpdate_rest pid (parentID p) ec) s))"

text \<open>\<open>JoinUpdate\<close>, and what it does after \<open>JoinWait\<close>.\<close>

definition JoinUpdate_rest :: "nat \<Rightarrow> Proc \<Rightarrow> (int call_result \<times> Proc) res" where
  "JoinUpdate_rest pid s = rbind (pcb_at (int pid) s) (\<lambda>p. Inr (Returns (joinExitcode p), s))"

definition JoinUpdate :: "int \<Rightarrow> Proc \<Rightarrow> (int call_result \<times> Proc) res" where
  "JoinUpdate jid s =
     (if jid < 0 \<or> int MAX_PROCESS \<le> jid then Inr (Returns (-1), s)
      else rbind (BitMap_Test (pt_bm (ptab s)) jid) (\<lambda>b.
        if \<not> b then Inr (Returns (-1), s)
        else rbind (current_process s) (\<lambda>r. case r of
          None \<Rightarrow> Inr (Returns (-1), s)
        | Some pid \<Rightarrow> rbind (pcb_at jid s) (\<lambda>c.
            if parentID c \<noteq> int pid then Inr (Returns (-1), s)
            else JoinWait (int pid) jid (JoinUpdate_rest pid) s))))"

section \<open>What a context switch keeps\<close>

text \<open>
  Whoever runs next, no semaphore appears or goes away, no page table changes, and every thread
  keeps its address space and the place where it sleeps; only a finished thread is deleted.
\<close>

definition kept :: "Kernel \<Rightarrow> Kernel \<Rightarrow> bool" where
  "kept k k' \<longleftrightarrow> dom (sems k') = dom (sems k) \<and> ptables (machine k') = ptables (machine k) \<and>
     (\<forall>t th. threads k' t = Some th \<longrightarrow> (\<exists>th0. threads k t = Some th0 \<and> resume_at th = resume_at th0 \<and> space th = space th0)) \<and>
     (\<forall>t. threads k t \<noteq> None \<and> threadToBeDestroyed k \<noteq> Some t \<longrightarrow> threads k' t \<noteq> None) \<and>
     (threadToBeDestroyed k' = threadToBeDestroyed k \<or> threadToBeDestroyed k' = None)"

lemma kept_refl [simp]: "kept k k"
  by (simp add: kept_def)

lemma keptD:
  assumes "kept k k'"
  shows "dom (sems k') = dom (sems k)" "ptables (machine k') = ptables (machine k)"
    "threads k' t = Some th \<Longrightarrow> \<exists>th0. threads k t = Some th0 \<and> resume_at th = resume_at th0 \<and> space th = space th0"
    "threads k t = Some th \<Longrightarrow> threadToBeDestroyed k \<noteq> Some t \<Longrightarrow> \<exists>th'. threads k' t = Some th'"
    "threadToBeDestroyed k' = threadToBeDestroyed k \<or> threadToBeDestroyed k' = None"
  using assms by (auto simp: kept_def)

lemma kept_threads_dom: "kept k k' \<Longrightarrow> threads k' t \<noteq> None \<Longrightarrow> threads k t \<noteq> None"
  unfolding kept_def by (metis option.exhaust option.distinct(1))

lemma kept_trans:
  assumes "kept k k1" "kept k1 k2"
  shows "kept k k2"
proof -
  have "\<exists>th0. threads k t = Some th0 \<and> resume_at th = resume_at th0 \<and> space th = space th0" if th: "threads k2 t = Some th" for t th
  proof -
    obtain th1 where "threads k1 t = Some th1" "resume_at th = resume_at th1" "space th = space th1"
      using assms(2) th unfolding kept_def by blast
    moreover from this obtain th0 where "threads k t = Some th0" "resume_at th1 = resume_at th0" "space th1 = space th0"
      using assms(1) unfolding kept_def by blast
    ultimately show ?thesis by simp
  qed
  moreover have "threads k2 t \<noteq> None" if "threads k t \<noteq> None" "threadToBeDestroyed k \<noteq> Some t" for t
  proof -
    have "threads k1 t \<noteq> None" "threadToBeDestroyed k1 \<noteq> Some t" using assms(1) that unfolding kept_def by auto
    then show ?thesis using assms(2) unfolding kept_def by blast
  qed
  ultimately show ?thesis using assms unfolding kept_def by auto
qed

lemma kept_upd_sem:
  "upd_sem s f k = Inr k' \<Longrightarrow> kept k k'"
  by (auto simp: upd_sem_eq kept_def split: if_splits)

lemma kept_upd_thread:
  assumes "upd_thread t f k = Inr k'" "\<And>th. threads k t = Some th \<Longrightarrow> resume_at (f th) = resume_at th \<and> space (f th) = space th"
  shows "kept k k'"
proof -
  obtain th where "threads k t = Some th" "k' = k\<lparr>threads := (threads k)(t \<mapsto> f th)\<rparr>" using assms(1) by (auto simp: upd_thread_eq)
  then show ?thesis using assms(2) [of th] by (simp add: kept_def)
qed

lemma SaveUserState_resume: "SaveUserState m th = Inr th' \<Longrightarrow> resume_at th' = resume_at th \<and> space th' = space th"
  using SaveUserState_iter [of "[0..<NumTotalRegs]" m th] by (auto simp: SaveUserState_def)

lemma RestoreUserState_ptables:
  "RestoreUserState th m = Inr m' \<Longrightarrow> ptables m' = ptables m"
proof -
  have "iter_res (\<lambda>i m. WriteRegister m (int i) (userRegisters th i)) is m = Inr m' \<Longrightarrow> ptables m' = ptables m" for "is" m
    by (induction "is" arbitrary: m) (auto simp: rbind_eq_Inr WriteRegister_def ASSERT_def split: if_splits)
  then show "RestoreUserState th m = Inr m' \<Longrightarrow> ptables m' = ptables m" by (simp add: RestoreUserState_def)
qed

lemma kept_Run_out: "Run_out t k = Inr k' \<Longrightarrow> kept k k'"
proof -
  assume r: "Run_out t k = Inr k'"
  let ?old = "currentThread k"
  obtain th k1 where th: "threads k ?old = Some th"
    and k1: "(case space th of None \<Rightarrow> Inr k | Some sp \<Rightarrow> rbind (SaveUserState (machine k) th) (\<lambda>th'.
        Inr (k\<lparr>threads := (threads k)(?old \<mapsto> th'), machine := SaveState sp (machine k)\<rparr>))) = Inr k1"
    and k': "setStatus t RUNNING (k1\<lparr>currentThread := t\<rparr>) = Inr k'"
    using r by (auto simp: Run_out_def Let_def rbind_eq_Inr thread_of_def split: option.splits)
  have "kept k (k1\<lparr>currentThread := t\<rparr>)"
  proof (cases "space th")
    case (Some sp)
    then obtain th' where th': "SaveUserState (machine k) th = Inr th'" "k1 = k\<lparr>threads := (threads k)(?old \<mapsto> th'), machine := SaveState sp (machine k)\<rparr>"
      using k1 by (auto simp: rbind_eq_Inr)
    then show ?thesis using SaveUserState_resume [OF th'(1)] th by (simp add: kept_def SaveState_def)
  qed (use k1 in \<open>simp add: kept_def\<close>)
  moreover have "kept (k1\<lparr>currentThread := t\<rparr>) k'" using k' unfolding setStatus_def by (rule kept_upd_thread) simp
  ultimately show ?thesis by (rule kept_trans)
qed

lemma kept_Run_in: "Run_in k = Inr k' \<Longrightarrow> kept k k'"
proof -
  assume r: "Run_in k = Inr k'"
  obtain k1 th where k1: "(case threadToBeDestroyed k of None \<Rightarrow> Inr k
            | Some t \<Rightarrow> rbind (Thread_delete t k) (\<lambda>k1. Inr (k1\<lparr>threadToBeDestroyed := None\<rparr>))) = Inr k1"
    and th: "(case space th of None \<Rightarrow> Inr k1 | Some sp \<Rightarrow> rbind (RestoreUserState th (machine k1)) (\<lambda>m. Inr (k1\<lparr>machine := RestoreState sp m\<rparr>))) = Inr k'"
    using r by (auto simp: Run_in_def rbind_eq_Inr)
  have "kept k k1" using k1 by (auto simp: kept_def Thread_delete_def rbind_eq_Inr thread_of_def split: option.splits if_splits)
  moreover have "kept k1 k'" using th by (auto simp: kept_def rbind_eq_Inr RestoreState_def RestoreUserState_ptables split: option.splits)
  ultimately show ?thesis by (rule kept_trans)
qed

lemma kept_switch:
  "run t k = Inr (k', ps) \<Longrightarrow> kept k k'"
  "P_loop s k = Inr (k', ps) \<Longrightarrow> (\<And>th. threads k (currentThread k) = Some th \<Longrightarrow> resume_at th = InP s) \<Longrightarrow> kept k k'"
  "sched k = Inr (k', ps) \<Longrightarrow> kept k k'"
proof (induction t k and s k and k arbitrary: k' ps and k' ps and k' ps rule: run_P_loop_sched.induct)
  case (1 t k)
  obtain k1 th where k1: "Run_out t k = Inr k1" "threads k1 t = Some th"
    using 1(2) by (subst (asm) run.simps) (auto simp: rbind_eq_Inr thread_of_def split: option.splits)
  have cur: "currentThread k1 = t" using k1(1) by (auto simp: Run_out_def setStatus_def upd_thread_eq rbind_eq_Inr Let_def)
  have tof: "thread_of t k1 = Inr th" using k1(2) by (simp add: thread_of_def)
  have r: "(case resume_at th of AtThreadRoot \<Rightarrow> Inr (k1, []) | InYield \<Rightarrow> rbind (Run_in k1) (\<lambda>k2. Inr (k2, []))
       | InP s \<Rightarrow> rbind (Run_in k1) (\<lambda>k2. P_loop s k2) | InFinish \<Rightarrow> Inl BadPointer) = Inr (k', ps)"
    using 1(2) k1(1) tof by (subst (asm) run.simps) simp
  have "kept k1 k'"
  proof (cases "resume_at th")
    case (InP s)
    then obtain k2 where k2: "Run_in k1 = Inr k2" "P_loop s k2 = Inr (k', ps)" using r by (auto simp: rbind_eq_Inr)
    have kk: "kept k1 k2" using kept_Run_in k2(1) .
    have "currentThread k2 = t" using k2(1) cur by (auto simp: Run_in_def Thread_delete_def rbind_eq_Inr split: option.splits)
    then have "resume_at th2 = InP s" if "threads k2 (currentThread k2) = Some th2" for th2
      using kk that k1(2) InP unfolding kept_def by fastforce
    then show ?thesis using 1(1) [OF k1(1) tof InP k2(1) k2(2)] kk kept_trans by blast
  qed (use r kept_Run_in in \<open>auto simp: rbind_eq_Inr\<close>)
  then show ?case using kept_Run_out [OF k1(1)] kept_trans by blast
next
  case (2 s k)
  then obtain sm where sm: "sem_of s k = Inr sm" by (subst (asm) P_loop.simps) (auto simp: rbind_eq_Inr)
  show ?case
  proof (cases "sem_value sm = 0")
    case True
    then obtain k1 k2 where k: "upd_sem s (\<lambda>sm. sm\<lparr>queue := queue sm @ [currentThread k]\<rparr>) k = Inr k1" "block (InP s) k1 = Inr k2" "sched k2 = Inr (k', ps)"
      using 2(2) sm by (subst (asm) P_loop.simps) (auto simp: rbind_eq_Inr)
    have "kept k k1" using kept_upd_sem [OF k(1)] .
    moreover have "threads k1 = threads k" "currentThread k1 = currentThread k" using k(1) by (auto simp: upd_sem_eq)
    then have "kept k1 k2" using 2(3) by (intro kept_upd_thread [OF k(2) [unfolded block_def]]) simp
    ultimately show ?thesis using 2(1) [OF sm True k] kept_trans by blast
  next
    case False
    then show ?thesis using 2(2) sm kept_upd_sem by (subst (asm) P_loop.simps) (auto simp: rbind_eq_Inr)
  qed
next
  case (3 k)
  show ?case
  proof (cases "readyList k")
    case Nil
    then show ?thesis using 3(2) by (auto simp: sched.simps kept_def)
  next
    case (Cons t rest)
    then have "kept (k\<lparr>readyList := rest, idling := False\<rparr>) k'" using 3 by (simp add: sched.simps)
    then show ?thesis by (simp add: kept_def)
  qed
qed

text \<open>\<open>P\<close> puts the caller to sleep there, \<open>Finish\<close> ends it; everything else is kept.\<close>

abbreviation sleep_at :: "Resume \<Rightarrow> Kernel \<Rightarrow> Kernel" where
  "sleep_at r k \<equiv> k\<lparr>threads := (threads k)(currentThread k := map_option (\<lambda>th. th\<lparr>t_status := BLOCKED, resume_at := r\<rparr>) (threads k (currentThread k)))\<rparr>"

lemma P_kept:
  assumes "P s k = Inr (k', ps)"
  shows "kept k k' \<or> kept (sleep_at (InP s) k) k'"
proof -
  obtain sm where sm: "sem_of s k = Inr sm" using assms unfolding P_def by (subst (asm) P_loop.simps) (auto simp: rbind_eq_Inr)
  show ?thesis
  proof (cases "sem_value sm = 0")
    case True
    then obtain k1 k2 where k: "upd_sem s (\<lambda>sm. sm\<lparr>queue := queue sm @ [currentThread k]\<rparr>) k = Inr k1" "block (InP s) k1 = Inr k2" "sched k2 = Inr (k', ps)"
      using assms sm unfolding P_def by (subst (asm) P_loop.simps) (auto simp: rbind_eq_Inr)
    have "kept (sleep_at (InP s) k) k2" using k(1,2) by (auto simp: kept_def upd_sem_eq block_def upd_thread_eq split: if_splits)
    then show ?thesis using kept_switch(3) [OF k(3)] kept_trans by blast
  next
    case False
    then show ?thesis using assms sm kept_upd_sem unfolding P_def by (subst (asm) P_loop.simps) (auto simp: rbind_eq_Inr)
  qed
qed

lemma Finish_kept:
  assumes "Finish k = Inr (k', ps)"
  shows "kept (sleep_at InFinish (k\<lparr>threadToBeDestroyed := Some (currentThread k)\<rparr>)) k'"
proof -
  obtain k1 where k: "block InFinish (k\<lparr>threadToBeDestroyed := Some (currentThread k)\<rparr>) = Inr k1" "sched k1 = Inr (k', ps)"
    using assms by (auto simp: Finish_def rbind_eq_Inr)
  have "kept (sleep_at InFinish (k\<lparr>threadToBeDestroyed := Some (currentThread k)\<rparr>)) k1"
    using k(1) by (auto simp: kept_def block_def upd_thread_eq)
  then show ?thesis using kept_switch(3) [OF k(2)] kept_trans by blast
qed

lemma V_kept:
  assumes "V s k = Inr k'"
  shows "kept k k'" "currentThread k' = currentThread k" "machine k' = machine k" "threadToBeDestroyed k' = threadToBeDestroyed k" "idling k' = idling k"
proof -
  obtain sm k1 where "sem_of s k = Inr sm" and k1: "(case queue sm of [] \<Rightarrow> Inr k | t # ts \<Rightarrow> rbind (upd_sem s (\<lambda>sm. sm\<lparr>queue := ts\<rparr>) k) (ReadyToRun t)) = Inr k1"
    and k': "upd_sem s (\<lambda>sm. sm\<lparr>sem_value := sem_value sm + 1\<rparr>) k1 = Inr k'"
    using assms unfolding V_def rbind_eq_Inr by blast
  have "kept k k1 \<and> currentThread k1 = currentThread k \<and> machine k1 = machine k \<and> threadToBeDestroyed k1 = threadToBeDestroyed k \<and> idling k1 = idling k"
  proof (cases "queue sm")
    case (Cons t ts)
    then obtain k2 k3 where k2: "upd_sem s (\<lambda>sm. sm\<lparr>queue := ts\<rparr>) k = Inr k2" "setStatus t READY k2 = Inr k3" "k1 = k3\<lparr>readyList := readyList k3 @ [t]\<rparr>"
      using k1 by (auto simp: rbind_eq_Inr ReadyToRun_def)
    have "kept k2 k3" using k2(2) unfolding setStatus_def by (rule kept_upd_thread) simp
    then have "kept k k3" using kept_upd_sem [OF k2(1)] kept_trans by blast
    then have "kept k k1" unfolding k2(3) by (simp add: kept_def)
    then show ?thesis using k2 by (auto simp: upd_sem_eq setStatus_def upd_thread_eq)
  qed (use k1 in simp)
  moreover have "kept k1 k'" using kept_upd_sem [OF k'] .
  ultimately show "kept k k'" "currentThread k' = currentThread k" "machine k' = machine k" "threadToBeDestroyed k' = threadToBeDestroyed k" "idling k' = idling k"
    using k' kept_trans by (auto simp: upd_sem_eq)
qed

section \<open>Well-formed process tables\<close>

definition pcbs :: "Proc \<Rightarrow> nat \<rightharpoonup> PCB" where
  "pcbs s i = (if i < length (pcb (ptab s)) then (case pcb (ptab s) ! i of CObj p \<Rightarrow> Some p | _ \<Rightarrow> None) else None)"

definition psems :: "PCB \<Rightarrow> nat set" where
  "psems p = {joinsem p, exitsem p, mutex p}"

definition children :: "(nat \<rightharpoonup> PCB) \<Rightarrow> nat \<Rightarrow> nat set" where
  "children PT i = {j. \<exists>q. PT j = Some q \<and> parentID q = int i}"

text \<open>A process runs in a thread with an address space of its own.\<close>

lemma space_ok_ptables: "ptables m' = ptables m \<Longrightarrow> space_ok sp m' fs \<longleftrightarrow> space_ok sp m fs"
  by (simp add: space_ok_def)

definition pcb_ok :: "Kernel \<Rightarrow> (nat \<rightharpoonup> PCB) \<Rightarrow> nat \<Rightarrow> PCB \<Rightarrow> bool" where
  "pcb_ok k PT i p \<longleftrightarrow>
     (\<exists>t th sp. pcb_thread p = Some t \<and> threads k t = Some th \<and> space th = Some sp \<and> (\<exists>fs. space_ok sp (machine k) fs) \<and>
        threadToBeDestroyed k \<noteq> Some t) \<and>
     psems p \<subseteq> dom (sems k) \<and>
     (parentID p = -1 \<or> (\<exists>j. parentID p = int j \<and> j \<noteq> i \<and> PT j \<noteq> None)) \<and>
     numwait p = int (card (children PT i)) \<and>
     (\<forall>t th sm. threads k t = Some th \<and> resume_at th = InP sm \<and> sm \<in> psems p \<longrightarrow> pcb_thread p = Some t)"

text \<open>Different processes have different semaphores, threads and page tables.\<close>

definition pcb_apart :: "Kernel \<Rightarrow> PCB \<Rightarrow> PCB \<Rightarrow> bool" where
  "pcb_apart k p q \<longleftrightarrow> psems p \<inter> psems q = {} \<and> pcb_thread p \<noteq> pcb_thread q \<and>
     (\<forall>t th sp t' th' sp'. pcb_thread p = Some t \<and> threads k t = Some th \<and> space th = Some sp \<and>
        pcb_thread q = Some t' \<and> threads k t' = Some th' \<and> space th' = Some sp' \<longrightarrow> as_pageTable sp \<noteq> as_pageTable sp')"

definition shape :: "BitMap \<Rightarrow> Kernel \<Rightarrow> (nat \<rightharpoonup> PCB) \<Rightarrow> bool" where
  "shape frames k PT \<longleftrightarrow> finite (dom PT) \<and> bitmap_ok frames \<and> nbits frames = NumPhysPages \<and> (\<forall>i p. PT i = Some p \<longrightarrow> pcb_ok k PT i p) \<and>
     (\<forall>i j p q. PT i = Some p \<longrightarrow> PT j = Some q \<longrightarrow> i \<noteq> j \<longrightarrow> pcb_apart k p q)"

definition proc_ok :: "Proc \<Rightarrow> bool" where
  "proc_ok s \<longleftrightarrow> kernel_ok (kern s) \<and> bitmap_ok (pt_bm (ptab s)) \<and> nbits (pt_bm (ptab s)) = MAX_PROCESS \<and>
     length (pcb (ptab s)) = MAX_PROCESS \<and> CFreed \<notin> set (pcb (ptab s)) \<and> marked (pt_bm (ptab s)) = dom (pcbs s) \<and>
     shape (gPhysPageBitMap s) (kern s) (pcbs s)"

lemma pcbs_nth: "pcbs s i = Some p \<longleftrightarrow> i < length (pcb (ptab s)) \<and> pcb (ptab s) ! i = CObj p"
  by (auto simp: pcbs_def split: cell.splits)

lemma pcb_at_pcbs: "pcbs s i = Some p \<Longrightarrow> pcb_at (int i) s = Inr p"
  by (simp add: pcbs_nth pcb_at_def)

lemma pcbs_set_cell:
  "i < length (pcb (ptab s)) \<Longrightarrow> pcbs (set_cell (int i) c s) = (pcbs s)(i := (case c of CObj p \<Rightarrow> Some p | _ \<Rightarrow> None))"
  by (auto simp: pcbs_def set_cell_def fun_eq_iff nth_list_update split: cell.splits)

lemma pcbs_simps [simp]: "pcbs (s\<lparr>kern := k\<rparr>) = pcbs s" "pcbs (s\<lparr>gPhysPageBitMap := b\<rparr>) = pcbs s"
  "pcbs (s\<lparr>ptab := (ptab s)\<lparr>pt_bm := bm\<rparr>\<rparr>) = pcbs s"
  by (auto simp: pcbs_def)

lemma pcbs_fsys [simp]: "pcbs (s\<lparr>fsys := f\<rparr>) = pcbs s"
  by (rule ext) (simp add: pcbs_def)

lemma set_cell_simps [simp]: "fsys (set_cell i c s) = fsys s" "kern (set_cell i c s) = kern s" "gPhysPageBitMap (set_cell i c s) = gPhysPageBitMap s"
  "pt_bm (ptab (set_cell i c s)) = pt_bm (ptab s)" "length (pcb (ptab (set_cell i c s))) = length (pcb (ptab s))"
  by (simp_all add: set_cell_def)

lemma find_process_eq:
  assumes "CFreed \<notin> set cs"
  shows "\<exists>r. find_process t cs i = Inr r \<and>
    (case r of None \<Rightarrow> \<forall>p. CObj p \<in> set cs \<longrightarrow> pcb_thread p \<noteq> Some t
     | Some j \<Rightarrow> i \<le> j \<and> j < i + length cs \<and> (\<exists>p. cs ! (j - i) = CObj p \<and> pcb_thread p = Some t))"
  using assms
proof (induction t cs i rule: find_process.induct)
  case (2 t cs i)
  then obtain r where "find_process t cs (Suc i) = Inr r" "case r of None \<Rightarrow> \<forall>p. CObj p \<in> set cs \<longrightarrow> pcb_thread p \<noteq> Some t
     | Some j \<Rightarrow> Suc i \<le> j \<and> j < Suc i + length cs \<and> (\<exists>p. cs ! (j - Suc i) = CObj p \<and> pcb_thread p = Some t)" by auto
  then show ?case by (cases r) (auto simp: nth_Cons' Suc_diff_le)
next
  case (4 t p cs i)
  show ?case
  proof (cases "pcb_thread p = Some t")
    case False
    then obtain r where "find_process t cs (Suc i) = Inr r" "case r of None \<Rightarrow> \<forall>p. CObj p \<in> set cs \<longrightarrow> pcb_thread p \<noteq> Some t
       | Some j \<Rightarrow> Suc i \<le> j \<and> j < Suc i + length cs \<and> (\<exists>p. cs ! (j - Suc i) = CObj p \<and> pcb_thread p = Some t)"
      using "4.IH" [OF False] "4.prems" by auto
    then show ?thesis using False by (cases r) (auto simp: nth_Cons' Suc_diff_le)
  qed simp
qed auto

lemma current_process_eq:
  assumes "proc_ok s"
  obtains "current_process s = Inr None" "\<And>i p. pcbs s i = Some p \<Longrightarrow> pcb_thread p \<noteq> Some (currentThread (kern s))"
  | i p where "current_process s = Inr (Some i)" "pcbs s i = Some p" "pcb_thread p = Some (currentThread (kern s))"
proof -
  have c: "CFreed \<notin> set (pcb (ptab s))" using assms by (simp add: proc_ok_def)
  obtain r where r: "current_process s = Inr r" "case r of None \<Rightarrow> \<forall>p. CObj p \<in> set (pcb (ptab s)) \<longrightarrow> pcb_thread p \<noteq> Some (currentThread (kern s))
     | Some j \<Rightarrow> 0 \<le> j \<and> j < 0 + length (pcb (ptab s)) \<and> (\<exists>p. pcb (ptab s) ! (j - 0) = CObj p \<and> pcb_thread p = Some (currentThread (kern s)))"
    using find_process_eq [OF c, of "currentThread (kern s)" 0] unfolding current_process_def by blast
  show ?thesis
  proof (cases r)
    case None
    then show ?thesis using that(1) r by (auto simp: pcbs_nth) (metis nth_mem)
  next
    case (Some j)
    then obtain p where "j < length (pcb (ptab s))" "pcb (ptab s) ! j = CObj p" "pcb_thread p = Some (currentThread (kern s))" using r(2) by auto
    then show ?thesis using that(2) [of j p] r(1) Some by (simp add: pcbs_nth)
  qed
qed

section \<open>Processes across context switches\<close>

lemma pcb_ok_kept:
  assumes "kept k k'" "pcb_ok k PT i p"
  shows "pcb_ok k' PT i p"
proof -
  obtain t th sp where t: "pcb_thread p = Some t" "threads k t = Some th" "space th = Some sp" "(\<exists>fs. space_ok sp (machine k) fs)"
    "threadToBeDestroyed k \<noteq> Some t" using assms(2) unfolding pcb_ok_def by blast
  note d = keptD(1,2,5) [OF assms(1)]
  obtain th' where th': "threads k' t = Some th'" using keptD(4) [OF assms(1) t(2,5)] by blast
  then have "space th' = Some sp" using keptD(3) [OF assms(1) th'] t(2,3) by auto
  then have "\<exists>t th sp. pcb_thread p = Some t \<and> threads k' t = Some th \<and> space th = Some sp \<and> (\<exists>fs. space_ok sp (machine k') fs) \<and> threadToBeDestroyed k' \<noteq> Some t"
    using t th' d space_ok_ptables [OF d(2)] by auto
  moreover have "\<forall>t th sm. threads k' t = Some th \<and> resume_at th = InP sm \<and> sm \<in> psems p \<longrightarrow> pcb_thread p = Some t"
  proof (intro allI impI)
    fix t th sm
    assume a: "threads k' t = Some th \<and> resume_at th = InP sm \<and> sm \<in> psems p"
    then obtain th0 where "threads k t = Some th0" "resume_at th0 = InP sm" using keptD(3) [OF assms(1), of t th] by auto
    then show "pcb_thread p = Some t" using assms(2) a unfolding pcb_ok_def by blast
  qed
  ultimately show ?thesis using assms(2) d(1) unfolding pcb_ok_def by blast
qed

lemma pcb_apart_spaces:
  assumes "\<And>t th. threads k' t = Some th \<Longrightarrow> \<exists>th0. threads k t = Some th0 \<and> space th = space th0" "pcb_apart k p q"
  shows "pcb_apart k' p q"
  unfolding pcb_apart_def
proof (intro conjI allI impI)
  fix t th sp t' th' sp'
  assume a: "pcb_thread p = Some t \<and> threads k' t = Some th \<and> space th = Some sp \<and>
        pcb_thread q = Some t' \<and> threads k' t' = Some th' \<and> space th' = Some sp'"
  obtain u u' where "threads k t = Some u" "space u = Some sp" "threads k t' = Some u'" "space u' = Some sp'"
    using assms(1) [of t th] assms(1) [of t' th'] a by auto
  then show "as_pageTable sp \<noteq> as_pageTable sp'" using assms(2) a unfolding pcb_apart_def by blast
qed (use assms(2) in \<open>simp_all add: pcb_apart_def\<close>)

lemma pcb_apart_kept: "kept k k' \<Longrightarrow> pcb_apart k p q \<Longrightarrow> pcb_apart k' p q"
  by (rule pcb_apart_spaces) (auto dest: keptD(3))

lemma shape_kept: "kept k k' \<Longrightarrow> shape frames k PT \<Longrightarrow> shape frames k' PT"
  unfolding shape_def using pcb_ok_kept pcb_apart_kept by blast

text \<open>The running thread sleeps in a semaphore of its own process, or in one of no process.\<close>

lemma shape_sleep:
  assumes sh: "shape frames k PT" and own: "\<And>j q. PT j = Some q \<Longrightarrow> sm \<in> psems q \<Longrightarrow> pcb_thread q = Some (currentThread k)"
  shows "shape frames (sleep_at (InP sm) k) PT"
proof -
  let ?k = "sleep_at (InP sm) k"
  have th: "\<exists>th0. threads k t = Some th0 \<and> space th = space th0 \<and> (resume_at th = resume_at th0 \<or> t = currentThread k \<and> resume_at th = InP sm)"
    if "threads ?k t = Some th" for t th using that by (auto split: if_splits)
  have th': "\<exists>th. threads ?k t = Some th \<and> space th = space th0" if "threads k t = Some th0" for t th0 using that by auto
  have ok: "pcb_ok ?k PT j q" if q: "PT j = Some q" for j q
  proof -
    have ok: "pcb_ok k PT j q" using sh q unfolding shape_def by blast
    obtain t th0 sp where t: "pcb_thread q = Some t" "threads k t = Some th0" "space th0 = Some sp" "(\<exists>fs. space_ok sp (machine k) fs)" "threadToBeDestroyed k \<noteq> Some t"
      using ok unfolding pcb_ok_def by blast
    obtain th1 where "threads ?k t = Some th1" "space th1 = Some sp" using th' [OF t(2)] t(3) by auto
    then have "\<exists>t th sp. pcb_thread q = Some t \<and> threads ?k t = Some th \<and> space th = Some sp \<and> (\<exists>fs. space_ok sp (machine ?k) fs) \<and> threadToBeDestroyed ?k \<noteq> Some t"
      using t by auto
    moreover have "pcb_thread q = Some t" if a: "threads ?k t = Some th" "resume_at th = InP sm'" "sm' \<in> psems q" for t th sm'
    proof -
      obtain th0 where th0: "threads k t = Some th0" "resume_at th = resume_at th0 \<or> t = currentThread k \<and> sm' = sm" using th [OF a(1)] a(2) by auto
      show ?thesis
      proof (cases "resume_at th = resume_at th0")
        case True
        then show ?thesis using ok th0(1) a(2,3) unfolding pcb_ok_def by metis
      next
        case False
        then have "sm \<in> psems q" "t = currentThread k" using th0(2) a(3) by auto
        then show ?thesis using own [OF q] by simp
      qed
    qed
    ultimately show ?thesis using ok unfolding pcb_ok_def by auto
  qed
  have "pcb_apart ?k q r" if "PT j = Some q" "PT l = Some r" "j \<noteq> l" for j l q r
  proof -
    have "pcb_apart k q r" using sh that unfolding shape_def by blast
    then show ?thesis by (rule pcb_apart_spaces [rotated]) (blast dest: th)
  qed
  then show ?thesis using sh ok unfolding shape_def by blast
qed

lemma P_shape:
  assumes "shape frames k PT" "\<And>j q. PT j = Some q \<Longrightarrow> sm \<in> psems q \<Longrightarrow> pcb_thread q = Some (currentThread k)" "P sm k = Inr (k', ps)"
  shows "shape frames k' PT"
proof -
  have "shape frames (sleep_at (InP sm) k) PT" by (rule shape_sleep [OF assms(1)]) (rule assms(2))
  then show ?thesis using P_kept [OF assms(3)] shape_kept [OF _ assms(1)] shape_kept by blast
qed

lemma P_own_shape:
  assumes sh: "shape frames k PT" and p: "PT i = Some p" "pcb_thread p = Some (currentThread k)" "sm \<in> psems p" "P sm k = Inr (k', ps)"
  shows "shape frames k' PT"
proof (rule P_shape [OF sh _ p(4)])
  fix j q
  assume q: "PT j = Some q" "sm \<in> psems q"
  then have "j = i" using sh p(1,3) unfolding shape_def pcb_apart_def by blast
  then show "pcb_thread q = Some (currentThread k)" using q p by simp
qed

section \<open>Steps that stay with the running thread\<close>

lemma P_lands: "kernel_ok k \<Longrightarrow> \<not> idling k \<Longrightarrow> sems k sm \<noteq> None \<Longrightarrow> \<exists>k' ps. P sm k = Inr (k', ps) \<and> kernel_ok k'"
  using act_ok [of k "AP sm"] by (simp add: lands_def)

lemma V_lands: "kernel_ok k \<Longrightarrow> sems k sm \<noteq> None \<Longrightarrow> \<exists>k'. V sm k = Inr k' \<and> kernel_ok k'"
  using act_ok [of k "AHandlerV sm"] by (auto simp: lands_def rbind_eq_Inr)

definition quiet :: "Kernel \<Rightarrow> Kernel \<Rightarrow> bool" where
  "quiet k k' \<longleftrightarrow> kept k k' \<and> kernel_ok k' \<and> currentThread k' = currentThread k \<and> machine k' = machine k \<and>
     threadToBeDestroyed k' = threadToBeDestroyed k \<and> idling k' = idling k"

lemma quiet_refl: "kernel_ok k \<Longrightarrow> quiet k k"
  by (simp add: quiet_def)

lemma quiet_trans: "quiet k k1 \<Longrightarrow> quiet k1 k2 \<Longrightarrow> quiet k k2"
  unfolding quiet_def using kept_trans by auto

lemma V_is_quiet: "kernel_ok k \<Longrightarrow> sems k sm \<noteq> None \<Longrightarrow> \<exists>k'. V sm k = Inr k' \<and> quiet k k'"
  using V_lands [of k sm] V_kept [of sm k] unfolding quiet_def by blast

lemma quiet_sems: "quiet k k' \<Longrightarrow> sems k' sm \<noteq> None \<longleftrightarrow> sems k sm \<noteq> None"
  unfolding quiet_def kept_def by (metis domIff)

lemma switch_passes:
  "run t k = Inr (k', ps) \<Longrightarrow> fst ` set ps \<subseteq> insert t (set (readyList k))"
  "P_loop s k = Inr (k', ps) \<Longrightarrow> fst ` set ps \<subseteq> insert (currentThread k) (set (readyList k))"
  "sched k = Inr (k', ps) \<Longrightarrow> fst ` set ps \<subseteq> set (readyList k)"
proof (induction t k and s k and k arbitrary: k' ps and k' ps and k' ps rule: run_P_loop_sched.induct)
  case (1 t k)
  obtain k1 th where k1: "Run_out t k = Inr k1" "thread_of t k1 = Inr th"
    and r: "(case resume_at th of AtThreadRoot \<Rightarrow> Inr (k1, []) | InYield \<Rightarrow> rbind (Run_in k1) (\<lambda>k2. Inr (k2, []))
       | InP s \<Rightarrow> rbind (Run_in k1) (\<lambda>k2. P_loop s k2) | InFinish \<Rightarrow> Inl BadPointer) = Inr (k', ps)"
    using 1(2) unfolding run.simps [of t k] rbind_eq_Inr by blast
  have cur: "currentThread k1 = t" using k1(1) by (auto simp: Run_out_def setStatus_def upd_thread_eq rbind_eq_Inr Let_def)
  show ?case
  proof (cases "resume_at th")
    case (InP s)
    then obtain k2 where k2: "Run_in k1 = Inr k2" "P_loop s k2 = Inr (k', ps)" using r by (auto simp: rbind_eq_Inr)
    have "currentThread k2 = t" using k2(1) cur by (auto simp: Run_in_def Thread_delete_def rbind_eq_Inr split: option.splits)
    then show ?thesis using 1(1) [OF k1 InP k2] Run_in_readyList [OF k2(1)] Run_out_readyList [OF k1(1)] by simp
  qed (use r in \<open>auto simp: rbind_eq_Inr\<close>)
next
  case (2 s k)
  then obtain sm where sm: "sem_of s k = Inr sm" unfolding P_loop.simps [of s k] rbind_eq_Inr by blast
  show ?case
  proof (cases "sem_value sm = 0")
    case True
    then obtain k1 k2 where k: "upd_sem s (\<lambda>sm. sm\<lparr>queue := queue sm @ [currentThread k]\<rparr>) k = Inr k1" "block (InP s) k1 = Inr k2" "sched k2 = Inr (k', ps)"
      using 2(2) sm unfolding P_loop.simps [of s k] by (auto simp: rbind_eq_Inr)
    have "readyList k2 = readyList k" using k(1,2) by (auto simp: upd_sem_eq block_def upd_thread_eq)
    then show ?thesis using 2(1) [OF sm True k] by auto
  next
    case False
    then show ?thesis using 2(2) sm unfolding P_loop.simps [of s k] by (auto simp: rbind_eq_Inr)
  qed
next
  case (3 k)
  then show ?case unfolding sched.simps [of k] by (cases "readyList k") auto
qed

lemma P_blocks:
  assumes "kernel_ok k" "\<not> idling k" "sems k sm = Some x" "sem_value x = 0" "P sm k = Inr (k', ps)"
  shows "currentThread k \<notin> fst ` set ps"
proof -
  have so: "sem_of sm k = Inr x" using assms(3) by (simp add: sem_of_def)
  then obtain k1 k2 where k: "upd_sem sm (\<lambda>sm. sm\<lparr>queue := queue sm @ [currentThread k]\<rparr>) k = Inr k1" "block (InP sm) k1 = Inr k2" "sched k2 = Inr (k', ps)"
    using assms(4,5) unfolding P_def P_loop.simps [of sm k] by (auto simp: rbind_eq_Inr)
  have "readyList k2 = readyList k" using k(1,2) by (auto simp: upd_sem_eq block_def upd_thread_eq)
  then show ?thesis using switch_passes(3) [OF k(3)] running_loose [OF assms(1,2)] by (auto simp: loose_def)
qed

lemma P_passes:
  assumes "kernel_ok k" "\<not> idling k" "sems k sm \<noteq> None" "P sm k = Inr (k', ps)" "currentThread k \<in> fst ` set ps"
  shows "quiet k k'"
proof -
  obtain x where x: "sems k sm = Some x" using assms(3) by blast
  have v: "sem_value x \<noteq> 0" using P_blocks [OF assms(1,2) x _ assms(4)] assms(5) by blast
  have u: "upd_sem sm (\<lambda>x. x\<lparr>sem_value := sem_value x - 1\<rparr>) k = Inr k'"
    using assms(4) x v unfolding P_def P_loop.simps [of sm k] by (auto simp: sem_of_def rbind_eq_Inr)
  moreover have "kernel_ok k'" using P_lands [OF assms(1-3)] assms(4) by auto
  ultimately show ?thesis using kept_upd_sem [OF u] by (auto simp: quiet_def upd_sem_eq)
qed

section \<open>Joining\<close>

lemma shape_upd:
  assumes sh: "shape frames k PT" "PT i = Some p" and p': "pcb_thread p' = pcb_thread p" "psems p' = psems p" "parentID p' = parentID p" "numwait p' = numwait p"
  shows "shape frames k (PT(i \<mapsto> p'))"
proof -
  let ?P = "PT(i \<mapsto> p')"
  have old: "\<exists>q0. PT j = Some q0 \<and> pcb_thread q = pcb_thread q0 \<and> psems q = psems q0 \<and> parentID q = parentID q0 \<and> numwait q = numwait q0"
    if "?P j = Some q" for j q using that sh(2) p' by (auto split: if_splits)
  have "\<exists>q. ?P j = Some q \<and> parentID q = parentID q0" if "PT j = Some q0" for j q0 using that sh(2) p'(3) by auto
  then have ch: "children ?P j = children PT j" for j unfolding children_def using old by fastforce
  have "pcb_ok k ?P j q" if q: "?P j = Some q" for j q
  proof -
    obtain q0 where q0: "PT j = Some q0" "pcb_thread q = pcb_thread q0" "psems q = psems q0" "parentID q = parentID q0" "numwait q = numwait q0" using old [OF q] by blast
    have "pcb_ok k PT j q0" using sh(1) q0(1) unfolding shape_def by blast
    moreover have e: "?P l = None \<longleftrightarrow> PT l = None" for l using sh(2) by auto
    ultimately show ?thesis unfolding pcb_ok_def q0(2-5) ch e by blast
  qed
  moreover have "pcb_apart k q r" if qr: "?P j = Some q" "?P l = Some r" "j \<noteq> l" for j l q r
  proof -
    obtain q0 r0 where q0: "PT j = Some q0" "pcb_thread q = pcb_thread q0" "psems q = psems q0" "PT l = Some r0" "pcb_thread r = pcb_thread r0" "psems r = psems r0"
      using old [OF qr(1)] old [OF qr(2)] by blast
    then have "pcb_apart k q0 r0" using sh(1) qr(3) unfolding shape_def by blast
    then show ?thesis unfolding pcb_apart_def q0(2,3,5,6) .
  qed
  moreover have "finite (dom ?P)" using sh(1) by (simp add: shape_def)
  ultimately show ?thesis using sh(1) unfolding shape_def by blast
qed

lemma proc_ok_pcbs:
  assumes "proc_ok s" "pcbs s i = Some p"
  shows "i < MAX_PROCESS" "pcb_ok (kern s) (pcbs s) i p" "pcb_at (int i) s = Inr p"
proof -
  show "i < MAX_PROCESS" using assms by (auto simp: pcbs_nth proc_ok_def)
  show "pcb_ok (kern s) (pcbs s) i p" using assms unfolding proc_ok_def shape_def by blast
  show "pcb_at (int i) s = Inr p" using pcb_at_pcbs [OF assms(2)] .
qed

lemma Test_pcbs: "proc_ok s \<Longrightarrow> j < MAX_PROCESS \<Longrightarrow> BitMap_Test (pt_bm (ptab s)) (int j) = Inr (pcbs s j \<noteq> None)"
  using test_marked [of j "pt_bm (ptab s)"] by (auto simp: proc_ok_def dom_def)

lemma proc_ok_set_cell:
  assumes "proc_ok s" "pcbs s i = Some p" "shape (gPhysPageBitMap s) (kern s) ((pcbs s)(i \<mapsto> p'))"
  shows "proc_ok (set_cell (int i) (CObj p') s)"
proof -
  let ?s = "set_cell (int i) (CObj p') s"
  have i: "i < length (pcb (ptab s))" using assms(2) by (simp add: pcbs_nth)
  have "pcbs ?s = (pcbs s)(i \<mapsto> p')" using pcbs_set_cell [OF i, of "CObj p'"] by simp
  moreover have "CFreed \<notin> set (pcb (ptab ?s))"
    using assms(1) set_update_subset_insert [of "pcb (ptab s)" i "CObj p'"] by (auto simp: proc_ok_def set_cell_def)
  moreover have "dom ((pcbs s)(i \<mapsto> p')) = dom (pcbs s)" using assms(2) by auto
  ultimately show ?thesis using assms(1,3) unfolding proc_ok_def by simp
qed

lemma proc_ok_kern:
  "proc_ok s \<Longrightarrow> kernel_ok k \<Longrightarrow> shape (gPhysPageBitMap s) k (pcbs s) \<Longrightarrow> proc_ok (s\<lparr>kern := k\<rparr>)"
  by (simp add: proc_ok_def)

text \<open>The running process waits in a semaphore of its own and goes on with \<open>f\<close>.\<close>

lemma P_then_own:
  assumes ok: "proc_ok s" "\<not> idling (kern s)" and p: "pcbs s i = Some p" "pcb_thread p = Some (currentThread (kern s))" "sm \<in> psems p"
  shows "\<exists>k. proc_ok (s\<lparr>kern := k\<rparr>) \<and> (P_then sm f s = Inr (Sleeps, s\<lparr>kern := k\<rparr>) \<or> quiet (kern s) k \<and> P_then sm f s = f (s\<lparr>kern := k\<rparr>))"
proof -
  have k: "kernel_ok (kern s)" and sh: "shape (gPhysPageBitMap s) (kern s) (pcbs s)" using ok(1) by (auto simp: proc_ok_def)
  have sm: "sems (kern s) sm \<noteq> None" using proc_ok_pcbs(2) [OF ok(1) p(1)] p(3) unfolding pcb_ok_def by blast
  then obtain k' ps where k': "P sm (kern s) = Inr (k', ps)" "kernel_ok k'" using P_lands [OF k ok(2)] by blast
  have "proc_ok (s\<lparr>kern := k'\<rparr>)" by (rule proc_ok_kern [OF ok(1) k'(2) P_own_shape [OF sh p k'(1)]])
  then show ?thesis using k'(1) P_passes [OF k ok(2) sm k'(1)]
    by (cases "currentThread (kern s) \<in> fst ` set ps") (auto simp: P_then_def)
qed

text \<open>\<open>JoinUpdate\<close> on the identifier of a child, and on anything else.\<close>

lemma Join_child:
  assumes ok: "proc_ok s" "\<not> idling (kern s)" and p: "current_process s = Inr (Some i)" "pcbs s i = Some p" "pcb_thread p = Some (currentThread (kern s))"
    and c: "pcbs s j = Some c" "parentID c = int i" "joinID p = -1"
  shows "\<exists>r s'. JoinUpdate (int j) s = Inr (r, s') \<and> proc_ok s' \<and> pcbs s' = (pcbs s)(i \<mapsto> p\<lparr>joinID := int j\<rparr>) \<and>
    fsys s' = fsys s \<and> (r = Sleeps \<or> r = Returns (joinExitcode p) \<and> quiet (kern s) (kern s'))"
proof -
  let ?p = "p\<lparr>joinID := int j\<rparr>" let ?s = "set_cell (int i) (CObj ?p) s"
  have i: "i < length (pcb (ptab s))" using p(2) by (simp add: pcbs_nth)
  have e: "pcbs ?s = (pcbs s)(i \<mapsto> ?p)" using pcbs_set_cell [OF i, of "CObj ?p"] by simp
  have "shape (gPhysPageBitMap s) (kern s) ((pcbs s)(i \<mapsto> ?p))" using ok(1) p(2) by (intro shape_upd) (simp_all add: proc_ok_def psems_def)
  then have s: "proc_ok ?s" by (rule proc_ok_set_cell [OF ok(1) p(2)])
  have "JoinUpdate (int j) s = P_then (joinsem p) (JoinUpdate_rest i) ?s"
    using proc_ok_pcbs [OF ok(1) c(1)] proc_ok_pcbs(3) [OF ok(1) p(2)] Test_pcbs [OF ok(1), of j] p(1) c
    by (simp add: JoinUpdate_def JoinWait_def)
  moreover have "pcbs ?s i = Some ?p" "pcb_thread ?p = Some (currentThread (kern ?s))" "joinsem p \<in> psems ?p" "\<not> idling (kern ?s)"
    using e p(3) ok(2) by (simp_all add: psems_def)
  then obtain k where k: "proc_ok (?s\<lparr>kern := k\<rparr>)" "P_then (joinsem p) (JoinUpdate_rest i) ?s = Inr (Sleeps, ?s\<lparr>kern := k\<rparr>) \<or>
      quiet (kern ?s) k \<and> P_then (joinsem p) (JoinUpdate_rest i) ?s = JoinUpdate_rest i (?s\<lparr>kern := k\<rparr>)"
    using P_then_own [OF s] by blast
  moreover have "JoinUpdate_rest i (?s\<lparr>kern := k\<rparr>) = Inr (Returns (joinExitcode p), ?s\<lparr>kern := k\<rparr>)"
    using pcb_at_pcbs [of "?s\<lparr>kern := k\<rparr>" i ?p] e by (simp add: JoinUpdate_rest_def)
  ultimately show ?thesis using e by (auto intro: exI [of _ "?s\<lparr>kern := k\<rparr>"])
qed

lemma Join_other:
  assumes ok: "proc_ok s" and no: "\<And>i p c j. current_process s = Inr (Some i) \<Longrightarrow> jid = int j \<Longrightarrow> pcbs s j = Some c \<Longrightarrow> parentID c \<noteq> int i"
  shows "JoinUpdate jid s = Inr (Returns (-1), s)"
proof (cases "jid < 0 \<or> int MAX_PROCESS \<le> jid")
  case False
  then obtain j where j: "jid = int j" "j < MAX_PROCESS" by (metis nonneg_int_cases not_le of_nat_less_iff)
  show ?thesis
  proof (cases "pcbs s j")
    case None
    then show ?thesis using j Test_pcbs [OF ok j(2)] by (simp add: JoinUpdate_def)
  next
    case (Some c)
    show ?thesis
      by (rule current_process_eq [OF ok])
        (use j Some Test_pcbs [OF ok j(2)] pcb_at_pcbs [OF Some] no in \<open>auto simp: JoinUpdate_def\<close>)
  qed
qed (auto simp: JoinUpdate_def)

section \<open>Exiting\<close>

lemma kernel_ok_machine [simp]: "kernel_ok (k\<lparr>machine := m\<rparr>) = kernel_ok k"
proof -
  have "ready_thread (k\<lparr>machine := m\<rparr>) = ready_thread k" "sem_ok (k\<lparr>machine := m\<rparr>) = sem_ok k" "woken (k\<lparr>machine := m\<rparr>) = woken k"
    by (simp_all add: fun_eq_iff ready_thread_def sem_ok_def waiting_thread_def woken_def)
  then show ?thesis by (simp add: kernel_ok_def core_ok_def wake_ok_def current_status_def)
qed

lemma kernel_ok_del_sems:
  assumes k: "kernel_ok k" "\<not> idling k" and only: "\<And>t th sm. threads k t = Some th \<Longrightarrow> resume_at th = InP sm \<Longrightarrow> sm \<in> S \<Longrightarrow> t = currentThread k"
  shows "kernel_ok (k\<lparr>sems := sems k |` (- S)\<rparr>)"
proof -
  let ?k = "k\<lparr>sems := sems k |` (- S)\<rparr>"
  have c: "core_ok (readyList k) k" "wake_ok (readyList k) k" "current_status k = Some RUNNING" using k by (auto simp: kernel_ok_def)
  have "ready_thread ?k t" if t: "t \<in> set (readyList k)" for t
  proof -
    obtain th where th: "threads k t = Some th" "t_status th = READY" "resume_at th \<noteq> InFinish" "\<And>s. resume_at th = InP s \<Longrightarrow> sems k s \<noteq> None"
      using c(1) t unfolding core_ok_def ready_thread_def by blast
    have "t \<noteq> currentThread k" using th(1,2) c(3) by (auto simp: current_status_def)
    then have "s \<notin> S" if "resume_at th = InP s" for s using only [OF th(1) that] by blast
    then show ?thesis using th by (auto simp: ready_thread_def restrict_map_def)
  qed
  moreover have "sem_ok ?k s sm \<and> sems k s = Some sm" if "sems ?k s = Some sm" for s sm
    using that c(1) by (auto simp: core_ok_def sem_ok_def waiting_thread_def restrict_map_def split: if_splits)
  moreover have "woken ?k = woken k" by (auto simp: woken_def fun_eq_iff)
  ultimately show ?thesis using c k(2)
    unfolding kernel_ok_def core_ok_def wake_ok_def current_status_def by simp
qed

lemma PCB_delete_restrict: "PCB_delete p k = k\<lparr>sems := sems k |` (- psems p)\<rparr>"
  by (auto simp: PCB_delete_def psems_def restrict_map_def fun_eq_iff intro!: Kernel.equality)

lemma AddrSpace_delete_ok:
  assumes "bitmap_ok frames" "nbits frames = NumPhysPages" "space_ok sp m fs"
  shows "\<exists>bm m'. AddrSpace_delete sp frames m = Inr (bm, m') \<and> bitmap_ok bm \<and> nbits bm = NumPhysPages \<and> marked bm = marked frames - set fs \<and>
     ptables m' = (ptables m)(as_pageTable sp := None)"
proof -
  obtain es where es: "ptables m (as_pageTable sp) = Some es" "length es = numPages sp" "frames_of es = fs"
    "set fs \<subseteq> {..<NumPhysPages}" using assms(3) by (auto simp: space_ok_def)
  from clear_entries [OF assms(1,2) es(4,3)] es(1,2) assms(2) show ?thesis by (auto simp: AddrSpace_delete_def)
qed

text \<open>The table and the kernel after the process \<open>c\<close>, a child of \<open>a\<close>, is gone.\<close>

lemma shape_exit:
  assumes sh: "shape frames k PT" and c: "PT c = Some pc" "pcb_thread pc = Some (currentThread k)" "parentID pc = int a" "children PT c = {}"
    and a: "PT a = Some pa" "a \<noteq> c"
    and pa': "pcb_thread pa' = pcb_thread pa" "psems pa' = psems pa" "parentID pa' = parentID pa" "numwait pa' = numwait pa - 1"
    and th: "threads k (currentThread k) = Some th" "space th = Some sp"
    and frames': "bitmap_ok frames'" "nbits frames' = NumPhysPages"
    and k': "sems k' = sems k |` (- psems pc)" "ptables (machine k') = (ptables (machine k))(as_pageTable sp := None)"
      "threads k' = (threads k)(currentThread k \<mapsto> th\<lparr>t_status := BLOCKED, resume_at := InFinish\<rparr>)" "threadToBeDestroyed k' = Some (currentThread k)"
  shows "shape frames' k' (PT(c := None, a \<mapsto> pa'))"
proof -
  let ?P = "PT(c := None, a \<mapsto> pa')"
  have old: "\<exists>q0. PT j = Some q0 \<and> j \<noteq> c \<and> pcb_thread q = pcb_thread q0 \<and> psems q = psems q0 \<and> parentID q = parentID q0 \<and> numwait q = (if j = a then numwait q0 - 1 else numwait q0)"
    if "?P j = Some q" for j q using that a pa' by (auto split: if_splits)
  have chl: "children ?P j = children PT j - {c}" for j
    using a pa'(3) by (auto simp: children_def split: if_splits)
  have fin: "finite (children PT j)" for j
  proof (rule finite_subset)
    show "children PT j \<subseteq> dom PT" by (auto simp: children_def)
    show "finite (dom PT)" using sh by (simp add: shape_def)
  qed
  have "pcb_ok k' ?P j q" if q: "?P j = Some q" for j q
  proof -
    obtain q0 where q0: "PT j = Some q0" "j \<noteq> c" "pcb_thread q = pcb_thread q0" "psems q = psems q0" "parentID q = parentID q0"
      "numwait q = (if j = a then numwait q0 - 1 else numwait q0)" using old [OF q] by blast
    have ok: "pcb_ok k PT j q0" using sh q0(1) unfolding shape_def by blast
    have ap: "pcb_apart k q0 pc" using sh q0(1,2) c(1) unfolding shape_def by blast
    obtain t u su fs where t: "pcb_thread q0 = Some t" "threads k t = Some u" "space u = Some su" "space_ok su (machine k) fs"
      using ok unfolding pcb_ok_def by blast
    have cur: "t \<noteq> currentThread k" using ap t(1) c(2) unfolding pcb_apart_def by auto
    have tab: "as_pageTable su \<noteq> as_pageTable sp" using ap t(1-3) c(2) th unfolding pcb_apart_def by blast
    then have "space_ok su (machine k') fs" using t(4) k'(2) by (simp add: space_ok_def)
    then have "\<exists>t th sp. pcb_thread q = Some t \<and> threads k' t = Some th \<and> space th = Some sp \<and> (\<exists>fs. space_ok sp (machine k') fs) \<and> threadToBeDestroyed k' \<noteq> Some t"
      using t cur k'(3,4) unfolding q0(3) by (intro exI [of _ t] exI [of _ u] exI [of _ su]) auto
    moreover have "psems q \<subseteq> dom (sems k')" using ok ap unfolding q0(4) k'(1) pcb_ok_def pcb_apart_def by auto
    moreover have "parentID q = -1 \<or> (\<exists>l. parentID q = int l \<and> l \<noteq> j \<and> ?P l \<noteq> None)"
    proof -
      have "parentID q0 \<noteq> int c" using c(4) q0(1) by (auto simp: children_def)
      then show ?thesis using ok unfolding q0(5) pcb_ok_def by auto
    qed
    moreover have "numwait q = int (card (children ?P j))"
    proof (cases "j = a")
      case True
      have "c \<in> children PT a" using c(1,3) by (simp add: children_def)
      then have "card (children PT a) = Suc (card (children PT a - {c}))" using card.remove [OF fin] by blast
      then show ?thesis using ok True unfolding q0(6) chl pcb_ok_def by simp
    next
      case False
      then have "c \<notin> children PT j" using c(1,3) by (auto simp: children_def)
      then show ?thesis using ok False unfolding q0(6) chl pcb_ok_def by simp
    qed
    moreover have "\<forall>t th sm. threads k' t = Some th \<and> resume_at th = InP sm \<and> sm \<in> psems q \<longrightarrow> pcb_thread q = Some t"
    proof (intro allI impI)
      fix t' u' sm
      assume u: "threads k' t' = Some u' \<and> resume_at u' = InP sm \<and> sm \<in> psems q"
      then have "threads k t' = Some u'" using k'(3) by (cases "t' = currentThread k") auto
      then show "pcb_thread q = Some t'" using ok u unfolding q0(3,4) pcb_ok_def by blast
    qed
    ultimately show ?thesis unfolding pcb_ok_def by blast
  qed
  moreover have "pcb_apart k' q r" if qr: "?P j = Some q" "?P l = Some r" "j \<noteq> l" for j l q r
  proof -
    obtain q0 r0 where q0: "PT j = Some q0" "pcb_thread q = pcb_thread q0" "psems q = psems q0" "PT l = Some r0" "pcb_thread r = pcb_thread r0" "psems r = psems r0"
      using old [OF qr(1)] old [OF qr(2)] by blast
    have "pcb_apart k q0 r0" using sh q0(1,4) qr(3) unfolding shape_def by blast
    then have "pcb_apart k' q0 r0" by (rule pcb_apart_spaces [rotated]) (use k'(3) th in \<open>auto split: if_splits\<close>)
    then show ?thesis unfolding pcb_apart_def q0(2,3,5,6) .
  qed
  ultimately show ?thesis using sh frames' unfolding shape_def by auto
qed

section \<open>The end of a process\<close>

lemma set_cell_same: "pcbs s i = Some p \<Longrightarrow> set_cell (int i) (CObj p) s = s"
  by (auto simp: set_cell_def pcbs_nth list_update_same_conv)

lemma set_cell_twice [simp]: "set_cell i c (set_cell i c' s) = set_cell i c s"
  by (simp add: set_cell_def)

lemma set_cell_kern [simp]: "set_cell i c (s\<lparr>kern := k\<rparr>) = (set_cell i c s)\<lparr>kern := k\<rparr>"
  by (simp add: set_cell_def)

text \<open>What happens to the parent: its waiting join is completed, and it has one child fewer.\<close>

definition released :: "nat \<Rightarrow> int \<Rightarrow> PCB \<Rightarrow> PCB" where
  "released c ec p = (if joinID p = int c then p\<lparr>joinID := -1, joinExitcode := ec\<rparr> else p)"

definition child_gone :: "nat \<Rightarrow> int \<Rightarrow> PCB \<Rightarrow> PCB" where
  "child_gone c ec p = (released c ec p)\<lparr>numwait := numwait p - 1\<rparr>"

lemma released_sel [simp]: "pcb_thread (released c ec p) = pcb_thread p" "psems (released c ec p) = psems p" "parentID (released c ec p) = parentID p"
  "numwait (released c ec p) = numwait p" "joinsem (released c ec p) = joinsem p" "exitsem (released c ec p) = exitsem p" "isExit (released c ec p) = isExit p"
  by (simp_all add: released_def psems_def)

lemma child_gone_sel [simp]: "pcb_thread (child_gone c ec p) = pcb_thread p" "psems (child_gone c ec p) = psems p" "parentID (child_gone c ec p) = parentID p"
  "numwait (child_gone c ec p) = numwait p - 1" "exitsem (child_gone c ec p) = exitsem p" "isExit (child_gone c ec p) = isExit p"
  using released_sel [of c ec p] by (simp_all add: child_gone_def psems_def)

lemma release_parent:
  assumes ok: "proc_ok s" and a: "pcbs s a = Some pa"
  shows "\<exists>k'. quiet (kern s) k' \<and> rbind (JoinRelease (int a) (int c) ec s) (\<lambda>s1. rbind (DecNumWait (int a) s1) (ExitRelease (int a))) =
     Inr ((set_cell (int a) (CObj (child_gone c ec pa)) s)\<lparr>kern := k'\<rparr>)"
proof -
  have k: "kernel_ok (kern s)" using ok by (simp add: proc_ok_def)
  have sm: "sems (kern s) (joinsem pa) \<noteq> None" "sems (kern s) (exitsem pa) \<noteq> None"
    using proc_ok_pcbs(2) [OF ok a] unfolding pcb_ok_def psems_def by auto
  have la: "a < length (pcb (ptab s))" using a by (simp add: pcbs_nth)
  obtain k1 where k1: "quiet (kern s) k1" "JoinRelease (int a) (int c) ec s = Inr ((set_cell (int a) (CObj (released c ec pa)) s)\<lparr>kern := k1\<rparr>)"
  proof (cases "joinID pa = int c")
    case True
    obtain k1 where "V (joinsem pa) (kern s) = Inr k1" "quiet (kern s) k1" using V_is_quiet [OF k sm(1)] by blast
    then show ?thesis using that [of k1] True pcb_at_pcbs [OF a] by (simp add: JoinRelease_def V_on_def released_def)
  next
    case False
    then show ?thesis using that [OF quiet_refl [OF k]] pcb_at_pcbs [OF a] set_cell_same [OF a] by (simp add: JoinRelease_def released_def)
  qed
  let ?s2 = "(set_cell (int a) (CObj (child_gone c ec pa)) s)\<lparr>kern := k1\<rparr>"
  have "pcb_at (int a) ((set_cell (int a) (CObj (released c ec pa)) s)\<lparr>kern := k1\<rparr>) = Inr (released c ec pa)"
    using pcbs_set_cell [OF la, of "CObj (released c ec pa)"] by (intro pcb_at_pcbs) simp
  then have d: "DecNumWait (int a) ((set_cell (int a) (CObj (released c ec pa)) s)\<lparr>kern := k1\<rparr>) = Inr ?s2"
    by (simp add: DecNumWait_def upd_pcb_def child_gone_def)
  have at: "pcb_at (int a) ?s2 = Inr (child_gone c ec pa)"
    using pcbs_set_cell [OF la, of "CObj (child_gone c ec pa)"] by (intro pcb_at_pcbs) simp
  have "\<exists>k'. quiet k1 k' \<and> ExitRelease (int a) ?s2 = Inr ((set_cell (int a) (CObj (child_gone c ec pa)) s)\<lparr>kern := k'\<rparr>)"
  proof (cases "numwait pa - 1 = 0 \<and> isExit pa = 1")
    case True
    have "kernel_ok k1" "sems k1 (exitsem pa) \<noteq> None" using k1(1) quiet_sems [OF k1(1)] sm(2) by (auto simp: quiet_def)
    then obtain k' where "V (exitsem pa) k1 = Inr k'" "quiet k1 k'" using V_is_quiet by blast
    then show ?thesis using True at by (auto simp: ExitRelease_def V_on_def)
  next
    case False
    have "quiet k1 k1" using k1(1) by (simp add: quiet_def)
    then show ?thesis using False at by (intro exI [of _ k1]) (auto simp: ExitRelease_def)
  qed
  then obtain k' where k': "quiet k1 k'" "ExitRelease (int a) ?s2 = Inr ((set_cell (int a) (CObj (child_gone c ec pa)) s)\<lparr>kern := k'\<rparr>)" by blast
  have "quiet (kern s) k'" by (rule quiet_trans [OF k1(1) k'(1)])
  then show ?thesis using k1(2) d k'(2) by auto
qed

lemma Finish_lands: "kernel_ok k \<Longrightarrow> \<not> idling k \<Longrightarrow> \<exists>k' ps. Finish k = Inr (k', ps) \<and> kernel_ok k'"
  using act_ok [of k AFinish] by (simp add: lands_def)

lemma Exit_rest:
  assumes ok: "proc_ok s" "\<not> idling (kern s)" and c: "pcbs s c = Some pc" "pcb_thread pc = Some (currentThread (kern s))" "parentID pc = int a" "numwait pc = 0"
    and a: "pcbs s a = Some pa"
  shows "\<exists>s'. ExitUpdate_rest c (int a) ec s = Inr (Sleeps, s') \<and> proc_ok s' \<and> pcbs s' = (pcbs s)(c := None, a \<mapsto> child_gone c ec pa) \<and> fsys s' = fsys s"
proof -
  have sh: "shape (gPhysPageBitMap s) (kern s) (pcbs s)" and bm: "bitmap_ok (pt_bm (ptab s))" "nbits (pt_bm (ptab s)) = MAX_PROCESS"
    and fr: "bitmap_ok (gPhysPageBitMap s)" "nbits (gPhysPageBitMap s) = NumPhysPages" using ok(1) unfolding proc_ok_def shape_def by blast+
  have pc: "pcb_ok (kern s) (pcbs s) c pc" "c < MAX_PROCESS" using proc_ok_pcbs [OF ok(1) c(1)] by auto
  have ac: "a \<noteq> c" using pc(1) c(3) unfolding pcb_ok_def by force
  have fin: "finite (children (pcbs s) c)" by (rule finite_subset [of _ "dom (pcbs s)"]) (use sh in \<open>auto simp: children_def shape_def\<close>)
  then have ch: "children (pcbs s) c = {}" using pc(1) c(4) unfolding pcb_ok_def by (metis card_0_eq of_nat_eq_0_iff)
  obtain k3 where k3: "quiet (kern s) k3" and rel: "rbind (JoinRelease (int a) (int c) ec s) (\<lambda>s1. rbind (DecNumWait (int a) s1) (ExitRelease (int a))) =
     Inr ((set_cell (int a) (CObj (child_gone c ec pa)) s)\<lparr>kern := k3\<rparr>)" using release_parent [OF ok(1) a] by blast
  let ?s3 = "(set_cell (int a) (CObj (child_gone c ec pa)) s)\<lparr>kern := k3\<rparr>"
  have cur3: "currentThread k3 = currentThread (kern s)" "machine k3 = machine (kern s)" "kernel_ok k3" "\<not> idling k3" "threadToBeDestroyed k3 = threadToBeDestroyed (kern s)"
    using k3 ok(2) by (auto simp: quiet_def)
  have sh3: "shape (gPhysPageBitMap s) k3 (pcbs s)" using shape_kept [OF _ sh] k3 by (simp add: quiet_def)
  then have pc3: "pcb_ok k3 (pcbs s) c pc" using c(1) unfolding shape_def by blast
  obtain th sp fs where th: "threads k3 (currentThread k3) = Some th" "space th = Some sp" "space_ok sp (machine k3) fs"
    using pc3 c(2) cur3(1) unfolding pcb_ok_def by auto
  have la: "a < length (pcb (ptab s))" "c < length (pcb (ptab s))" using a c(1) by (auto simp: pcbs_nth)
  have at: "pcb_at (int c) ?s3 = Inr pc"
    using pcbs_set_cell [OF la(1), of "CObj (child_gone c ec pa)"] ac c(1) by (intro pcb_at_pcbs) simp
  let ?k4 = "PCB_delete pc k3"
  have k4: "kernel_ok ?k4" unfolding PCB_delete_restrict
    by (rule kernel_ok_del_sems [OF cur3(3,4)]) (use pc3 c(2) cur3(1) in \<open>auto simp: pcb_ok_def\<close>)
  obtain bm' where bm': "BitMap_Clear (pt_bm (ptab s)) (int c) = Inr bm'" "bitmap_ok bm'" "marked bm' = marked (pt_bm (ptab s)) - {c}" "nbits bm' = MAX_PROCESS"
    using clear_ok [OF bm(1), of c] bm(2) pc(2) by (auto simp: nbits_def)
  obtain frames m where fm: "AddrSpace_delete sp (gPhysPageBitMap s) (machine k3) = Inr (frames, m)" "bitmap_ok frames" "nbits frames = NumPhysPages"
    "ptables m = (ptables (machine k3))(as_pageTable sp := None)" using AddrSpace_delete_ok [OF fr th(3)] by blast
  let ?k5 = "?k4\<lparr>machine := m\<rparr>"
  obtain k' ps where k': "Finish ?k5 = Inr (k', ps)" "kernel_ok k'"
    using Finish_lands [of ?k5] k4 cur3(4) by (auto simp: PCB_delete_def)
  let ?P = "(pcbs s)(c := None, a \<mapsto> child_gone c ec pa)"
  let ?s4 = "(set_cell (int c) CNull ?s3)\<lparr>kern := ?k4\<rparr>"
  let ?s = "?s4\<lparr>ptab := (ptab ?s4)\<lparr>pt_bm := bm'\<rparr>, gPhysPageBitMap := frames, kern := k'\<rparr>"
  have thread4: "thread_of (currentThread ?k4) ?k4 = Inr th" "machine ?k4 = machine k3" using th(1) by (simp_all add: thread_of_def PCB_delete_def)
  have run: "ExitUpdate_rest c (int a) ec s = Inr (Sleeps, ?s)"
  proof -
    have "ExitUpdate_rest c (int a) ec s = rbind (rbind (JoinRelease (int a) (int c) ec s) (\<lambda>s1. rbind (DecNumWait (int a) s1) (ExitRelease (int a)))) (\<lambda>s3.
           rbind (pcb_at (int c) s3) (\<lambda>p.
           let s4 = (set_cell (int c) CNull s3)\<lparr>kern := PCB_delete p (kern s3)\<rparr>
           in rbind (BitMap_Clear (pt_bm (ptab s4)) (int c)) (\<lambda>bm.
              rbind (thread_of (currentThread (kern s4)) (kern s4)) (\<lambda>th.
              case space th of None \<Rightarrow> Inl NullDeref
              | Some sp \<Rightarrow> rbind (AddrSpace_delete sp (gPhysPageBitMap s4) (machine (kern s4))) (\<lambda>(frames, m).
                  rbind (Finish ((kern s4)\<lparr>machine := m\<rparr>)) (\<lambda>(k, ps).
                    Inr (Sleeps, s4\<lparr>ptab := (ptab s4)\<lparr>pt_bm := bm\<rparr>, gPhysPageBitMap := frames, kern := k\<rparr>)))))))"
      by (simp add: ExitUpdate_rest_def rbind_def split: sum.splits)
    then show ?thesis unfolding rel rbind_Inr at using bm'(1) th(2) thread4 fm(1) k'(1) by (simp add: Let_def)
  qed
  have cells: "pcbs ?s = ?P"
    using pcbs_set_cell [OF la(1), of "CObj (child_gone c ec pa)"] pcbs_set_cell [of c "set_cell (int a) (CObj (child_gone c ec pa)) s" CNull] la ac
    by (simp add: fun_upd_twist pcbs_def)
  have "shape frames (sleep_at InFinish (?k5\<lparr>threadToBeDestroyed := Some (currentThread ?k5)\<rparr>)) ?P"
    using th by (intro shape_exit [OF sh3 c(1) _ c(3) ch a ac, where pa' = "child_gone c ec pa" and th = th and sp = sp]) (use fm cur3 c(2) in \<open>simp_all add: PCB_delete_restrict\<close>)
  then have "shape frames k' ?P" using shape_kept [OF Finish_kept [OF k'(1)]] by blast
  moreover have "CFreed \<notin> set (pcb (ptab ?s))"
    using ok(1) set_update_subset_insert [of "(pcb (ptab s))[a := CObj (child_gone c ec pa)]" c CNull] set_update_subset_insert [of "pcb (ptab s)" a "CObj (child_gone c ec pa)"]
    by (auto simp: set_cell_def proc_ok_def)
  moreover have "marked bm' = dom ?P" using bm'(3) ok(1) a ac by (auto simp: proc_ok_def)
  ultimately have "proc_ok ?s" using k'(2) bm'(2,4) ok(1) unfolding proc_ok_def cells by simp
  moreover have "fsys ?s = fsys s" by simp
  ultimately show ?thesis using run cells by blast
qed

section \<open>Sleeping until the children have ended\<close>

lemma Exit_waits:
  assumes ok: "proc_ok s" "\<not> idling (kern s)" and p: "current_process s = Inr (Some i)" "pcbs s i = Some p" "pcb_thread p = Some (currentThread (kern s))"
    and w: "0 < numwait p" "sems (kern s) (exitsem p) = Some x" "sem_value x = 0"
  shows "\<exists>s'. ExitUpdate ec s = Inr (Sleeps, s') \<and> proc_ok s' \<and> pcbs s' = (pcbs s)(i \<mapsto> p\<lparr>isExit := 1\<rparr>) \<and> fsys s' = fsys s"
proof -
  let ?p = "p\<lparr>isExit := 1\<rparr>" let ?s = "set_cell (int i) (CObj ?p) s"
  have i: "i < length (pcb (ptab s))" using p(2) by (simp add: pcbs_nth)
  have e: "pcbs ?s = (pcbs s)(i \<mapsto> ?p)" using pcbs_set_cell [OF i, of "CObj ?p"] by simp
  have "shape (gPhysPageBitMap s) (kern s) ((pcbs s)(i \<mapsto> ?p))" using ok(1) p(2) by (intro shape_upd) (simp_all add: proc_ok_def psems_def)
  then have s: "proc_ok ?s" by (rule proc_ok_set_cell [OF ok(1) p(2)])
  have k: "kernel_ok (kern s)" using ok(1) by (simp add: proc_ok_def)
  obtain k' ps where k': "P (exitsem p) (kern s) = Inr (k', ps)" "kernel_ok k'" using P_lands [OF k ok(2)] w(2) by blast
  have "currentThread (kern s) \<notin> fst ` set ps" by (rule P_blocks [OF k ok(2) w(2,3) k'(1)])
  then have "P_then (exitsem p) f ?s = Inr (Sleeps, ?s\<lparr>kern := k'\<rparr>)" for f :: "Proc \<Rightarrow> (int call_result \<times> Proc) res" using k'(1) by (simp add: P_then_def)
  then have "ExitUpdate ec s = Inr (Sleeps, ?s\<lparr>kern := k'\<rparr>)"
    using p(1) w(1) pcb_at_pcbs [OF p(2)] by (simp add: ExitUpdate_def ExitWait_def)
  moreover have "shape (gPhysPageBitMap ?s) k' (pcbs ?s)"
  proof (rule P_own_shape)
    show "shape (gPhysPageBitMap ?s) (kern ?s) (pcbs ?s)" using s unfolding proc_ok_def by blast
    show "pcbs ?s i = Some ?p" unfolding e by simp
    show "pcb_thread ?p = Some (currentThread (kern ?s))" "exitsem p \<in> psems ?p" "P (exitsem p) (kern ?s) = Inr (k', ps)"
      using p(3) k'(1) by (simp_all add: psems_def)
  qed
  then have "proc_ok (?s\<lparr>kern := k'\<rparr>)" by (rule proc_ok_kern [OF s k'(2)])
  ultimately show ?thesis using e by auto
qed

lemma Join_total:
  assumes ok: "proc_ok s" "\<not> idling (kern s)"
  shows "\<exists>r s'. JoinUpdate jid s = Inr (r, s') \<and> proc_ok s' \<and> fsys s' = fsys s \<and> (\<forall>j q. pcbs s' j = Some q \<longrightarrow> (\<exists>q0. pcbs s j = Some q0 \<and> psems q = psems q0)) \<and>
     (r = Sleeps \<or> (\<exists>v. r = Returns v) \<and> quiet (kern s) (kern s'))"
proof -
  have k: "quiet (kern s) (kern s)" using ok(1) by (simp add: quiet_refl proc_ok_def)
  show ?thesis
  proof (rule current_process_eq [OF ok(1)])
    assume c: "current_process s = Inr None"
    then have "JoinUpdate jid s = Inr (Returns (-1), s)" by (intro Join_other [OF ok(1)]) simp
    then show ?thesis using ok(1) k by auto
  next
    fix i p
    assume p: "current_process s = Inr (Some i)" "pcbs s i = Some p" "pcb_thread p = Some (currentThread (kern s))"
    show ?thesis
    proof (cases "\<exists>j c. jid = int j \<and> pcbs s j = Some c \<and> parentID c = int i")
      case True
      then obtain j c where c: "jid = int j" "pcbs s j = Some c" "parentID c = int i" by blast
      show ?thesis
      proof (cases "joinID p = -1")
        case True
        then obtain r s' where r: "JoinUpdate (int j) s = Inr (r, s')" "proc_ok s'" "pcbs s' = (pcbs s)(i \<mapsto> p\<lparr>joinID := int j\<rparr>)" "fsys s' = fsys s"
          "r = Sleeps \<or> r = Returns (joinExitcode p) \<and> quiet (kern s) (kern s')" using Join_child [OF ok p c(2,3)] by blast
        moreover have "\<forall>j q. pcbs s' j = Some q \<longrightarrow> (\<exists>q0. pcbs s j = Some q0 \<and> psems q = psems q0)"
          using r(3) p(2) by (auto simp: psems_def)
        ultimately show ?thesis using c(1) by blast
      next
        case False
        then have "JoinUpdate jid s = Inr (Returns (joinExitcode p), s)"
          using c proc_ok_pcbs(1,3) [OF ok(1) c(2)] Test_pcbs [OF ok(1), of j] p pcb_at_pcbs [OF p(2)]
          by (simp add: JoinUpdate_def JoinWait_def JoinUpdate_rest_def)
        then show ?thesis using ok(1) k by auto
      qed
    next
      case False
      then have "JoinUpdate jid s = Inr (Returns (-1), s)" using p(1) by (intro Join_other [OF ok(1)]) auto
      then show ?thesis using ok(1) k by auto
    qed
  qed
qed

lemma Exit_total:
  assumes ok: "proc_ok s" "\<not> idling (kern s)"
    and idle: "\<forall>i p x. pcbs s i = Some p \<and> 0 < numwait p \<and> sems (kern s) (exitsem p) = Some x \<longrightarrow> sem_value x = 0"
  shows "\<exists>r s'. ExitUpdate ec s = Inr (r, s') \<and> proc_ok s' \<and> fsys s' = fsys s \<and> (r \<noteq> Sleeps \<longrightarrow> s' = s) \<and>
     (r = Halts \<longrightarrow> (\<exists>i p. pcbs s i = Some p \<and> pcb_thread p = Some (currentThread (kern s)) \<and> parentID p = -1 \<and> numwait p = 0))"
proof (rule current_process_eq [OF ok(1)])
  assume c: "current_process s = Inr None"
  then show ?thesis using ok(1) by (auto simp: ExitUpdate_def)
next
  fix i p
  assume p: "current_process s = Inr (Some i)" "pcbs s i = Some p" "pcb_thread p = Some (currentThread (kern s))"
  have pok: "pcb_ok (kern s) (pcbs s) i p" using proc_ok_pcbs [OF ok(1) p(2)] by blast
  obtain x where x: "sems (kern s) (exitsem p) = Some x" using pok by (auto simp: pcb_ok_def psems_def)
  show ?thesis
  proof (cases "0 < numwait p")
    case True
    then have "sem_value x = 0" using idle p(2) x by blast
    then show ?thesis using Exit_waits [OF ok p True x] by fastforce
  next
    case False
    then have n0: "numwait p = 0" using pok by (simp add: pcb_ok_def)
    have e: "ExitUpdate ec s = ExitUpdate_rest i (parentID p) ec s"
      using p(1) n0 pcb_at_pcbs [OF p(2)] by (simp add: ExitUpdate_def ExitWait_def)
    show ?thesis
    proof (cases "parentID p = -1")
      case True
      then show ?thesis using e ok(1) p n0 by (auto simp: ExitUpdate_rest_def)
    next
      case False
      then obtain a pa where a: "parentID p = int a" "pcbs s a = Some pa" using pok unfolding pcb_ok_def by blast
      then show ?thesis using e Exit_rest [OF ok p(2,3) a(1) n0 a(2)] by fastforce
    qed
  qed
qed

section \<open>Properties\<close>



text \<open>Two processes: the first, in entry 0, has joined the second, in entry 1, which runs.\<close>

definition demo_pcb :: "int \<Rightarrow> nat \<Rightarrow> PCB" where
  "demo_pcb i n = \<lparr>pID = i, parentID = i - 1, exitcode = 0, numwait = 1 - i, joinID = (if i = 0 then 1 else -1), joinExitcode = 0, isExit = 0,
     pcb_thread = Some n, joinsem = 3 * n, exitsem = 3 * n + 1, mutex = 3 * n + 2, fileName = ''prog''\<rparr>"

definition demo_thread :: "nat \<Rightarrow> ThreadStatus \<Rightarrow> Resume \<Rightarrow> Thread" where
  "demo_thread n st r = Thread_new\<lparr>t_status := st, resume_at := r, space := Some \<lparr>as_pageTable = n, numPages = 1\<rparr>\<rparr>"

definition demo_sems :: "nat \<rightharpoonup> Semaphore" where
  "demo_sems = [0 \<mapsto> Semaphore_new 0\<lparr>queue := [0]\<rparr>, 1 \<mapsto> Semaphore_new 0, 2 \<mapsto> Semaphore_new 1,
     3 \<mapsto> Semaphore_new 0, 4 \<mapsto> Semaphore_new 0, 5 \<mapsto> Semaphore_new 1, 6 \<mapsto> Semaphore_new 1]"

definition demo_kernel :: Kernel where
  "demo_kernel = \<lparr>threads = [0 \<mapsto> demo_thread 0 BLOCKED (InP 0), 1 \<mapsto> demo_thread 1 RUNNING AtThreadRoot], currentThread = 1,
     threadToBeDestroyed = None, readyList = [], sems = demo_sems, machine = two_spaces, idling = False\<rparr>"

definition demo_proc :: Proc where
  "demo_proc = \<lparr>ptab = \<lparr>pt_bm = \<lparr>numBits = 10, numWords = 1, bmap = [3]\<rparr>, pcb = CObj (demo_pcb 0 0) # CObj (demo_pcb 1 1) # replicate 8 CNull, bmsem = 6\<rparr>,
     kern = demo_kernel, fsys = demo_fs, gPhysPageBitMap = \<lparr>numBits = 128, numWords = 4, bmap = [96, 0, 0, 0]\<rparr>, t_name = (\<lambda>_. ''prog'')\<rparr>"

lemma demo_pcbs: "pcbs demo_proc = [0 \<mapsto> demo_pcb 0 0, 1 \<mapsto> demo_pcb 1 1]"
proof
  fix i
  have "pcb (ptab demo_proc) ! i = CNull" if "2 \<le> i" "i < 10" using that by (simp add: demo_proc_def nth_Cons')
  moreover have "length (pcb (ptab demo_proc)) = 10" "pcb (ptab demo_proc) ! 0 = CObj (demo_pcb 0 0)" "pcb (ptab demo_proc) ! 1 = CObj (demo_pcb 1 1)"
    by (simp_all add: demo_proc_def)
  ultimately show "pcbs demo_proc i = [0 \<mapsto> demo_pcb 0 0, 1 \<mapsto> demo_pcb 1 1] i"
    by (cases "i = 0"; cases "i = 1"; cases "i < 10") (auto simp: pcbs_def)
qed

lemma demo_kernel_ok: "kernel_ok demo_kernel"
proof -
  have "sem_ok demo_kernel x sm" "queue sm \<noteq> [] \<longrightarrow> sem_value sm = 0" if "demo_sems x = Some sm" for x sm
    using that by (auto simp: demo_sems_def sem_ok_def waiting_thread_def demo_kernel_def demo_thread_def Semaphore_new_def split: if_splits)
  then show ?thesis
    by (auto simp: kernel_ok_def core_ok_def wake_ok_def current_status_def demo_kernel_def demo_thread_def Thread_new_def fence_ok_def)
qed

section \<open>Witnesses\<close>

lemma demo_marked: "marked (pt_bm (ptab demo_proc)) = {0, 1}"
proof -
  have m: "(3 :: 32 word) = mask 2" by (simp add: mask_eq_exp_minus_1)
  have "marked (pt_bm (ptab demo_proc)) = {i. i < 10 \<and> bit (3 :: 32 word) i}"
    by (auto simp: marked_def nbits_def bit_on_def demo_proc_def)
  also have "\<dots> = {0, 1}" unfolding m bit_mask_iff by auto
  finally show ?thesis .
qed

lemma demo_children: "children (pcbs demo_proc) i = (if i = 0 then {1} else {})"
  unfolding demo_pcbs children_def by (auto simp: demo_pcb_def split: if_splits)

lemma demo_proc_ok: "proc_ok demo_proc"
proof -
  have k: "kern demo_proc = demo_kernel" by (simp add: demo_proc_def)
  have th: "threads demo_kernel t = Some th \<longleftrightarrow> t = 0 \<and> th = demo_thread 0 BLOCKED (InP 0) \<or> t = 1 \<and> th = demo_thread 1 RUNNING AtThreadRoot" for t th
    by (auto simp: demo_kernel_def)
  have sp: "space_ok \<lparr>as_pageTable = n, numPages = 1\<rparr> (machine demo_kernel) [5 + n]" if "n = 0 \<or> n = 1" for n
    using that two_spaces_ok by (auto simp: demo_kernel_def)
  have dom: "dom (sems demo_kernel) = {0, 1, 2, 3, 4, 5, 6}" by (auto simp: demo_kernel_def demo_sems_def split: if_splits)
  have fr: "bitmap_ok (gPhysPageBitMap demo_proc)" "nbits (gPhysPageBitMap demo_proc) = NumPhysPages"
    by (simp_all add: demo_proc_def bitmap_ok_def nbits_def divRoundUp_def c_arith)
  have pok: "pcb_ok demo_kernel (pcbs demo_proc) n (demo_pcb (int n) n)" if n: "n = 0 \<or> n = 1" for n
  proof -
    have "pcb_thread (demo_pcb (int n) n) = Some n" "psems (demo_pcb (int n) n) = {3 * n, 3 * n + 1, 3 * n + 2}"
      "parentID (demo_pcb (int n) n) = int n - 1" "numwait (demo_pcb (int n) n) = 1 - int n" by (simp_all add: demo_pcb_def psems_def)
    moreover have "\<exists>th. threads demo_kernel n = Some th \<and> space th = Some \<lparr>as_pageTable = n, numPages = 1\<rparr>"
      using n th by (auto simp: demo_thread_def)
    moreover have "int n - 1 = -1 \<or> (\<exists>j. int n - 1 = int j \<and> j \<noteq> n \<and> pcbs demo_proc j \<noteq> None)"
      using n by (auto simp: demo_pcbs)
    moreover have "t = n" if "threads demo_kernel t = Some u" "resume_at u = InP sm" "sm \<in> {3 * n, 3 * n + 1, 3 * n + 2}" for t u sm
      using that n th by (auto simp: demo_thread_def)
    moreover have "threadToBeDestroyed demo_kernel = None" by (simp add: demo_kernel_def)
    moreover have "{3 * n, 3 * n + 1, 3 * n + 2} \<subseteq> dom (sems demo_kernel)" unfolding dom using n by auto
    ultimately show ?thesis using sp [OF n] n unfolding pcb_ok_def demo_children by auto
  qed
  have ap: "pcb_apart demo_kernel (demo_pcb 0 0) (demo_pcb 1 1)" "pcb_apart demo_kernel (demo_pcb 1 1) (demo_pcb 0 0)"
    by (auto simp: pcb_apart_def psems_def demo_pcb_def th demo_thread_def)
  have "shape (gPhysPageBitMap demo_proc) demo_kernel (pcbs demo_proc)"
    using fr pok [of 0] pok [of 1] ap unfolding shape_def by (auto simp: demo_pcbs split: if_splits)
  moreover have "marked (pt_bm (ptab demo_proc)) = dom (pcbs demo_proc)" unfolding demo_marked demo_pcbs by auto
  moreover have "bitmap_ok (pt_bm (ptab demo_proc))" "nbits (pt_bm (ptab demo_proc)) = MAX_PROCESS"
    "length (pcb (ptab demo_proc)) = MAX_PROCESS" "CFreed \<notin> set (pcb (ptab demo_proc))"
    by (simp_all add: demo_proc_def bitmap_ok_def nbits_def divRoundUp_def c_arith)
  ultimately show ?thesis using demo_kernel_ok unfolding proc_ok_def k by blast
qed

lemma demo_running: "\<not> idling (kern demo_proc)" "current_process demo_proc = Inr (Some 1)"
  by (simp_all add: demo_proc_def demo_kernel_def current_process_def demo_pcb_def)



end
