(* ===== verification/Process_Start.thy ===== *)
theory Process_Start
  imports Process_Table
begin

text \<open>
  Starting a program: what \<open>PTable::ExecUpdate\<close> and \<open>PCB::Exec\<close> (\<open>threads/ptable.cc\<close>, \<open>threads/pcb.cc\<close>) do, from the
  open executable to the new thread in the ready list. The definitions are those of \<open>Process_Table\<close>.
\<close>

section \<open>Semaphores that are free, files that can be opened\<close>

lemma P_then_free:
  "sems (kern s) sm = Some (Semaphore_new 1) \<Longrightarrow>
   P_then sm f s = f (s\<lparr>kern := (kern s)\<lparr>sems := (sems (kern s))(sm \<mapsto> Semaphore_new 0)\<rparr>\<rparr>)"
  by (simp add: P_then_def P_def P_loop.simps sem_of_def upd_sem_def Semaphore_new_def)

lemma V_return_taken:
  "sems (kern s) sm = Some (Semaphore_new 0) \<Longrightarrow>
   V_return sm r s = Inr (Returns r, s\<lparr>kern := (kern s)\<lparr>sems := (sems (kern s))(sm \<mapsto> Semaphore_new 1)\<rparr>\<rparr>)"
  by (simp add: V_return_def V_on_def V_def sem_of_def upd_sem_def Semaphore_new_def)

lemma Open_missing: "names (host fs) name = None \<Longrightarrow> FileSystem_Open ty name fs = Inr (None, fs)"
  by (simp add: FileSystem_Open_def OpenForReadWrite_def)

lemma Open_exists:
  assumes "names (host fs) name = Some ino" "d < open_max (host fs)" "fds (host fs) d = None"
  obtains e h where "FileSystem_Open ty name fs = Inr (Some e, fs\<lparr>host := h\<rparr>)" "content h (host_fd e) = inodes (host fs) ino"
    "OpenFile_delete e h = Inr (host fs)"
proof -
  obtain i where i: "first_index (\<lambda>i. fds (host fs) i = None) (open_max (host fs)) = Some i"
    using assms(2,3) first_index_None [of "\<lambda>i. fds (host fs) i = None" "open_max (host fs)"] by (metis option.exhaust)
  have n: "fds (host fs) i = None" using i unfolding first_index_Some by blast
  let ?h = "(host fs)\<lparr>fds := (fds (host fs))(i \<mapsto> (ino, 0))\<rparr>"
  have "FileSystem_Open ty name fs = Inr (Some (OpenFile_new (int i) ty), fs\<lparr>host := ?h\<rparr>)"
    using assms(1) i by (simp add: FileSystem_Open_def OpenForReadWrite_def fd_alloc_def)
  moreover have "content ?h (int i) = inodes (host fs) ino" by (simp add: content_def file_of_def fd_lookup_def)
  moreover have "OpenFile_delete (OpenFile_new (int i) ty) ?h = Inr (host fs)"
    using Close_open [OF n] by (simp add: OpenFile_delete_def OpenFile_new_def)
  ultimately show ?thesis using that by (simp add: OpenFile_new_def)
qed

section \<open>The new process\<close>

text \<open>The addresses \<open>new\<close> returns are not in use.\<close>

definition fresh_addrs :: "Addrs \<Rightarrow> Kernel \<Rightarrow> bool" where
  "fresh_addrs ad k \<longleftrightarrow> distinct [new_joinsem ad, new_exitsem ad, new_mutex ad] \<and>
     (\<forall>x\<in>{new_joinsem ad, new_exitsem ad, new_mutex ad}. sems k x = None \<and> (\<forall>t th. threads k t = Some th \<longrightarrow> resume_at th \<noteq> InP x)) \<and>
     threads k (new_thread ad) = None \<and> ptables (machine k) (new_table ad) = None"

definition new_sems :: "Addrs \<Rightarrow> nat \<rightharpoonup> Semaphore" where
  "new_sems ad = [new_joinsem ad \<mapsto> Semaphore_new 0, new_exitsem ad \<mapsto> Semaphore_new 0, new_mutex ad \<mapsto> Semaphore_new 1]"

definition child_thread :: "AddrSpace \<Rightarrow> Thread" where
  "child_thread sp = (StackAllocate exec_func 0 (Thread_new\<lparr>space := Some sp\<rparr>))\<lparr>t_status := READY\<rparr>"

definition child_pcb :: "Addrs \<Rightarrow> string \<Rightarrow> int \<Rightarrow> int \<Rightarrow> PCB" where
  "child_pcb ad filename pid parentid =
     \<lparr>pID = pid, parentID = parentid, exitcode = 0, numwait = 0, joinID = -1, joinExitcode = 0, isExit = 0, pcb_thread = Some (new_thread ad),
        joinsem = new_joinsem ad, exitsem = new_exitsem ad, mutex = new_mutex ad, fileName = take MAX_FILENAME_LEN filename\<rparr>"

definition started :: "Addrs \<Rightarrow> AddrSpace \<Rightarrow> Machine \<Rightarrow> Kernel \<Rightarrow> Kernel" where
  "started ad sp m k = k\<lparr>sems := sems k ++ new_sems ad, threads := (threads k)(new_thread ad \<mapsto> child_thread sp),
     readyList := readyList k @ [new_thread ad], machine := m\<rparr>"

lemma Fork_child:
  "threads k t = Some (Thread_new\<lparr>space := Some sp\<rparr>) \<Longrightarrow>
   Fork t exec_func 0 k = Inr (k\<lparr>threads := (threads k)(t \<mapsto> child_thread sp), readyList := readyList k @ [t]\<rparr>)"
  by (simp add: Fork_def upd_thread_def thread_of_def ReadyToRun_eq child_thread_def)

lemma PCB_Exec_child:
  assumes fl: "names (host (fsys s)) filename = Some ino" "d < open_max (host (fsys s))" "fds (host (fsys s)) d = None"
    and load: "AddrSpace_new garbage (inodes (host (fsys s)) ino) (new_table ad) (gPhysPageBitMap s) (machine (kern s)) = Inr (sp, fr, m)"
    and p: "pid < length (pcb (ptab s))" "pcb (ptab s) ! pid = CObj p" "PCB_new ad k0 = (p, k)" and k: "sems (kern s) (new_mutex ad) = Some (Semaphore_new 1)"
    and par: "0 \<le> parentid"
  shows "PCB_Exec ad garbage filename (int pid) parentid s = Inr (Returns (int pid),
    (set_cell (int pid) (CObj (child_pcb ad filename (int pid) parentid)) s)\<lparr>
      kern := (kern s)\<lparr>threads := (threads (kern s))(new_thread ad \<mapsto> child_thread sp), readyList := readyList (kern s) @ [new_thread ad], machine := m\<rparr>,
      gPhysPageBitMap := fr, t_name := (t_name s)(new_thread ad := take MAX_FILENAME_LEN filename)\<rparr>)"
proof -
  obtain e h where o: "FileSystem_Open 0 filename (fsys s) = Inr (Some e, (fsys s)\<lparr>host := h\<rparr>)" "content h (host_fd e) = inodes (host (fsys s)) ino"
    "OpenFile_delete e h = Inr (host (fsys s))" by (rule Open_exists [OF fl])
  have p': "pcb_thread p = None" "mutex p = new_mutex ad"
    "p\<lparr>pID := int pid, parentID := parentid, fileName := take MAX_FILENAME_LEN filename, pcb_thread := Some (new_thread ad)\<rparr> = child_pcb ad filename (int pid) parentid"
    using p(3) by (auto simp: PCB_new_def child_pcb_def)
  have s: "(sems (kern s))(new_mutex ad \<mapsto> Semaphore_new 1) = sems (kern s)" using k by auto
  show ?thesis
    using p(1,2) k par o load s
    by (simp add: PCB_Exec_def pcb_at_def P_then_free PCB_Exec_body_def p' Let_def Fork_child [simplified] V_return_taken set_cell_def)
qed


text \<open>The state after the call: \<open>bmsem\<close> is as before, the file is closed again.\<close>

definition with_child :: "Addrs \<Rightarrow> string \<Rightarrow> nat \<Rightarrow> nat \<Rightarrow> PCB \<Rightarrow> AddrSpace \<Rightarrow> BitMap \<Rightarrow> Machine \<Rightarrow> Proc \<Rightarrow> Proc" where
  "with_child ad filename pid i p sp fr m s =
     (set_cell (int i) (CObj (p\<lparr>numwait := numwait p + 1\<rparr>)) (set_cell (int pid) (CObj (child_pcb ad filename (int pid) (int i))) s))\<lparr>
       kern := started ad sp m (kern s), gPhysPageBitMap := fr, t_name := (t_name s)(new_thread ad := take MAX_FILENAME_LEN filename)\<rparr>"

lemma Exec_entry_child:
  assumes fl: "names (host (fsys s)) filename = Some ino" "d < open_max (host (fsys s))" "fds (host (fsys s)) d = None"
    and load: "AddrSpace_new garbage (inodes (host (fsys s)) ino) (new_table ad) (gPhysPageBitMap s) (machine (kern s)) = Inr (sp, fr, m)"
    and p: "pid < length (pcb (ptab s))" "i < length (pcb (ptab s))" "i \<noteq> pid" "pcb (ptab s) ! i = CObj p"
    and k: "fresh_addrs ad (kern s)" "sems (kern s) (bmsem (ptab s)) = Some (Semaphore_new 0)"
  shows "Exec_entry ad garbage filename (int pid) (int i) s = Inr (Returns (int pid),
    with_child ad filename pid i p sp fr m (s\<lparr>kern := (kern s)\<lparr>sems := (sems (kern s))(bmsem (ptab s) \<mapsto> Semaphore_new 1)\<rparr>\<rparr>))"
proof -
  obtain q k1 where q: "PCB_new ad (kern s) = (q, k1)" by fastforce
  let ?s = "set_cell (int pid) (CObj q) (s\<lparr>kern := k1\<rparr>)"
  have k1: "k1 = (kern s)\<lparr>sems := sems (kern s) ++ new_sems ad\<rparr>" using q by (auto simp: PCB_new_def new_sems_def)
  have b: "bmsem (ptab s) \<notin> {new_joinsem ad, new_exitsem ad, new_mutex ad}" using k by (auto simp: fresh_addrs_def)
  have m: "sems (kern ?s) (new_mutex ad) = Some (Semaphore_new 1)" "sems (kern ?s) (bmsem (ptab s)) = Some (Semaphore_new 0)"
    using b k by (auto simp: k1 new_sems_def)
  have c: "pcb (ptab ?s) ! pid = CObj q" "pid < length (pcb (ptab ?s))" using p(1) by (simp_all add: set_cell_def)
  have fl': "names (host (fsys ?s)) filename = Some ino" "d < open_max (host (fsys ?s))" "fds (host (fsys ?s)) d = None"
    "AddrSpace_new garbage (inodes (host (fsys ?s)) ino) (new_table ad) (gPhysPageBitMap ?s) (machine (kern ?s)) = Inr (sp, fr, m)"
    using fl load by (simp_all add: k1)
  note e = PCB_Exec_child [OF fl' c(2,1) q m(1), of "int i", simplified]
  have s: "(sems (kern s) ++ new_sems ad)(bmsem (ptab s) \<mapsto> x) = (sems (kern s))(bmsem (ptab s) \<mapsto> x) ++ new_sems ad" for x
    using b by (auto simp: new_sems_def fun_eq_iff)
  show ?thesis
    using p m b by (simp add: Exec_entry_def q e) (simp add: IncNumWait_def upd_pcb_def pcb_at_def set_cell_def V_return_taken k1 with_child_def started_def s)
qed


section \<open>The whole call\<close>

lemma current_process_kern [simp]:
  "currentThread k = currentThread (kern s) \<Longrightarrow> current_process (s\<lparr>kern := k\<rparr>) = current_process s"
  by (simp add: current_process_def)

lemma restore_sem: "sems k b = Some x \<Longrightarrow> k\<lparr>sems := (sems k)(b \<mapsto> x)\<rparr> = k"
  by (simp add: fun_upd_idem)

text \<open>\<open>ExecUpdate\<close> between taking and giving back \<open>bmsem\<close>, for a file that exists and a caller that is a process.\<close>

lemma ExecUpdate_opens:
  assumes "sems (kern s) (bmsem (ptab s)) = Some (Semaphore_new 1)"
    and fl: "names (host (fsys s)) filename = Some ino" "d < open_max (host (fsys s))" "fds (host (fsys s)) d = None"
    and some: "marked (pt_bm (ptab s)) \<noteq> {}" "nbits (pt_bm (ptab s)) = MAX_PROCESS"
  defines "s1 \<equiv> s\<lparr>kern := (kern s)\<lparr>sems := (sems (kern s))(bmsem (ptab s) \<mapsto> Semaphore_new 0)\<rparr>\<rparr>"
  shows "ExecUpdate ad garbage filename s =
    (if strncmp_eq MAX_FILENAME_LEN (t_name s (currentThread (kern s))) filename then Inr (Returns (-1), s)
     else rbind (current_process s) (\<lambda>parent. case parent of
       None \<Rightarrow> Inr (Returns (-1), s)
     | Some parentid \<Rightarrow> rbind (BitMap_Find (pt_bm (ptab s))) (\<lambda>(pid, bm).
         if pid = -1 then Inr (Returns (-1), s\<lparr>ptab := (ptab s)\<lparr>pt_bm := bm\<rparr>\<rparr>)
         else Exec_entry ad garbage filename pid (int parentid) (s1\<lparr>ptab := (ptab s)\<lparr>pt_bm := bm\<rparr>\<rparr>))))"
proof -
  obtain e h where o: "FileSystem_Open 0 filename (fsys s) = Inr (Some e, (fsys s)\<lparr>host := h\<rparr>)" "OpenFile_delete e h = Inr (host (fsys s))"
    by (rule Open_exists [OF fl])
  have "card (marked (pt_bm (ptab s))) \<noteq> 0" using some(1) finite_subset [OF marked_subset [of "pt_bm (ptab s)"]] by simp
  then have c: "int (nbits (pt_bm (ptab s)) - card (marked (pt_bm (ptab s)))) \<noteq> int MAX_PROCESS" unfolding some(2) by linarith
  have r: "(kern s)\<lparr>sems := (sems (kern s))(bmsem (ptab s) \<mapsto> Semaphore_new 1)\<rparr> = kern s" by (rule restore_sem [OF assms(1)])
  have "current_process s1 = current_process s" by (simp add: s1_def)
  then show ?thesis unfolding s1_def
    using assms(1) c r o
    by (auto simp: ExecUpdate_def P_then_free ExecUpdate_body_def Let_def NumClear_eq V_return_taken
        intro!: arg_cong2 [where f = rbind] ext split: option.splits)
qed


section \<open>The invariant with the new process\<close>

lemma act_keeps_ok: "kernel_ok k \<Longrightarrow> enabled a k \<Longrightarrow> act a k = Inr (k', ps) \<Longrightarrow> kernel_ok k'"
  using act_ok [of k a] by (auto simp: lands_def)

lemma kernel_ok_started:
  assumes k: "kernel_ok k" "\<not> idling k" and ad: "fresh_addrs ad k"
  shows "kernel_ok (started ad sp m k)"
proof -
  let ?k1 = "k\<lparr>sems := (sems k)(new_joinsem ad \<mapsto> Semaphore_new 0)\<rparr>"
  let ?k2 = "k\<lparr>sems := (sems k)(new_joinsem ad \<mapsto> Semaphore_new 0, new_exitsem ad \<mapsto> Semaphore_new 0)\<rparr>"
  let ?k3 = "k\<lparr>sems := sems k ++ new_sems ad\<rparr>"
  let ?k4 = "?k3\<lparr>machine := m, threads := (threads k)(new_thread ad \<mapsto> Thread_new\<lparr>space := Some sp\<rparr>)\<rparr>"
  note f = ad [unfolded fresh_addrs_def]
  have 1: "kernel_ok ?k1" by (rule act_keeps_ok [OF k(1), of "ANewSem (new_joinsem ad) 0"]) (use f k in auto)
  have 2: "kernel_ok ?k2" by (rule act_keeps_ok [OF 1, of "ANewSem (new_exitsem ad) 0"]) (use f k in auto)
  have 3: "kernel_ok ?k3" by (rule act_keeps_ok [OF 2, of "ANewSem (new_mutex ad) 1"]) (use f k in \<open>auto simp: new_sems_def\<close>)
  have "kernel_ok (?k3\<lparr>machine := m\<rparr>)" using 3 by simp
  then have 4: "kernel_ok ?k4" by (rule act_keeps_ok [of _ "ANewThread (new_thread ad) (Some sp)"]) (use f k in auto)
  show ?thesis
    by (rule act_keeps_ok [OF 4, of "AFork (new_thread ad) exec_func 0"])
      (use k in \<open>auto simp: Fork_child [simplified] started_def Thread_new_def\<close>)
qed

lemma started_sel:
  "dom (sems (started ad sp m k)) = dom (sems k) \<union> {new_joinsem ad, new_exitsem ad, new_mutex ad}"
  "threads (started ad sp m k) (new_thread ad) = Some (child_thread sp)" "t \<noteq> new_thread ad \<Longrightarrow> threads (started ad sp m k) t = threads k t"
  "machine (started ad sp m k) = m" "threadToBeDestroyed (started ad sp m k) = threadToBeDestroyed k"
  "space (child_thread sp) = Some sp" "resume_at (child_thread sp) = AtThreadRoot"
  by (auto simp: started_def new_sems_def child_thread_def StackAllocate_def)

lemma child_pcb_sel [simp]:
  "pcb_thread (child_pcb ad f pid i) = Some (new_thread ad)" "psems (child_pcb ad f pid i) = {new_joinsem ad, new_exitsem ad, new_mutex ad}"
  "parentID (child_pcb ad f pid i) = i" "numwait (child_pcb ad f pid i) = 0" "pID (child_pcb ad f pid i) = pid"
  by (auto simp: child_pcb_def psems_def)

lemma fresh_addrsD:
  assumes "fresh_addrs ad k" "x \<in> {new_joinsem ad, new_exitsem ad, new_mutex ad}"
  shows "sems k x = None" "threads k t = Some th \<Longrightarrow> resume_at th \<noteq> InP x"
  using assms by (auto simp: fresh_addrs_def)

text \<open>A process that was there keeps its thread and its page table.\<close>

lemma old_process:
  assumes "pcb_ok k PT j q" "fresh_addrs ad k" "ptables m = (ptables (machine k))(new_table ad := e)"
  obtains t u su fs where "pcb_thread q = Some t" "t \<noteq> new_thread ad" "threads (started ad sp m k) t = Some u" "space u = Some su"
    "as_pageTable su \<noteq> new_table ad" "space_ok su m fs" "threadToBeDestroyed k \<noteq> Some t"
proof -
  obtain t u su fs where t: "pcb_thread q = Some t" "threads k t = Some u" "space u = Some su" "space_ok su (machine k) fs" "threadToBeDestroyed k \<noteq> Some t"
    using assms(1) unfolding pcb_ok_def by blast
  have ne: "t \<noteq> new_thread ad" using t(2) assms(2) by (auto simp: fresh_addrs_def)
  have tab: "as_pageTable su \<noteq> new_table ad" using t(4) assms(2) by (auto simp: space_ok_def fresh_addrs_def)
  have "space_ok su m fs" using t(4) tab unfolding space_ok_def assms(3) by simp
  then show ?thesis using that [OF t(1) ne _ t(3) tab _ t(5)] t(2) started_sel(3) [OF ne] by simp
qed

lemma pcb_ok_old:
  assumes ok: "pcb_ok k PT j q0" and ad: "fresh_addrs ad k" and m: "ptables m = (ptables (machine k))(new_table ad := e)"
    and q: "pcb_thread q = pcb_thread q0" "psems q = psems q0" "parentID q = parentID q0" "numwait q = int (card (children PT2 j))"
    and P2: "\<And>l. PT l \<noteq> None \<Longrightarrow> PT2 l \<noteq> None"
  shows "pcb_ok (started ad sp m k) PT2 j q"
proof -
  let ?k = "started ad sp m k"
  obtain t u su fs where t: "pcb_thread q0 = Some t" "t \<noteq> new_thread ad" "threads ?k t = Some u" "space u = Some su" "space_ok su m fs" "threadToBeDestroyed k \<noteq> Some t"
    using old_process [OF ok ad m] by metis
  have "\<forall>t th x. threads ?k t = Some th \<and> resume_at th = InP x \<and> x \<in> psems q \<longrightarrow> pcb_thread q = Some t"
  proof (intro allI impI)
    fix t th x
    assume a: "threads ?k t = Some th \<and> resume_at th = InP x \<and> x \<in> psems q"
    then have "t \<noteq> new_thread ad" using started_sel(2) [of ad sp m k] started_sel(7) [of sp] by auto
    then show "pcb_thread q = Some t" using a ok started_sel(3) [of t ad sp m k] unfolding q(1,2) pcb_ok_def by metis
  qed
  moreover have "parentID q = -1 \<or> (\<exists>l. parentID q = int l \<and> l \<noteq> j \<and> PT2 l \<noteq> None)" using ok P2 unfolding q(3) pcb_ok_def by blast
  moreover have "psems q \<subseteq> dom (sems ?k)" using ok unfolding started_sel(1) q(2) pcb_ok_def by blast
  ultimately show ?thesis using t q(4) unfolding pcb_ok_def started_sel(4,5) q(1) by blast
qed

lemma pcb_ok_child:
  assumes ad: "fresh_addrs ad k" and k: "kernel_ok k" and m: "space_ok sp m fs" and P2: "PT2 i \<noteq> None" "i \<noteq> pid" "children PT2 pid = {}"
  shows "pcb_ok (started ad sp m k) PT2 pid (child_pcb ad filename (int pid) (int i))"
proof -
  let ?k = "started ad sp m k"
  have "threadToBeDestroyed k \<noteq> Some (new_thread ad)" using ad k by (auto simp: fresh_addrs_def kernel_ok_def core_ok_def)
  moreover have "t = new_thread ad" if a: "threads ?k t = Some th" "resume_at th = InP x" "x \<in> {new_joinsem ad, new_exitsem ad, new_mutex ad}" for t th x
    using fresh_addrsD(2) [OF ad a(3), of t th] a(1,2) started_sel(3) [of t ad sp m k] by (cases "t = new_thread ad") auto
  ultimately show ?thesis using m P2 started_sel(1,2) [of ad sp m k] started_sel(6) [of sp] unfolding pcb_ok_def started_sel(4,5) by auto
qed

lemma pcb_apart_child:
  assumes ok: "pcb_ok k PT j q0" and ad: "fresh_addrs ad k" and m: "ptables m = (ptables (machine k))(new_table ad := e)" "as_pageTable sp = new_table ad"
    and q: "pcb_thread q = pcb_thread q0" "psems q = psems q0"
  shows "pcb_apart (started ad sp m k) q (child_pcb ad filename pid i) \<and> pcb_apart (started ad sp m k) (child_pcb ad filename pid i) q"
proof -
  obtain t u su where t: "pcb_thread q0 = Some t" "t \<noteq> new_thread ad" "threads (started ad sp m k) t = Some u" "space u = Some su" "as_pageTable su \<noteq> new_table ad"
    using old_process [OF ok ad m(1)] by metis
  have "psems q0 \<inter> {new_joinsem ad, new_exitsem ad, new_mutex ad} = {}"
    using ok fresh_addrsD(1) [OF ad] unfolding pcb_ok_def by fastforce
  then show ?thesis using t m(2) started_sel(2) [of ad sp m k] started_sel(6) [of sp] unfolding pcb_apart_def q child_pcb_sel by auto
qed

lemma children_child:
  assumes "PT pid = None" "PT i = Some p"
  shows "children (PT(pid \<mapsto> child_pcb ad filename (int pid) (int i), i \<mapsto> p\<lparr>numwait := numwait p + 1\<rparr>)) j =
    (if j = i then insert pid (children PT j) else children PT j)"
  using assms by (auto simp: children_def split: if_splits)

lemma shape_started:
  assumes sh: "shape frames k PT" and ad: "fresh_addrs ad k" and k: "kernel_ok k" and pid: "PT pid = None" and i: "PT i = Some p"
    and frames': "bitmap_ok frames'" "nbits frames' = NumPhysPages"
    and m: "ptables m = (ptables (machine k))(new_table ad := e)" "space_ok sp m fs" "as_pageTable sp = new_table ad"
  shows "shape frames' (started ad sp m k) (PT(pid \<mapsto> child_pcb ad filename (int pid) (int i), i \<mapsto> p\<lparr>numwait := numwait p + 1\<rparr>))"
    (is "shape frames' ?k ?P")
proof -
  let ?c = "child_pcb ad filename (int pid) (int i)"
  note chl = children_child [OF pid i, of ad filename]
  have ip: "i \<noteq> pid" using i pid by auto
  have ok: "pcb_ok k PT j q" if "PT j = Some q" for j q using sh that unfolding shape_def by blast
  have fin: "finite (children PT j)" for j
    by (rule finite_subset [of _ "dom PT"]) (use sh in \<open>auto simp: children_def shape_def\<close>)
  have "children PT pid = {}" using ok pid by (fastforce simp: children_def pcb_ok_def)
  then have orphan: "children ?P pid = {}" unfolding chl using ip by simp
  have old: "\<exists>q0. PT j = Some q0 \<and> pcb_thread q = pcb_thread q0 \<and> psems q = psems q0 \<and> parentID q = parentID q0 \<and>
      numwait q = (if j = i then numwait q0 + 1 else numwait q0)" if "?P j = Some q" "j \<noteq> pid" for j q
    using that i by (auto simp: psems_def split: if_splits)
  have "pcb_ok ?k ?P j q" if q: "?P j = Some q" for j q
  proof (cases "j = pid")
    case True
    then show ?thesis using q pcb_ok_child [OF ad k m(2) _ ip orphan, of filename] ip by simp
  next
    case False
    then obtain q0 where q0: "PT j = Some q0" "pcb_thread q = pcb_thread q0" "psems q = psems q0" "parentID q = parentID q0"
      "numwait q = (if j = i then numwait q0 + 1 else numwait q0)" using old [OF q] by blast
    have "pid \<notin> children PT j" using pid by (simp add: children_def)
    then have "numwait q = int (card (children ?P j))" using ok [OF q0(1)] fin [of j] unfolding q0(5) chl pcb_ok_def by (cases "j = i") simp_all
    then show ?thesis by (rule pcb_ok_old [OF ok [OF q0(1)] ad m(1) q0(2-4)]) auto
  qed
  moreover have "pcb_apart ?k q r" if qr: "?P j = Some q" "?P l = Some r" "j \<noteq> l" for j l q r
  proof (cases "j = pid \<or> l = pid")
    case True
    then show ?thesis using qr ip old [OF qr(1)] old [OF qr(2)] pcb_apart_child [OF ok ad m(1,3), of _ _ q filename "int pid" "int i"]
        pcb_apart_child [OF ok ad m(1,3), of _ _ r filename "int pid" "int i"] by (auto split: if_splits)
  next
    case False
    then obtain q0 r0 where q0: "PT j = Some q0" "pcb_thread q = pcb_thread q0" "psems q = psems q0" "PT l = Some r0" "pcb_thread r = pcb_thread r0" "psems r = psems r0"
      using old [OF qr(1)] old [OF qr(2)] by blast
    have "pcb_apart k q0 r0" using sh q0(1,4) qr(3) unfolding shape_def by blast
    moreover obtain t t' where "pcb_thread q0 = Some t" "pcb_thread r0 = Some t'" "t \<noteq> new_thread ad" "t' \<noteq> new_thread ad"
      using old_process [OF ok [OF q0(1)] ad m(1)] old_process [OF ok [OF q0(4)] ad m(1)] by metis
    ultimately show ?thesis using started_sel(3) [of _ ad sp m k] unfolding pcb_apart_def q0(2,3,5,6) by auto
  qed
  ultimately show ?thesis using sh frames' unfolding shape_def by auto
qed


section \<open>Exec\<close>

text \<open>A running process, the mutual exclusion of \<open>ExecUpdate\<close> free, a descriptor for the file.\<close>

definition may_exec :: "Proc \<Rightarrow> bool" where
  "may_exec s \<longleftrightarrow> proc_ok s \<and> \<not> idling (kern s) \<and> sems (kern s) (bmsem (ptab s)) = Some (Semaphore_new 1) \<and>
     (\<exists>d<open_max (host (fsys s)). fds (host (fsys s)) d = None)"

lemma may_execD:
  assumes "may_exec s" "current_process s = Inr (Some i)"
  obtains d p where "proc_ok s" "kernel_ok (kern s)" "\<not> idling (kern s)" "sems (kern s) (bmsem (ptab s)) = Some (Semaphore_new 1)"
    "d < open_max (host (fsys s))" "fds (host (fsys s)) d = None" "pcbs s i = Some p" "marked (pt_bm (ptab s)) \<noteq> {}" "nbits (pt_bm (ptab s)) = MAX_PROCESS"
proof -
  have ok: "proc_ok s" using assms(1) by (simp add: may_exec_def)
  obtain p where "pcbs s i = Some p" using current_process_eq [OF ok] assms(2) by (metis Inr_inject option.inject option.distinct(1))
  moreover from this have "marked (pt_bm (ptab s)) \<noteq> {}" using ok by (auto simp: proc_ok_def)
  ultimately show ?thesis using that assms(1) ok by (auto simp: may_exec_def proc_ok_def)
qed

lemma proc_ok_with_child:
  fixes filename :: string
  assumes ok: "proc_ok s" "\<not> idling (kern s)" and ad: "fresh_addrs ad (kern s)" and i: "pcbs s i = Some p"
    and pid: "pid < MAX_PROCESS" "pcbs s pid = None" and bm: "bitmap_ok bm" "nbits bm = MAX_PROCESS" "marked bm = insert pid (marked (pt_bm (ptab s)))"
    and fr: "bitmap_ok fr" "nbits fr = NumPhysPages"
    and m: "ptables m = (ptables (machine (kern s)))(new_table ad := e)" "space_ok sp m fs" "as_pageTable sp = new_table ad"
  defines "s' \<equiv> with_child ad filename pid i p sp fr m (s\<lparr>ptab := (ptab s)\<lparr>pt_bm := bm\<rparr>\<rparr>)"
  shows "proc_ok s'" "pcbs s' = (pcbs s)(pid \<mapsto> child_pcb ad filename (int pid) (int i), i \<mapsto> p\<lparr>numwait := numwait p + 1\<rparr>)"
proof -
  have len: "length (pcb (ptab s)) = MAX_PROCESS" using ok(1) by (simp add: proc_ok_def)
  have l: "pid < length (pcb (ptab s))" "i < length (pcb (ptab s))" using pid(1) i len by (simp_all add: pcbs_nth)
  show P: "pcbs s' = (pcbs s)(pid \<mapsto> child_pcb ad filename (int pid) (int i), i \<mapsto> p\<lparr>numwait := numwait p + 1\<rparr>)"
    using l by (auto simp: s'_def with_child_def set_cell_def pcbs_def fun_eq_iff nth_list_update split: cell.splits)
  have "shape (gPhysPageBitMap s) (kern s) (pcbs s)" "kernel_ok (kern s)" using ok(1) by (simp_all add: proc_ok_def)
  note sh = shape_started [OF this(1) ad this(2) pid(2) i fr m, of filename] kernel_ok_started [OF this(2) ok(2) ad, of sp m]
  have "CFreed \<notin> set (pcb (ptab s'))"
    using ok(1) by (auto simp: s'_def with_child_def set_cell_def proc_ok_def dest!: set_update_subset_insert [THEN subsetD])
  moreover have "marked bm = dom (pcbs s')" using ok(1) i pid(2) unfolding P bm(3) by (auto simp: proc_ok_def)
  moreover have "kern s' = started ad sp m (kern s)" "pt_bm (ptab s') = bm" "gPhysPageBitMap s' = fr" "length (pcb (ptab s')) = MAX_PROCESS"
    using len by (simp_all add: s'_def with_child_def set_cell_def)
  ultimately show "proc_ok s'" using sh bm(1,2) unfolding proc_ok_def P by simp
qed

text \<open>
  C8: \<open>Exec\<close> starts the program it is given. Called by process \<open>i\<close> with the name of a well-formed executable other than its
  own, while an entry of the table, the frames and a descriptor are free, it returns the identifier of a free entry. Afterwards
  the table has a control block for the child there, whose parent is \<open>i\<close>, and \<open>i\<close> waits for one child more; a new thread is at
  the end of the ready list, in an address space of frames that were free, which hold the program; no other byte of
  memory, no other thread and no file has changed, the invariant holds and the next \<open>Exec\<close> can follow.
\<close>

theorem exec_starts_child:
  assumes s: "may_exec s" "current_process s = Inr (Some i)" and ad: "fresh_addrs ad (kern s)"
    and slot: "dom (pcbs s) \<noteq> {..<MAX_PROCESS}"
    and name: "\<not> strncmp_eq MAX_FILENAME_LEN (t_name s (currentThread (kern s))) filename"
    and exe: "names (host (fsys s)) filename = Some ino" "h = read_header garbage (inodes (host (fsys s)) ino)" "exe_ok (inodes (host (fsys s)) ino) h"
    and room: "BitMap_NumClear (gPhysPageBitMap s) = Inr c" "int (space_size h) \<le> c"
  shows "\<exists>pid p s' sp fs. ExecUpdate ad garbage filename s = Inr (Returns (int pid), s') \<and> may_exec s' \<and>
    pid < MAX_PROCESS \<and> pid \<notin> dom (pcbs s) \<and> pcbs s i = Some p \<and>
    pcbs s' = (pcbs s)(pid \<mapsto> child_pcb ad filename (int pid) (int i), i \<mapsto> p\<lparr>numwait := numwait p + 1\<rparr>) \<and>
    fsys s' = fsys s \<and> currentThread (kern s') = currentThread (kern s) \<and>
    readyList (kern s') = readyList (kern s) @ [new_thread ad] \<and> threads (kern s') = (threads (kern s))(new_thread ad \<mapsto> child_thread sp) \<and>
    space_ok sp (machine (kern s')) fs \<and> numPages sp = space_size h \<and>
    set fs \<inter> marked (gPhysPageBitMap s) = {} \<and> marked (gPhysPageBitMap s') = marked (gPhysPageBitMap s) \<union> set fs \<and>
    (\<forall>y < space_size h * PageSize. mainMemory (machine (kern s')) (vaddr fs y) =
       (if y \<in> seg_range (initData h) then seg_byte (inodes (host (fsys s)) ino) (initData h) y
        else if y \<in> seg_range (code h) then seg_byte (inodes (host (fsys s)) ino) (code h) y else 0)) \<and>
    (\<forall>z. z div PageSize \<notin> set fs \<longrightarrow> mainMemory (machine (kern s')) z = mainMemory (machine (kern s)) z)"
proof -
  obtain d p where d: "proc_ok s" "kernel_ok (kern s)" "\<not> idling (kern s)" "sems (kern s) (bmsem (ptab s)) = Some (Semaphore_new 1)"
    "d < open_max (host (fsys s))" "fds (host (fsys s)) d = None" "pcbs s i = Some p" "marked (pt_bm (ptab s)) \<noteq> {}" "nbits (pt_bm (ptab s)) = MAX_PROCESS"
    by (rule may_execD [OF s])
  have bs: "bitmap_ok (pt_bm (ptab s))" "marked (pt_bm (ptab s)) = dom (pcbs s)" "bitmap_ok (gPhysPageBitMap s)" "nbits (gPhysPageBitMap s) = NumPhysPages"
    "length (pcb (ptab s)) = MAX_PROCESS" using d(1) by (auto simp: proc_ok_def shape_def)
  obtain pid bm where f: "BitMap_Find (pt_bm (ptab s)) = Inr (int pid, bm)" "bitmap_ok bm" "pid < MAX_PROCESS" "pid \<notin> dom (pcbs s)"
    "marked bm = insert pid (marked (pt_bm (ptab s)))" "nbits bm = MAX_PROCESS"
    using find_slot_free [OF bs(1)] slot unfolding bs(2) d(9) by metis
  obtain sp fr m fs where a: "AddrSpace_new garbage (inodes (host (fsys s)) ino) (new_table ad) (gPhysPageBitMap s) (machine (kern s)) = Inr (sp, fr, m)"
    and a1: "as_pageTable sp = new_table ad" "numPages sp = space_size h" "space_ok sp m fs" "bitmap_ok fr" "set fs \<inter> marked (gPhysPageBitMap s) = {}"
      "marked fr = marked (gPhysPageBitMap s) \<union> set fs" "nbits fr = NumPhysPages"
    and a2: "\<forall>y < space_size h * PageSize. mainMemory m (vaddr fs y) =
       (if y \<in> seg_range (initData h) then seg_byte (inodes (host (fsys s)) ino) (initData h) y
        else if y \<in> seg_range (code h) then seg_byte (inodes (host (fsys s)) ino) (code h) y else 0)"
      "\<forall>z. z div PageSize \<notin> set fs \<longrightarrow> mainMemory m z = mainMemory (machine (kern s)) z"
    and a3: "m = (machine (kern s))\<lparr>mainMemory := mainMemory m, ptables := (ptables (machine (kern s)))(new_table ad := ptables m (new_table ad))\<rparr>"
    using AddrSpace_new_ok [OF bs(3,4) exe(2,3) room, of "new_table ad" "machine (kern s)"] by auto
  have pt: "ptables m = (ptables (machine (kern s)))(new_table ad := ptables m (new_table ad))" by (subst a3) simp
  let ?s1 = "s\<lparr>kern := (kern s)\<lparr>sems := (sems (kern s))(bmsem (ptab s) \<mapsto> Semaphore_new 0)\<rparr>, ptab := (ptab s)\<lparr>pt_bm := bm\<rparr>\<rparr>"
  define s' where "s' = with_child ad filename pid i p sp fr m (s\<lparr>ptab := (ptab s)\<lparr>pt_bm := bm\<rparr>\<rparr>)"
  have i: "i < length (pcb (ptab s))" "pcb (ptab s) ! i = CObj p" "i \<noteq> pid" using d(7) f(4) by (auto simp: pcbs_nth)
  have fa: "fresh_addrs ad (kern ?s1)" using ad d(4) by (auto simp: fresh_addrs_def)
  have "Exec_entry ad garbage filename (int pid) (int i) ?s1 = Inr (Returns (int pid), s')"
    using Exec_entry_child [of ?s1 filename ino d garbage ad sp fr m pid i p] exe(1) d(5,6) a f(3) i bs(5) fa
    by (simp add: s'_def restore_sem [OF d(4)])
  then have x: "ExecUpdate ad garbage filename s = Inr (Returns (int pid), s')"
    using ExecUpdate_opens [OF d(4) exe(1) d(5,6,8,9), of ad garbage] name s(2) f(1) by simp
  note ok = proc_ok_with_child [OF d(1,3) ad d(7) f(3) _ f(2,6,5) a1(4,7) pt a1(3,1), of filename, folded s'_def]
  have sel: "fsys s' = fsys s" "kern s' = started ad sp m (kern s)" "gPhysPageBitMap s' = fr" "bmsem (ptab s') = bmsem (ptab s)"
    by (simp_all add: s'_def with_child_def set_cell_def)
  have "sems (kern s') (bmsem (ptab s')) = Some (Semaphore_new 1)" "\<not> idling (kern s')"
    using ad d(3,4) unfolding sel by (auto simp: started_def new_sems_def fresh_addrs_def)
  then have "may_exec s'" using ok(1) f(4) d(5,6) unfolding may_exec_def sel(1) by blast
  then show ?thesis using x f(3,4) ok(2) d(7) a1 a2 sel
    by (intro exI [of _ pid] exI [of _ p] exI [of _ s'] exI [of _ sp] exI [of _ fs]) (auto simp: started_def)
qed


text \<open>Process 1 of the two demonstration processes runs, with a small executable on the host.\<close>

definition exec_fs :: FileSystem where
  "exec_fs = FileSystem_new \<lparr>names = [''tiny'' \<mapsto> 0], inodes = (\<lambda>_. tiny_exe), next_inode = 1, fds = Map.empty, open_max = 16\<rparr>"

definition exec_proc :: Proc where
  "exec_proc = demo_proc\<lparr>fsys := exec_fs\<rparr>"

definition exec_addrs :: Addrs where
  "exec_addrs = \<lparr>new_joinsem = 10, new_exitsem = 11, new_mutex = 12, new_thread = 13, new_table = 14\<rparr>"

lemma exec_proc_may: "may_exec exec_proc" "current_process exec_proc = Inr (Some 1)" "fresh_addrs exec_addrs (kern exec_proc)"
  "dom (pcbs exec_proc) \<noteq> {..<MAX_PROCESS}" "\<not> strncmp_eq MAX_FILENAME_LEN (t_name exec_proc (currentThread (kern exec_proc))) ''tiny''"
  "names (host (fsys exec_proc)) ''tiny'' = Some 0" "inodes (host (fsys exec_proc)) 0 = tiny_exe"
proof -
  have "proc_ok exec_proc" using demo_proc_ok by (simp add: exec_proc_def proc_ok_def)
  moreover have "\<exists>d<open_max (host exec_fs). fds (host exec_fs) d = None" by (auto simp: exec_fs_def FileSystem_new_def intro: exI [of _ 0])
  moreover have "sems (kern exec_proc) (bmsem (ptab exec_proc)) = Some (Semaphore_new 1)" "\<not> idling (kern exec_proc)" "fsys exec_proc = exec_fs"
    by (simp_all add: exec_proc_def demo_proc_def demo_kernel_def demo_sems_def)
  ultimately show "may_exec exec_proc" by (simp add: may_exec_def)
  show "current_process exec_proc = Inr (Some 1)" using demo_running(2) by (simp add: exec_proc_def current_process_def)
  show "fresh_addrs exec_addrs (kern exec_proc)"
    by (auto simp: fresh_addrs_def exec_addrs_def exec_proc_def demo_proc_def demo_kernel_def demo_sems_def demo_thread_def two_spaces_def split: if_splits)
  have "9 \<notin> dom (pcbs exec_proc)" by (simp add: exec_proc_def demo_pcbs)
  then show "dom (pcbs exec_proc) \<noteq> {..<MAX_PROCESS}" by auto
  show "\<not> strncmp_eq MAX_FILENAME_LEN (t_name exec_proc (currentThread (kern exec_proc))) ''tiny''"
    by (simp add: strncmp_eq_def exec_proc_def demo_proc_def)
  show "names (host (fsys exec_proc)) ''tiny'' = Some 0" "inodes (host (fsys exec_proc)) 0 = tiny_exe"
    by (simp_all add: exec_proc_def exec_fs_def FileSystem_new_def)
qed

lemma exec_proc_room: "\<exists>c. BitMap_NumClear (gPhysPageBitMap exec_proc) = Inr c \<and> int (space_size tiny_header) \<le> c"
proof -
  have "marked (gPhysPageBitMap exec_proc) \<subseteq> {..<32}"
    by (auto simp: marked_def nbits_def bit_on_def exec_proc_def demo_proc_def nth_Cons' split: if_splits)
  then have "card (marked (gPhysPageBitMap exec_proc)) \<le> 32" using card_mono [of "{..<32::nat}"] by fastforce
  moreover have "nbits (gPhysPageBitMap exec_proc) = 128" by (simp add: exec_proc_def demo_proc_def nbits_def)
  ultimately show ?thesis by (simp add: NumClear_eq tiny_ok(2))
qed

theorem exec_starts_child_witness:
  "\<exists>pid s'. ExecUpdate exec_addrs (\<lambda>_. 0) ''tiny'' exec_proc = Inr (Returns (int pid), s') \<and> may_exec s' \<and> 2 \<le> pid \<and> readyList (kern s') = [13]"
proof -
  obtain c where c: "BitMap_NumClear (gPhysPageBitMap exec_proc) = Inr c" "int (space_size tiny_header) \<le> c" using exec_proc_room by blast
  have e: "tiny_header = read_header (\<lambda>_. 0) (inodes (host (fsys exec_proc)) 0)" "exe_ok (inodes (host (fsys exec_proc)) 0) tiny_header"
    unfolding exec_proc_may(7) by (simp_all add: tiny_read tiny_ok)
  obtain pid s' where "ExecUpdate exec_addrs (\<lambda>_. 0) ''tiny'' exec_proc = Inr (Returns (int pid), s')" "may_exec s'" "pid \<notin> dom (pcbs exec_proc)"
    "readyList (kern s') = readyList (kern exec_proc) @ [new_thread exec_addrs]"
    using exec_starts_child [OF exec_proc_may(1-6) e c] by blast
  moreover from this have "2 \<le> pid" by (cases "pid = 0"; cases "pid = 1") (auto simp: exec_proc_def demo_pcbs)
  moreover have "readyList (kern exec_proc) = []" by (simp add: exec_proc_def demo_proc_def demo_kernel_def)
  ultimately show ?thesis by (auto simp: exec_addrs_def)
qed

text \<open>
  An \<open>Exec\<close> that is refused (there is no such file, a program starts itself by name, or all ten entries are in
  use) returns -1 and changes nothing.
\<close>

theorem exec_refuses:
  assumes s: "may_exec s" "current_process s = Inr (Some i)"
    and why: "names (host (fsys s)) filename = None \<or> strncmp_eq MAX_FILENAME_LEN (t_name s (currentThread (kern s))) filename \<or> dom (pcbs s) = {..<MAX_PROCESS}"
  shows "ExecUpdate ad garbage filename s = Inr (Returns (-1), s)"
proof -
  obtain d p where d: "proc_ok s" "sems (kern s) (bmsem (ptab s)) = Some (Semaphore_new 1)"
    "d < open_max (host (fsys s))" "fds (host (fsys s)) d = None" "marked (pt_bm (ptab s)) \<noteq> {}" "nbits (pt_bm (ptab s)) = MAX_PROCESS"
    using may_execD [OF s] by metis
  show ?thesis
  proof (cases "names (host (fsys s)) filename")
    case None
    then show ?thesis using d(2) by (simp add: ExecUpdate_def P_then_free ExecUpdate_body_def Let_def Open_missing V_return_taken restore_sem)
  next
    case (Some ino)
    have "dom (pcbs s) = {..<MAX_PROCESS} \<Longrightarrow> BitMap_Find (pt_bm (ptab s)) = Inr (-1, pt_bm (ptab s))"
      using d(1,6) by (intro find_slot_full) (simp add: proc_ok_def)
    then show ?thesis using why Some s(2) by (auto simp: ExecUpdate_opens [OF d(2) Some d(3-6)])
  qed
qed

theorem exec_refuses_witness: "ExecUpdate exec_addrs (\<lambda>_. 0) ''none'' exec_proc = Inr (Returns (-1), exec_proc)"
  by (rule exec_refuses [OF exec_proc_may(1,2)]) (simp add: exec_proc_def exec_fs_def FileSystem_new_def)


section \<open>The end of the table\<close>

lemma delete_pcbs_eq:
  "CFreed \<notin> set cs \<Longrightarrow> delete_pcbs cs k = Inr (k\<lparr>sems := sems k |` (- (\<Union>p \<in> {p. CObj p \<in> set cs}. psems p))\<rparr>)"
proof (induction cs k rule: delete_pcbs.induct)
  case (4 p cs k)
  have "(\<Union>q \<in> {q. CObj q \<in> set (CObj p # cs)}. psems q) = psems p \<union> (\<Union>q \<in> {q. CObj q \<in> set cs}. psems q)" by auto
  then show ?case using 4 by (simp add: PCB_delete_restrict Compl_Un)
qed (auto simp: restrict_map_def intro!: Kernel.equality)

text \<open>The destructor deletes the semaphores of the table and of every process, and no other.\<close>

lemma PTable_delete_ok:
  assumes "proc_ok s"
  shows "PTable_delete (ptab s) (kern s) =
    Inr ((kern s)\<lparr>sems := sems (kern s) |` (- insert (bmsem (ptab s)) (\<Union>p \<in> ran (pcbs s). psems p))\<rparr>)"
proof -
  have r: "{p. CObj p \<in> set (pcb (ptab s))} = ran (pcbs s)" by (auto simp: ran_def pcbs_nth in_set_conv_nth)
  have c: "CFreed \<notin> set (pcb (ptab s))" using assms by (simp add: proc_ok_def)
  have e: "sems ((kern s)\<lparr>sems := (sems (kern s))(b := None)\<rparr>) |` (- S) = sems (kern s) |` (- insert b S)" for b S
    by (auto simp: restrict_map_def fun_eq_iff)
  show ?thesis unfolding PTable_delete_def delete_pcbs_eq [OF c] r e by simp
qed

section \<open>The first process\<close>

lemma InitRegisters_total: "\<exists>m1. InitRegisters sp m = Inr m1"
  unfolding InitRegisters_def iter_WriteRegister [OF le_refl] by (simp add: WriteRegister_def)

lemma PCB_Exec_first:
  assumes fl: "names (host (fsys s)) filename = Some ino" "d < open_max (host (fsys s))" "fds (host (fsys s)) d = None"
    and load: "AddrSpace_new garbage (inodes (host (fsys s)) ino) (new_table ad) (gPhysPageBitMap s) (machine (kern s)) = Inr (sp, fr, m)"
    and p: "pcb (ptab s) ! 0 = CObj p" "0 < length (pcb (ptab s))" "PCB_new ad k0 = (p, k)" and k: "sems (kern s) (new_mutex ad) = Some (Semaphore_new 1)"
    and cur: "threads (kern s) (currentThread (kern s)) \<noteq> None" "new_thread ad \<noteq> currentThread (kern s)"
  shows "\<exists>s'. PCB_Exec ad garbage filename 0 (-1) s = Inr (Returns 0, s')"
proof -
  obtain e h where o: "FileSystem_Open 0 filename (fsys s) = Inr (Some e, (fsys s)\<lparr>host := h\<rparr>)" "content h (host_fd e) = inodes (host (fsys s)) ino"
    "OpenFile_delete e h = Inr (host (fsys s))" by (rule Open_exists [OF fl])
  have p': "pcb_thread p = None" "mutex p = new_mutex ad" using p(3) by (auto simp: PCB_new_def)
  obtain m1 where m1: "InitRegisters sp m = Inr m1" using InitRegisters_total by blast
  show ?thesis
    using p(1,2) k cur o load m1
    by (auto simp: PCB_Exec_def pcb_at_def P_then_free PCB_Exec_body_def p' Let_def setStatus_def upd_thread_def thread_of_def
        Thread_delete_def start_space_def V_return_taken)
qed

text \<open>
  C31: the first \<open>ExecUpdate\<close>, which starts the program named on the command line, has no parent: \<open>parentid\<close> is -1, and once
  the program is loaded \<open>pcb[parentid]->IncNumWait()\<close> accesses the table before its first entry.
\<close>

theorem first_exec_out_of_bounds:
  assumes k: "sems (kern s) (bmsem (ptab s)) = Some (Semaphore_new 1)" "fresh_addrs ad (kern s)" "threads (kern s) (currentThread (kern s)) \<noteq> None"
    and t: "bitmap_ok (pt_bm (ptab s))" "nbits (pt_bm (ptab s)) = MAX_PROCESS" "marked (pt_bm (ptab s)) = {}" "length (pcb (ptab s)) = MAX_PROCESS"
    and fr: "bitmap_ok (gPhysPageBitMap s)" "nbits (gPhysPageBitMap s) = NumPhysPages"
    and exe: "names (host (fsys s)) filename = Some ino" "h = read_header garbage (inodes (host (fsys s)) ino)" "exe_ok (inodes (host (fsys s)) ino) h"
    and room: "BitMap_NumClear (gPhysPageBitMap s) = Inr c" "int (space_size h) \<le> c" "d < open_max (host (fsys s))" "fds (host (fsys s)) d = None"
  shows "ExecUpdate ad garbage filename s = Inl OutOfBounds"
proof -
  obtain sp f m where a: "AddrSpace_new garbage (inodes (host (fsys s)) ino) (new_table ad) (gPhysPageBitMap s) (machine (kern s)) = Inr (sp, f, m)"
    using AddrSpace_new_ok [OF fr exe(2,3) room(1,2), of "new_table ad" "machine (kern s)"] by blast
  obtain e h' where o: "FileSystem_Open 0 filename (fsys s) = Inr (Some e, (fsys s)\<lparr>host := h'\<rparr>)" "OpenFile_delete e h' = Inr (host (fsys s))"
    by (rule Open_exists [OF exe(1) room(3,4)])
  obtain bm where bm: "BitMap_Mark (pt_bm (ptab s)) 0 = Inr bm" using mark_ok [OF t(1), of 0] t(2) by auto
  obtain q k1 where q: "PCB_new ad (kern s\<lparr>sems := (sems (kern s))(bmsem (ptab s) \<mapsto> Semaphore_new 0)\<rparr>) = (q, k1)" by fastforce
  let ?s = "(set_cell 0 (CObj q) (s\<lparr>ptab := (ptab s)\<lparr>pt_bm := bm\<rparr>\<rparr>))\<lparr>kern := k1\<rparr>"
  have k1: "sems k1 (new_mutex ad) = Some (Semaphore_new 1)" "threads k1 = threads (kern s)" "currentThread k1 = currentThread (kern s)" "machine k1 = machine (kern s)"
    using q by (auto simp: PCB_new_def)
  have "new_thread ad \<noteq> currentThread (kern s)" using k(2,3) by (auto simp: fresh_addrs_def)
  then obtain s' where x: "PCB_Exec ad garbage filename 0 (-1) ?s = Inr (Returns 0, s')"
    using PCB_Exec_first [of ?s filename ino d garbage ad sp f m q _ k1] exe(1) room(3,4) a k(3) k1 t(4) q by (fastforce simp: set_cell_def)
  show ?thesis
    using k(1) o t(2,3) bm q x by (simp add: ExecUpdate_def P_then_free ExecUpdate_body_def Let_def NumClear_eq Exec_entry_def IncNumWait_def upd_pcb_def pcb_at_def)
qed


definition boot_proc :: Proc where
  "boot_proc = \<lparr>ptab = \<lparr>pt_bm = \<lparr>numBits = 10, numWords = 1, bmap = [0]\<rparr>, pcb = replicate 10 CNull, bmsem = 7\<rparr>, kern = kernel1,
     fsys = exec_fs, gPhysPageBitMap = \<lparr>numBits = 128, numWords = 4, bmap = [0, 0, 0, 0]\<rparr>, t_name = (\<lambda>_. ''main'')\<rparr>"

theorem first_exec_out_of_bounds_witness: "ExecUpdate exec_addrs (\<lambda>_. 0) ''tiny'' boot_proc = Inl OutOfBounds"
proof -
  have k: "sems (kern boot_proc) (bmsem (ptab boot_proc)) = Some (Semaphore_new 1)" "fresh_addrs exec_addrs (kern boot_proc)"
    "threads (kern boot_proc) (currentThread (kern boot_proc)) \<noteq> None"
    by (auto simp: boot_proc_def kernel1_def kernel0_def fresh_addrs_def exec_addrs_def Machine_new_def Thread_new_def split: if_splits)
  have t: "bitmap_ok (pt_bm (ptab boot_proc))" "nbits (pt_bm (ptab boot_proc)) = MAX_PROCESS" "marked (pt_bm (ptab boot_proc)) = {}"
    "length (pcb (ptab boot_proc)) = MAX_PROCESS" "bitmap_ok (gPhysPageBitMap boot_proc)" "nbits (gPhysPageBitMap boot_proc) = NumPhysPages"
    by (auto simp: boot_proc_def bitmap_ok_def nbits_def marked_def bit_on_def divRoundUp_def c_arith)
  have "marked (gPhysPageBitMap boot_proc) = {}"
    by (auto simp: boot_proc_def marked_def nbits_def bit_on_def nth_Cons' split: if_splits)
  then have r: "BitMap_NumClear (gPhysPageBitMap boot_proc) = Inr 128" "int (space_size tiny_header) \<le> 128"
    using t(6) by (simp_all add: NumClear_eq tiny_ok(2))
  have e: "names (host (fsys boot_proc)) ''tiny'' = Some 0" "tiny_header = read_header (\<lambda>_. 0) (inodes (host (fsys boot_proc)) 0)"
    "exe_ok (inodes (host (fsys boot_proc)) 0) tiny_header" "0 < open_max (host (fsys boot_proc))" "fds (host (fsys boot_proc)) 0 = None"
    by (simp_all add: boot_proc_def exec_fs_def FileSystem_new_def tiny_read tiny_ok)
  show ?thesis by (rule first_exec_out_of_bounds [OF k t e(1-3) r e(4,5)])
qed

end
