(* ===== verification/Sem_Table.thy ===== *)
theory Sem_Table
  imports Threads
begin

text \<open>
  The named semaphores of user programs: \<open>threads/sem.cc\<close> (a semaphore with a name) and
  \<open>threads/stable.cc\<close> (the table of ten of them, with a bitmap of the entries in use). The
  semaphores themselves are those of \<open>Threads\<close>, found by their address.
\<close>

section \<open>Named semaphores\<close>

abbreviation MAX_SEMNAME_LEN :: nat where "MAX_SEMNAME_LEN \<equiv> 255"
abbreviation MAX_LOCK :: nat where "MAX_LOCK \<equiv> 10"

record Sem =
  sem_name :: string
  sem_ptr :: "nat option"
  isExist :: bool

text \<open>
  The constructor; \<open>addr\<close> is the address of the new semaphore. Its test \<open>name == NULL\<close> is on the
  member array, which is never null.
\<close>

definition Sem_new :: "string \<Rightarrow> int \<Rightarrow> nat \<Rightarrow> Kernel \<Rightarrow> Sem \<times> Kernel" where
  "Sem_new semname i addr k =
     (if i < 0 then (\<lparr>sem_name = [], sem_ptr = None, isExist = False\<rparr>, k)
      else (\<lparr>sem_name = take MAX_SEMNAME_LEN semname, sem_ptr = Some addr, isExist = True\<rparr>,
            k\<lparr>sems := (sems k)(addr \<mapsto> Semaphore_new i)\<rparr>))"

definition Sem_delete :: "Sem \<Rightarrow> Kernel \<Rightarrow> Kernel" where
  "Sem_delete s k = (case sem_ptr s of None \<Rightarrow> k | Some a \<Rightarrow> k\<lparr>sems := (sems k)(a := None)\<rparr>)"

definition Sem_wait :: "Sem \<Rightarrow> Kernel \<Rightarrow> (Kernel \<times> passes) res" where
  "Sem_wait s k = (case sem_ptr s of None \<Rightarrow> Inl NullDeref | Some a \<Rightarrow> P a k)"

definition Sem_signal :: "Sem \<Rightarrow> Kernel \<Rightarrow> Kernel res" where
  "Sem_signal s k = (case sem_ptr s of None \<Rightarrow> Inl NullDeref | Some a \<Rightarrow> V a k)"

section \<open>The table\<close>

record STable =
  st_bm :: BitMap
  lockTab :: "Sem cell list"

definition STable_new :: "(nat \<Rightarrow> 32 word) \<Rightarrow> STable res" where
  "STable_new mem = rbind (BitMap_new mem (int MAX_LOCK)) (\<lambda>bm. Inr \<lparr>st_bm = bm, lockTab = replicate MAX_LOCK CNull\<rparr>)"

fun delete_loop :: "Sem cell list \<Rightarrow> Kernel \<Rightarrow> Kernel res" where
  "delete_loop [] k = Inr k"
| "delete_loop (CNull # cs) k = delete_loop cs k"
| "delete_loop (CFreed # cs) k = Inl BadPointer"
| "delete_loop (CObj s # cs) k = delete_loop cs (Sem_delete s k)"

definition STable_delete :: "STable \<Rightarrow> Kernel \<Rightarrow> Kernel res" where
  "STable_delete st k = delete_loop (lockTab st) k"

text \<open>The loop all three operations have: the first entry with the name, from entry \<open>i\<close> on.\<close>

fun sem_search :: "Sem cell list \<Rightarrow> string \<Rightarrow> nat \<Rightarrow> nat option res" where
  "sem_search [] name i = Inr None"
| "sem_search (CNull # cs) name i = sem_search cs name (Suc i)"
| "sem_search (CFreed # cs) name i = Inl BadPointer"
| "sem_search (CObj s # cs) name i =
     (if strncmp_eq MAX_SEMNAME_LEN (sem_name s) name then Inr (Some i) else sem_search cs name (Suc i))"

text \<open>The branch of a failed constructor deletes the object and leaves the pointer in the table.\<close>

definition STable_create :: "string \<Rightarrow> int \<Rightarrow> nat \<Rightarrow> STable \<Rightarrow> Kernel \<Rightarrow> (int \<times> STable \<times> Kernel) res" where
  "STable_create name init addr st k =
     (if init < 0 then Inr (-1, st, k)
      else rbind (sem_search (lockTab st) name 0) (\<lambda>found.
        if found \<noteq> None then Inr (-1, st, k)
        else rbind (BitMap_Find (st_bm st)) (\<lambda>(id, bm).
          if id = -1 then Inr (-1, st\<lparr>st_bm := bm\<rparr>, k)
          else let (s, k') = Sem_new name init addr k
               in if isExist s then Inr (0, \<lparr>st_bm = bm, lockTab = (lockTab st)[nat id := CObj s]\<rparr>, k')
                  else rbind (BitMap_Clear bm id) (\<lambda>bm'.
                    Inr (-1, \<lparr>st_bm = bm', lockTab = (lockTab st)[nat id := CFreed]\<rparr>, Sem_delete s k')))))"

text \<open>
  \<open>wait\<close>: the value returned, or \<open>None\<close> when the caller went to sleep in \<open>P\<close>; it then returns 0
  once its \<open>P\<close> has passed.
\<close>

definition STable_wait :: "string \<Rightarrow> STable \<Rightarrow> Kernel \<Rightarrow> (int option \<times> Kernel \<times> passes) res" where
  "STable_wait name st k =
     rbind (sem_search (lockTab st) name 0) (\<lambda>found. case found of
       None \<Rightarrow> Inr (Some (-1), k, [])
     | Some i \<Rightarrow> rbind (cell_deref (lockTab st ! i)) (\<lambda>s. rbind (Sem_wait s k) (\<lambda>(k', ps).
         Inr (if currentThread k \<in> fst ` set ps then Some 0 else None, k', ps))))"

definition STable_signal :: "string \<Rightarrow> STable \<Rightarrow> Kernel \<Rightarrow> (int \<times> Kernel) res" where
  "STable_signal name st k =
     rbind (sem_search (lockTab st) name 0) (\<lambda>found. case found of
       None \<Rightarrow> Inr (-1, k)
     | Some i \<Rightarrow> rbind (cell_deref (lockTab st ! i)) (\<lambda>s. rbind (Sem_signal s k) (\<lambda>k'. Inr (0, k'))))"

section \<open>The table as a map from names to semaphores\<close>

definition sem_entry :: "Sem cell \<Rightarrow> (string \<times> nat) option" where
  "sem_entry c = (case c of CObj s \<Rightarrow> Some (sem_name s, the (sem_ptr s)) | _ \<Rightarrow> None)"

definition sem_list :: "STable \<Rightarrow> (string \<times> nat) list" where
  "sem_list st = List.map_filter sem_entry (lockTab st)"

text \<open>Only the first 255 characters of a name count.\<close>

definition sem_map :: "STable \<Rightarrow> string \<rightharpoonup> nat" where
  "sem_map st name = map_of (sem_list st) (take MAX_SEMNAME_LEN name)"

definition cell_ok :: "Sem cell \<Rightarrow> bool" where
  "cell_ok c = (case c of CNull \<Rightarrow> True | CFreed \<Rightarrow> False
     | CObj s \<Rightarrow> isExist s \<and> sem_ptr s \<noteq> None \<and> length (sem_name s) \<le> MAX_SEMNAME_LEN)"

definition st_ok :: "STable \<Rightarrow> Kernel \<Rightarrow> bool" where
  "st_ok st k \<longleftrightarrow> bitmap_ok (st_bm st) \<and> nbits (st_bm st) = MAX_LOCK \<and> length (lockTab st) = MAX_LOCK \<and>
     (\<forall>c\<in>set (lockTab st). cell_ok c) \<and> marked (st_bm st) = {i. i < MAX_LOCK \<and> lockTab st ! i \<noteq> CNull} \<and>
     distinct (map fst (sem_list st)) \<and> distinct (map snd (sem_list st)) \<and>
     (\<forall>a\<in>snd ` set (sem_list st). sems k a \<noteq> None)"

lemma map_filter_Cons: "List.map_filter f (x # xs) = (case f x of None \<Rightarrow> List.map_filter f xs | Some y \<Rightarrow> y # List.map_filter f xs)"
  by (simp add: List.map_filter_def split: option.splits)

lemma map_filter_append: "List.map_filter f (xs @ ys) = List.map_filter f xs @ List.map_filter f ys"
  by (simp add: List.map_filter_def)

lemma sem_search_eq:
  assumes "\<forall>c\<in>set cs. cell_ok c"
  shows "\<exists>r. sem_search cs name i = Inr r \<and>
    (case r of None \<Rightarrow> map_of (List.map_filter sem_entry cs) (take MAX_SEMNAME_LEN name) = None
     | Some j \<Rightarrow> i \<le> j \<and> j < i + length cs \<and> (\<exists>s. cs ! (j - i) = CObj s \<and> sem_ptr s \<noteq> None \<and>
         map_of (List.map_filter sem_entry cs) (take MAX_SEMNAME_LEN name) = sem_ptr s))"
  using assms
proof (induction cs name i rule: sem_search.induct)
  case (4 s cs name i)
  have s: "isExist s" "\<exists>a. sem_ptr s = Some a" "length (sem_name s) \<le> MAX_SEMNAME_LEN"
    using "4.prems" by (auto simp: cell_ok_def)
  show ?case
  proof (cases "strncmp_eq MAX_SEMNAME_LEN (sem_name s) name")
    case True
    then have "sem_name s = take MAX_SEMNAME_LEN name" using s(3) by (simp add: strncmp_eq_def)
    then show ?thesis using True s(2) by (auto simp: map_filter_Cons sem_entry_def)
  next
    case False
    then have "sem_name s \<noteq> take MAX_SEMNAME_LEN name" using s(3) by (auto simp: strncmp_eq_def)
    then have "map_of (List.map_filter sem_entry (CObj s # cs)) (take MAX_SEMNAME_LEN name) = map_of (List.map_filter sem_entry cs) (take MAX_SEMNAME_LEN name)"
      by (simp add: map_filter_Cons sem_entry_def)
    moreover obtain r where "sem_search cs name (Suc i) = Inr r \<and> (case r of None \<Rightarrow> map_of (List.map_filter sem_entry cs) (take MAX_SEMNAME_LEN name) = None
     | Some j \<Rightarrow> Suc i \<le> j \<and> j < Suc i + length cs \<and> (\<exists>s. cs ! (j - Suc i) = CObj s \<and> sem_ptr s \<noteq> None \<and>
         map_of (List.map_filter sem_entry cs) (take MAX_SEMNAME_LEN name) = sem_ptr s))"
      using "4.IH" [OF False] "4.prems" by auto
    ultimately show ?thesis using False by (intro exI [of _ r]) (auto simp: nth_Cons' Suc_diff_le split: option.splits)
  qed
next
  case (2 cs name i)
  then obtain r where "sem_search cs name (Suc i) = Inr r \<and> (case r of None \<Rightarrow> map_of (List.map_filter sem_entry cs) (take MAX_SEMNAME_LEN name) = None
     | Some j \<Rightarrow> Suc i \<le> j \<and> j < Suc i + length cs \<and> (\<exists>s. cs ! (j - Suc i) = CObj s \<and> sem_ptr s \<noteq> None \<and>
         map_of (List.map_filter sem_entry cs) (take MAX_SEMNAME_LEN name) = sem_ptr s))" by auto
  then show ?case by (intro exI [of _ r]) (auto simp: nth_Cons' Suc_diff_le map_filter_Cons sem_entry_def split: option.splits)
qed (auto simp: cell_ok_def List.map_filter_def)

lemma st_ok_search:
  assumes "st_ok st k"
  shows "\<exists>r. sem_search (lockTab st) name 0 = Inr r \<and>
    (case r of None \<Rightarrow> sem_map st name = None
     | Some j \<Rightarrow> j < MAX_LOCK \<and> (\<exists>s. lockTab st ! j = CObj s \<and> sem_ptr s \<noteq> None \<and> sem_map st name = sem_ptr s))"
proof -
  have l: "length (lockTab st) = MAX_LOCK" and c: "\<forall>c\<in>set (lockTab st). cell_ok c" using assms by (simp_all add: st_ok_def)
  obtain r where "sem_search (lockTab st) name 0 = Inr r" "case r of None \<Rightarrow> sem_map st name = None
     | Some j \<Rightarrow> 0 \<le> j \<and> j < 0 + length (lockTab st) \<and> (\<exists>s. lockTab st ! (j - 0) = CObj s \<and> sem_ptr s \<noteq> None \<and> sem_map st name = sem_ptr s)"
    using sem_search_eq [OF c, of name 0] unfolding sem_map_def sem_list_def by blast
  then show ?thesis unfolding l by (cases r) auto
qed

lemma st_ok_search_None:
  assumes "st_ok st k" "sem_map st name = None"
  shows "sem_search (lockTab st) name 0 = Inr None"
proof -
  obtain r where r: "sem_search (lockTab st) name 0 = Inr r" "case r of None \<Rightarrow> sem_map st name = None
     | Some j \<Rightarrow> j < MAX_LOCK \<and> (\<exists>s. lockTab st ! j = CObj s \<and> sem_ptr s \<noteq> None \<and> sem_map st name = sem_ptr s)"
    using st_ok_search [OF assms(1), of name] by blast
  then show ?thesis using assms(2) by (cases r) auto
qed

lemma st_ok_search_Some:
  assumes "st_ok st k" "sem_map st name = Some a"
  shows "\<exists>j s. sem_search (lockTab st) name 0 = Inr (Some j) \<and> j < MAX_LOCK \<and> lockTab st ! j = CObj s \<and> sem_ptr s = Some a"
proof -
  obtain r where r: "sem_search (lockTab st) name 0 = Inr r" "case r of None \<Rightarrow> sem_map st name = None
     | Some j \<Rightarrow> j < MAX_LOCK \<and> (\<exists>s. lockTab st ! j = CObj s \<and> sem_ptr s \<noteq> None \<and> sem_map st name = sem_ptr s)"
    using st_ok_search [OF assms(1), of name] by blast
  then show ?thesis using assms(2) by (cases r) auto
qed

lemma sem_map_live: "st_ok st k \<Longrightarrow> sem_map st name = Some a \<Longrightarrow> sems k a \<noteq> None"
  by (auto simp: st_ok_def sem_map_def dest!: map_of_SomeD)

lemma map_of_insert: "nm \<notin> fst ` set (A @ B) \<Longrightarrow> map_of (A @ (nm, a) # B) = (map_of (A @ B))(nm \<mapsto> a)"
  by (auto simp: map_add_def fun_eq_iff map_of_eq_None_iff split: option.splits) (force dest: map_of_SomeD)+

section \<open>Creating\<close>

lemma insert_entry:
  assumes "i < length tab" "tab ! i = CNull"
  shows "\<exists>A B. List.map_filter sem_entry tab = A @ B \<and> List.map_filter sem_entry (tab[i := CObj s]) = A @ (sem_name s, the (sem_ptr s)) # B"
proof -
  have t: "tab = take i tab @ CNull # drop (Suc i) tab" using assms by (metis id_take_nth_drop)
  have "List.map_filter sem_entry tab = List.map_filter sem_entry (take i tab) @ List.map_filter sem_entry (drop (Suc i) tab)"
    by (subst t) (simp add: map_filter_append map_filter_Cons sem_entry_def)
  moreover have "tab[i := CObj s] = take i tab @ CObj s # drop (Suc i) tab" using assms(1) by (rule upd_conv_take_nth_drop)
  then have "List.map_filter sem_entry (tab[i := CObj s]) = List.map_filter sem_entry (take i tab) @ (sem_name s, the (sem_ptr s)) # List.map_filter sem_entry (drop (Suc i) tab)"
    by (simp add: map_filter_append map_filter_Cons sem_entry_def)
  ultimately show ?thesis by blast
qed

lemma create_ok:
  assumes ok: "st_ok st k" and init: "0 \<le> init" and none: "sem_map st name = None" and room: "marked (st_bm st) \<noteq> {..<MAX_LOCK}"
    and addr: "sems k addr = None"
  defines "k' \<equiv> k\<lparr>sems := (sems k)(addr \<mapsto> Semaphore_new init)\<rparr>"
  shows "\<exists>st'. STable_create name init addr st k = Inr (0, st', k') \<and> st_ok st' k' \<and>
     (\<forall>n. sem_map st' n = (if take MAX_SEMNAME_LEN n = take MAX_SEMNAME_LEN name then Some addr else sem_map st n)) \<and>
     snd ` set (sem_list st') = insert addr (snd ` set (sem_list st))"
proof -
  have st: "bitmap_ok (st_bm st)" "nbits (st_bm st) = MAX_LOCK" "length (lockTab st) = MAX_LOCK" "\<forall>c\<in>set (lockTab st). cell_ok c"
    "marked (st_bm st) = {i. i < MAX_LOCK \<and> lockTab st ! i \<noteq> CNull}" using ok by (auto simp: st_ok_def)
  obtain i bm where f: "BitMap_Find (st_bm st) = Inr (int i, bm)" "bitmap_ok bm" "i < MAX_LOCK" "i \<notin> marked (st_bm st)"
    "marked bm = insert i (marked (st_bm st))" "nbits bm = MAX_LOCK"
    using bits.find_free [OF st(1)] room st(2) by auto
  have null: "lockTab st ! i = CNull" using f(3,4) st(5) by simp
  let ?s = "\<lparr>sem_name = take MAX_SEMNAME_LEN name, sem_ptr = Some addr, isExist = True\<rparr>"
  let ?st = "\<lparr>st_bm = bm, lockTab = (lockTab st)[i := CObj ?s]\<rparr>"
  have "sem_search (lockTab st) name 0 = Inr None"
    by (rule st_ok_search_None [OF ok none])
  then have c: "STable_create name init addr st k = Inr (0, ?st, k')"
    using init f(1) by (simp add: STable_create_def Sem_new_def k'_def)
  obtain A B where AB: "sem_list st = A @ B" "sem_list ?st = A @ (take MAX_SEMNAME_LEN name, addr) # B"
    using insert_entry [of i "lockTab st" ?s] f(3) st(3) null by (auto simp: sem_list_def)
  have fresh: "take MAX_SEMNAME_LEN name \<notin> fst ` set (A @ B)" using none AB(1) by (auto simp: sem_map_def map_of_eq_None_iff)
  have "\<forall>a\<in>snd ` set (A @ B). sems k a \<noteq> None" using ok unfolding AB(1) [symmetric] st_ok_def by blast
  then have "addr \<notin> snd ` set (A @ B)" using addr by blast
  then have "distinct (map snd (sem_list ?st))" "distinct (map fst (sem_list ?st))"
    using ok fresh unfolding AB(2) by (auto simp: st_ok_def AB(1))
  moreover have "\<forall>a\<in>snd ` set (sem_list ?st). sems k' a \<noteq> None"
    using ok unfolding AB(2) by (auto simp: st_ok_def AB(1) k'_def)
  moreover have "\<forall>c\<in>set (lockTab ?st). cell_ok c"
    using st(4) set_update_subset_insert [of "lockTab st" i "CObj ?s"] by (auto simp: cell_ok_def)
  moreover have "marked bm = {j. j < MAX_LOCK \<and> lockTab ?st ! j \<noteq> CNull}"
    unfolding f(5) st(5) using f(3) st(3) by (auto simp: nth_list_update)
  ultimately have "st_ok ?st k'" using f(2,6) st(3) by (simp add: st_ok_def)
  moreover have "sem_map ?st n = (if take MAX_SEMNAME_LEN n = take MAX_SEMNAME_LEN name then Some addr else sem_map st n)" for n
    unfolding sem_map_def AB map_of_insert [OF fresh] by simp
  moreover have "snd ` set (sem_list ?st) = insert addr (snd ` set (sem_list st))" unfolding AB by auto
  ultimately show ?thesis using c by blast
qed

lemma create_fails:
  assumes ok: "st_ok st k" and "init < 0 \<or> sem_map st name \<noteq> None \<or> marked (st_bm st) = {..<MAX_LOCK}"
  shows "STable_create name init addr st k = Inr (-1, st, k)"
proof -
  consider "init < 0" | "0 \<le> init" "sem_map st name \<noteq> None" | "0 \<le> init" "sem_map st name = None" "marked (st_bm st) = {..<MAX_LOCK}"
    using assms(2) by linarith
  then show ?thesis
  proof cases
    case 1
    then show ?thesis by (simp add: STable_create_def)
  next
    case 2
    then show ?thesis using st_ok_search_Some [OF ok, of name] by (auto simp: STable_create_def)
  next
    case 3
    then have "BitMap_Find (st_bm st) = Inr (-1, st_bm st)" using bits.find_full [of "st_bm st"] ok by (simp add: st_ok_def)
    then show ?thesis using 3(1) st_ok_search_None [OF ok 3(2)] by (simp add: STable_create_def)
  qed
qed

section \<open>Properties\<close>

text \<open>
  C20: the table implements a map from names, of which the first 255 characters count, to
  semaphores. \<open>create\<close> adds a new semaphore with the given value under the name and keeps all
  others; it returns -1 and changes nothing when the value is negative, the name is taken or all
  ten entries are. \<open>wait\<close> and \<open>signal\<close> are \<open>P\<close> and \<open>V\<close> of the semaphore of that name and return -1
  without effect when there is none; \<open>signal\<close> never fails, and \<open>wait\<close> returns 0 at once or leaves the caller asleep.
\<close>

theorem semaphore_table_refines:
  assumes ok: "st_ok st k" "kernel_ok k" "\<not> idling k" and addr: "sems k addr = None"
  shows "(if init < 0 \<or> sem_map st name \<noteq> None \<or> marked (st_bm st) = {..<MAX_LOCK}
          then STable_create name init addr st k = Inr (-1, st, k)
          else \<exists>st'. STable_create name init addr st k = Inr (0, st', k\<lparr>sems := (sems k)(addr \<mapsto> Semaphore_new init)\<rparr>) \<and>
            st_ok st' (k\<lparr>sems := (sems k)(addr \<mapsto> Semaphore_new init)\<rparr>) \<and>
            (\<forall>n. sem_map st' n = (if take MAX_SEMNAME_LEN n = take MAX_SEMNAME_LEN name then Some addr else sem_map st n))) \<and>
         (case sem_map st name of
            None \<Rightarrow> STable_wait name st k = Inr (Some (-1), k, []) \<and> STable_signal name st k = Inr (-1, k)
          | Some a \<Rightarrow> (\<exists>k' ps. P a k = Inr (k', ps) \<and> kernel_ok k' \<and>
                STable_wait name st k = Inr (if currentThread k \<in> fst ` set ps then Some 0 else None, k', ps)) \<and>
              (\<exists>k'. V a k = Inr k' \<and> kernel_ok k' \<and> STable_signal name st k = Inr (0, k')))"
proof -
  have live: "\<exists>k' ps. P a k = Inr (k', ps) \<and> kernel_ok k'" "\<exists>k'. V a k = Inr k' \<and> kernel_ok k'" if "sem_map st name = Some a" for a
  proof -
    have a: "enabled (AP a) k" "enabled (AV a) k" using sem_map_live [OF ok(1) that] ok(3) by simp_all
    show "\<exists>k' ps. P a k = Inr (k', ps) \<and> kernel_ok k'" using act_ok [OF ok(2) a(1)] by (auto simp: lands_def)
    show "\<exists>k'. V a k = Inr k' \<and> kernel_ok k'" using act_ok [OF ok(2) a(2)] by (auto simp: lands_def rbind_eq_Inr)
  qed
  have "case sem_map st name of
            None \<Rightarrow> STable_wait name st k = Inr (Some (-1), k, []) \<and> STable_signal name st k = Inr (-1, k)
          | Some a \<Rightarrow> (\<exists>k' ps. P a k = Inr (k', ps) \<and> kernel_ok k' \<and>
                STable_wait name st k = Inr (if currentThread k \<in> fst ` set ps then Some 0 else None, k', ps)) \<and>
              (\<exists>k'. V a k = Inr k' \<and> kernel_ok k' \<and> STable_signal name st k = Inr (0, k'))"
  proof (cases "sem_map st name")
    case None
    then show ?thesis using st_ok_search_None [OF ok(1) None] by (simp add: STable_wait_def STable_signal_def)
  next
    case (Some a)
    then obtain j s where s: "sem_search (lockTab st) name 0 = Inr (Some j)" "lockTab st ! j = CObj s" "sem_ptr s = Some a"
      using st_ok_search_Some [OF ok(1)] by blast
    obtain k1 ps k2 where "P a k = Inr (k1, ps)" "kernel_ok k1" "V a k = Inr k2" "kernel_ok k2" using live [OF Some] by blast
    then show ?thesis using s Some by (simp add: STable_wait_def STable_signal_def Sem_wait_def Sem_signal_def)
  qed
  moreover have "if init < 0 \<or> sem_map st name \<noteq> None \<or> marked (st_bm st) = {..<MAX_LOCK}
          then STable_create name init addr st k = Inr (-1, st, k)
          else \<exists>st'. STable_create name init addr st k = Inr (0, st', k\<lparr>sems := (sems k)(addr \<mapsto> Semaphore_new init)\<rparr>) \<and>
            st_ok st' (k\<lparr>sems := (sems k)(addr \<mapsto> Semaphore_new init)\<rparr>) \<and>
            (\<forall>n. sem_map st' n = (if take MAX_SEMNAME_LEN n = take MAX_SEMNAME_LEN name then Some addr else sem_map st n))"
  proof (cases "init < 0 \<or> sem_map st name \<noteq> None \<or> marked (st_bm st) = {..<MAX_LOCK}")
    case True
    then show ?thesis using create_fails [OF ok(1) True] by simp
  next
    case False
    then have f: "0 \<le> init" "sem_map st name = None" "marked (st_bm st) \<noteq> {..<MAX_LOCK}" by auto
    show ?thesis unfolding if_not_P [OF False] using create_ok [OF ok(1) f addr] by blast
  qed
  ultimately show ?thesis by blast
qed

definition st0 :: STable where
  "st0 = \<lparr>st_bm = \<lparr>numBits = 10, numWords = 1, bmap = [1]\<rparr>,
     lockTab = CObj \<lparr>sem_name = ''mutex'', sem_ptr = Some 0, isExist = True\<rparr> # replicate 9 CNull\<rparr>"

lemma st0_ok: "st_ok st0 (kernel0\<lparr>sems := [0 \<mapsto> Semaphore_new 1]\<rparr>)" "sem_map st0 ''mutex'' = Some 0" "sem_map st0 ''full'' = None"
  "marked (st_bm st0) = {0}"
proof -
  have l: "sem_list st0 = [(''mutex'', 0)]" by (simp add: sem_list_def st0_def map_filter_Cons sem_entry_def numeral_eq_Suc List.map_filter_def)
  then show "sem_map st0 ''mutex'' = Some 0" "sem_map st0 ''full'' = None" by (simp_all add: sem_map_def)
  show m: "marked (st_bm st0) = {0}" by (auto simp: marked_def bit_on_def nbits_def st0_def bit_1_iff)
  have "bitmap_ok (st_bm st0)" by (simp add: bitmap_ok_def st0_def divRoundUp_def c_arith)
  moreover have "{i. i < MAX_LOCK \<and> lockTab st0 ! i \<noteq> CNull} = {0}" by (auto simp: st0_def nth_Cons' split: if_splits)
  ultimately show "st_ok st0 (kernel0\<lparr>sems := [0 \<mapsto> Semaphore_new 1]\<rparr>)"
    using l m by (simp add: st_ok_def) (simp add: st0_def nbits_def cell_ok_def)
qed

theorem semaphore_table_refines_witness:
  "let k = kernel0\<lparr>sems := [0 \<mapsto> Semaphore_new 1]\<rparr> in
   (\<exists>st' k'. STable_create ''full'' 3 1 st0 k = Inr (0, st', k') \<and> sem_map st' ''full'' = Some 1 \<and> sem_map st' ''mutex'' = Some 0) \<and>
   STable_create ''mutex'' 3 1 st0 k = Inr (-1, st0, k) \<and> STable_wait ''empty'' st0 k = Inr (Some (-1), k, []) \<and>
   (\<exists>k'. STable_signal ''mutex'' st0 k = Inr (0, k'))"
proof -
  let ?k = "kernel0\<lparr>sems := [0 \<mapsto> Semaphore_new 1]\<rparr>"
  have k: "kernel_ok ?k" "\<not> idling ?k" "sems ?k 1 = None"
    by (simp_all add: kernel0_def kernel_ok_def core_ok_def wake_ok_def current_status_def Thread_new_def fence_ok_def sem_ok_def Semaphore_new_def)
  have e: "sem_map st0 ''empty'' = None" "marked (st_bm st0) \<noteq> {..<MAX_LOCK}" using st0_ok(4)
    by (simp_all add: sem_map_def sem_list_def st0_def map_filter_Cons sem_entry_def numeral_eq_Suc List.map_filter_def lessThan_Suc)
  note t = semaphore_table_refines [OF st0_ok(1) k]
  show ?thesis using t [of 3 "''full''"] t [of 3 "''mutex''"] t [of 0 "''empty''"] st0_ok e by (auto simp: Let_def)
qed

end
