(* ===== verification/Console_IO.thy ===== *)
theory Console_IO
  imports Nachos_Prelude Sysdep
begin

text \<open>
  Line input and output on the synchronous console (\<open>threads/synchcons.cc\<close>) and the conversions
  of integers to and from their decimal notation that the system calls \<open>PrintInt\<close> and \<open>ReadInt\<close> of
  \<open>userprog/exception.cc\<close> do. The console is the sequence of the characters that will be typed
  and the characters displayed so far; a thread that reads more than is typed waits for ever,
  which is the result \<open>None\<close>.
\<close>

section \<open>Synchronous console\<close>

record Term =
  keys :: "byte list"
  screen :: "byte list"

abbreviation ch_LF :: byte where "ch_LF \<equiv> 10"
abbreviation ch_ctrl_A :: byte where "ch_ctrl_A \<equiv> 1"
abbreviation ch_EOF :: byte where "ch_EOF \<equiv> 255"

text \<open>\<open>Write\<close> outputs \<open>numBytes\<close> characters of the buffer, one interrupt for each.\<close>

definition SynchConsole_Write :: "byte list \<Rightarrow> int \<Rightarrow> Term \<Rightarrow> (int \<times> Term) res" where
  "SynchConsole_Write from numBytes t =
     (if int (length from) < numBytes then Inl OutOfBounds
      else Inr (numBytes, t\<lparr>screen := screen t @ take (nat numBytes) from\<rparr>))"

text \<open>
  The loop of \<open>Read\<close>: \<open>room\<close> characters still fit, \<open>into\<close> is what was stored, \<open>ch\<close> the last character.
  A character equal to \<open>EOF\<close> is skipped; a line feed or \<open>^A\<close> ends the line and is not stored.
\<close>

fun read_loop :: "nat \<Rightarrow> byte list \<Rightarrow> byte \<Rightarrow> byte list \<Rightarrow> (byte list \<times> byte \<times> byte list) option" where
  "read_loop 0 into ch ks = Some (into, ch, ks)"
| "read_loop (Suc room) into ch [] = None"
| "read_loop (Suc room) into ch (c # ks) =
     (if c = ch_EOF then read_loop (Suc room) into c ks
      else if c = ch_LF \<or> c = ch_ctrl_A then Some (into, c, ks)
      else read_loop room (into @ [c]) c ks)"

text \<open>
  The result, the contents of the buffer (cleared first) and the rest of the input. \<open>ch0\<close> is what
  the uninitialised variable \<open>ch\<close> holds when nothing is read.
\<close>

definition SynchConsole_Read :: "byte \<Rightarrow> int \<Rightarrow> Term \<Rightarrow> (int \<times> byte list \<times> Term) option" where
  "SynchConsole_Read ch0 numBytes t =
     (case read_loop (nat numBytes) [] ch0 (keys t) of
        None \<Rightarrow> None
      | Some (into, ch, ks) \<Rightarrow>
          Some (if ch = ch_ctrl_A \<and> into = [] then -1 else int (length into),
                into @ replicate (nat numBytes - length into) 0, t\<lparr>keys := ks\<rparr>))"

section \<open>Printing an integer\<close>

definition ABS :: "int \<Rightarrow> int" where
  "ABS x = (if x < 0 then - x else x)"

text \<open>The loop that stores the digits, last one first, into \<open>str\<close>, an array of 13 characters.\<close>

function digit_loop :: "int \<Rightarrow> byte list \<Rightarrow> byte list res" where
  "digit_loop tmp_number str =
     (if 13 \<le> length str then Inl OutOfBounds
      else let str' = str @ [word_of_int (ABS (tmp_number smod 10) + 48)]
           in if tmp_number sdiv 10 = 0 then Inr str' else digit_loop (tmp_number sdiv 10) str')"
  by pat_completeness auto

termination
  by (relation "measure (\<lambda>(n, str). 13 - length str)") auto

declare digit_loop.simps [simp del]

text \<open>\<open>tmp = str[i]; str[i] = str[j]; str[j] = tmp;\<close> for the first half of the array.\<close>

definition swap_step :: "byte list \<Rightarrow> nat \<Rightarrow> byte list" where
  "swap_step str i = (let j = length str - i - 1; tmp = str ! i in (str[i := str ! j])[j := tmp])"

definition reverse_loop :: "byte list \<Rightarrow> byte list" where
  "reverse_loop str = foldl swap_step str [0..<length str div 2]"

definition PrintInt_string :: "int \<Rightarrow> byte list res" where
  "PrintInt_string number =
     rbind (digit_loop number []) (\<lambda>str.
     rbind (if number < 0 then (if 13 \<le> length str then Inl OutOfBounds else Inr (str @ [45])) else Inr str) (\<lambda>str'.
       Inr (reverse_loop str')))"

section \<open>Reading an integer\<close>

text \<open>
  \<open>gSynchConsole->Read(&c, 1)\<close>: the count, the character and the rest of the input. C's \<open>int\<close> is 32
  bits wide and wraps.
\<close>

definition read1 :: "byte list \<Rightarrow> (int \<times> byte \<times> byte list) option" where
  "read1 ks = (case SynchConsole_Read 0 1 \<lparr>keys = ks, screen = []\<rparr> of
     None \<Rightarrow> None | Some (count, buf, t) \<Rightarrow> Some (count, hd buf, keys t))"

lemma read_loop_rest: "read_loop room into ch ks = Some (into', ch', ks') \<Longrightarrow> length ks' + (length into' - length into) \<le> length ks \<and>
    length into \<le> length into' \<and> (0 < room \<longrightarrow> length ks' < length ks)"
  by (induction room into ch ks rule: read_loop.induct) (force split: if_splits)+

lemma read1_shorter: "read1 ks = Some (count, c, ks') \<Longrightarrow> length ks' < length ks"
  by (auto simp: read1_def SynchConsole_Read_def split: option.splits dest!: read_loop_rest)

definition is_digit :: "byte \<Rightarrow> bool" where
  "is_digit c \<longleftrightarrow> 48 \<le> c \<and> c \<le> 57"

text \<open>The loop that skips blanks, tabs and line ends.\<close>

function skip_loop :: "byte list \<Rightarrow> (int \<times> byte \<times> byte list) option" where
  "skip_loop ks = (case read1 ks of
     None \<Rightarrow> None
   | Some (count, c, ks') \<Rightarrow>
       if count = -1 then Some (count, c, ks')
       else if c = 32 \<or> c = 9 \<or> c = 10 \<or> count = 0 then skip_loop ks'
       else Some (count, c, ks'))"
  by pat_completeness auto

termination
  by (relation "measure length") (auto dest: read1_shorter)

text \<open>The two loops that accumulate the digits; \<open>neg\<close> tells which one.\<close>

function accumulate :: "bool \<Rightarrow> 32 word \<Rightarrow> int \<Rightarrow> byte \<Rightarrow> byte list \<Rightarrow> (32 word \<times> byte list) option" where
  "accumulate neg res count c ks =
     (if is_digit c \<and> count = 1
      then let res' = (if neg then (if res \<le>s 0 then res * 10 - (ucast c - 48) else res)
                       else (if 0 \<le>s res then res * 10 + (ucast c - 48) else res))
           in case read1 ks of
                None \<Rightarrow> None
              | Some (count', c', ks') \<Rightarrow> accumulate neg res' count' c' ks'
      else Some (res, ks))"
  by pat_completeness auto

termination
  by (relation "measure (\<lambda>(neg, res, count, c, ks). length ks)") (auto dest: read1_shorter)

declare skip_loop.simps [simp del] accumulate.simps [simp del]

definition ReadInt_value :: "byte list \<Rightarrow> (32 word \<times> byte list) option" where
  "ReadInt_value ks = (case skip_loop ks of
     None \<Rightarrow> None
   | Some (count, c, ks1) \<Rightarrow>
       if count = -1 \<or> \<not> (c = 45 \<or> is_digit c) then Some (0, ks1)
       else if c = 45
       then (case read1 ks1 of
               None \<Rightarrow> None
             | Some (count', c', ks2) \<Rightarrow>
                 map_option (\<lambda>(res, ks'). (if 0 <s res then 0 else res, ks')) (accumulate True 0 count' c' ks2))
       else map_option (\<lambda>(res, ks'). (if res <s 0 then 0 else res, ks')) (accumulate False 0 count c ks1))"

section \<open>Decimal notation\<close>

text \<open>The decimal notation of a natural number, first digit first.\<close>

fun decimal :: "nat \<Rightarrow> byte list" where
  "decimal n = (if n < 10 then [word_of_nat (48 + n)] else decimal (n div 10) @ [word_of_nat (48 + n mod 10)])"

declare decimal.simps [simp del]

definition decimal_int :: "int \<Rightarrow> byte list" where
  "decimal_int n = (if n < 0 then [45] else []) @ decimal (nat \<bar>n\<bar>)"

lemma length_decimal: "n < 10 ^ Suc k \<Longrightarrow> length (decimal n) \<le> Suc k"
proof (induction k arbitrary: n)
  case (Suc k)
  then have "n div 10 < 10 ^ Suc k" by (simp add: less_mult_imp_div_less)
  then show ?case using Suc.IH [of "n div 10"] by (subst decimal.simps) simp
qed (simp add: decimal.simps)

lemma ABS_smod: "ABS (n smod 10) = \<bar>n\<bar> mod 10"
  by (auto simp: ABS_def signed_modulo_int_def sgn_mult abs_mult minus_mult_div_eq_mod [symmetric] signed_divide_int_def sgn_if abs_if split: if_splits)

lemma abs_sdiv: "\<bar>n sdiv 10\<bar> = \<bar>n\<bar> div (10::int)"
  by (auto simp: signed_divide_int_def abs_mult sgn_if)

lemma digit_loop_eq:
  "nat \<bar>n\<bar> < 10 ^ Suc k \<Longrightarrow> length str + Suc k \<le> 13 \<Longrightarrow> digit_loop n str = Inr (str @ rev (decimal (nat \<bar>n\<bar>)))"
proof (induction k arbitrary: n str)
  case 0
  then have "\<bar>n\<bar> div 10 = 0" "\<bar>n\<bar> mod 10 = \<bar>n\<bar>" by auto
  then have "n sdiv 10 = 0" "word_of_int (ABS (n smod 10) + 48) = (word_of_nat (48 + nat \<bar>n\<bar>) :: byte)"
    using abs_sdiv [of n] by (auto simp: ABS_smod)
  then show ?case using 0 by (subst digit_loop.simps, subst decimal.simps) simp
next
  case (Suc k)
  let ?d = "word_of_int (ABS (n smod 10) + 48) :: byte"
  have d: "?d = word_of_nat (48 + nat \<bar>n\<bar> mod 10)"
  proof -
    have "int (nat \<bar>n\<bar> mod 10) = \<bar>n\<bar> mod 10" by (simp add: zmod_int)
    then have "word_of_int (\<bar>n\<bar> mod 10) = (word_of_nat (nat \<bar>n\<bar> mod 10) :: byte)" by (metis of_int_of_nat_eq)
    then show ?thesis by (simp add: ABS_smod)
  qed
  have m: "nat \<bar>n sdiv 10\<bar> = nat \<bar>n\<bar> div 10" by (simp add: abs_sdiv nat_div_distrib)
  show ?case
  proof (cases "n sdiv 10 = 0")
    case True
    then have "nat \<bar>n\<bar> < 10" using m by simp
    then show ?thesis using Suc.prems True d by (subst digit_loop.simps, subst decimal.simps) simp
  next
    case False
    then have ge: "\<not> nat \<bar>n\<bar> < 10" using m [symmetric] by (auto simp: div_eq_0_iff)
    have "nat \<bar>n sdiv 10\<bar> < 10 ^ Suc k" using Suc.prems(1) by (simp add: m less_mult_imp_div_less)
    from Suc.IH [OF this, of "str @ [?d]"] Suc.prems(2)
    have "digit_loop (n sdiv 10) (str @ [?d]) = Inr (str @ ?d # rev (decimal (nat \<bar>n\<bar> div 10)))" by (simp add: m)
    then show ?thesis using False Suc.prems(2) ge d by (subst digit_loop.simps, subst decimal.simps) (simp add: Let_def)
  qed
qed

lemma swap_prefix:
  "k \<le> length str div 2 \<Longrightarrow> length (foldl swap_step str [0..<k]) = length str \<and>
   (\<forall>x<length str. foldl swap_step str [0..<k] ! x =
      (if x < k \<or> length str - k \<le> x then str ! (length str - 1 - x) else str ! x))"
proof (induction k)
  case (Suc k)
  let ?s = "foldl swap_step str [0..<k]"
  have l: "length ?s = length str" using Suc by simp
  have nth: "?s ! x = (if x < k \<or> length str - k \<le> x then str ! (length str - 1 - x) else str ! x)" if "x < length str" for x
    using Suc that by simp
  have k: "k < length str" "length str - Suc k < length str" "k < length str - Suc k \<or> length str = 2 * k + 1" using Suc.prems by auto
  have "\<not> (k < k \<or> length str - k \<le> k)" "\<not> (length str - Suc k < k \<or> length str - k \<le> length str - Suc k)"
    using Suc.prems k by linarith+
  then have "?s ! k = str ! k" "?s ! (length str - Suc k) = str ! (length str - Suc k)"
    using nth [OF k(1)] nth [OF k(2)] by simp_all
  then have s: "foldl swap_step str [0..<Suc k] = (?s[k := str ! (length str - Suc k)])[length str - Suc k := str ! k]"
    by (simp add: swap_step_def Let_def l)
  show ?case
  proof (intro conjI allI impI)
    fix x assume x: "x < length str"
    consider "x = k" "x \<noteq> length str - Suc k" | "x = length str - Suc k" | "x \<noteq> k" "x \<noteq> length str - Suc k" by blast
    then show "foldl swap_step str [0..<Suc k] ! x =
        (if x < Suc k \<or> length str - Suc k \<le> x then str ! (length str - 1 - x) else str ! x)"
    proof cases
      case 1
      then show ?thesis unfolding s using k l by simp
    next
      case 2
      then have "length str - 1 - x = k" using k by linarith
      then show ?thesis unfolding s using k(2) l 2 by simp
    next
      case 3
      then have "(x < Suc k \<or> length str - Suc k \<le> x) = (x < k \<or> length str - k \<le> x)" by linarith
      then show ?thesis unfolding s using 3 nth [OF x] by simp
    qed
  qed (simp add: s l del: upt_Suc)
qed simp

lemma reverse_loop_rev: "reverse_loop str = rev str"
proof (rule nth_equalityI)
  note p = swap_prefix [of "length str div 2" str]
  then show l: "length (reverse_loop str) = length (rev str)" by (simp add: reverse_loop_def)
  fix x assume "x < length (reverse_loop str)"
  then have x: "x < length str" using l by simp
  then have "reverse_loop str ! x = (if x < length str div 2 \<or> length str - length str div 2 \<le> x then str ! (length str - 1 - x) else str ! x)"
    using p by (simp add: reverse_loop_def)
  moreover have "\<not> (x < length str div 2 \<or> length str - length str div 2 \<le> x) \<Longrightarrow> length str - 1 - x = x" using x by presburger
  ultimately show "reverse_loop str ! x = rev str ! x" using x by (auto simp: rev_nth)
qed

lemma PrintInt_decimal:
  assumes "- (2 ^ 31) \<le> n" "n < 2 ^ 31"
  shows "PrintInt_string n = Inr (decimal_int n)" "length (decimal_int n) \<le> 11"
proof -
  have b: "nat \<bar>n\<bar> < 10 ^ Suc 9" using assms by simp
  have d: "digit_loop n [] = Inr (rev (decimal (nat \<bar>n\<bar>)))" using digit_loop_eq [OF b, of "[]"] by simp
  have l: "length (decimal (nat \<bar>n\<bar>)) \<le> 10" using length_decimal [OF b] by simp
  show "PrintInt_string n = Inr (decimal_int n)"
    using l by (cases "n < 0") (simp_all add: PrintInt_string_def d reverse_loop_rev decimal_int_def)
  show "length (decimal_int n) \<le> 11" using l by (cases "n < 0") (simp_all add: decimal_int_def)
qed

section \<open>Reading decimal notation\<close>

lemma read1_char: "c \<noteq> ch_EOF \<Longrightarrow> c \<noteq> ch_LF \<Longrightarrow> c \<noteq> ch_ctrl_A \<Longrightarrow> read1 (c # ks) = Some (1, c, ks)"
  by (simp add: read1_def SynchConsole_Read_def)

lemma read1_LF: "read1 (ch_LF # ks) = Some (0, 0, ks)"
  by (simp add: read1_def SynchConsole_Read_def)

lemma digit_char: "n < 10 \<Longrightarrow> is_digit (word_of_nat (48 + n)) \<and> uint (word_of_nat (48 + n) :: byte) = 48 + int n"
proof -
  assume "n < 10"
  then have "take_bit 8 (48 + n) = 48 + n" by (simp add: take_bit_nat_eq_self)
  then have "uint (word_of_nat (48 + n) :: byte) = 48 + int n" by (simp only: unsigned_of_nat) simp
  then show ?thesis using \<open>n < 10\<close> by (simp add: is_digit_def word_le_def)
qed

lemma digit_not_special: "is_digit c \<Longrightarrow> c \<noteq> ch_EOF \<and> c \<noteq> ch_LF \<and> c \<noteq> ch_ctrl_A \<and> c \<noteq> 32 \<and> c \<noteq> 9 \<and> c \<noteq> 45"
  by (auto simp: is_digit_def word_le_nat_alt)

text \<open>The number a sequence of digits denotes, after the number \<open>v\<close>.\<close>

definition denotes :: "int \<Rightarrow> byte list \<Rightarrow> int" where
  "denotes v ds = foldl (\<lambda>v d. 10 * v + (uint d - 48)) v ds"

lemma denotes_simps [simp]: "denotes v [] = v" "denotes v (d # ds) = denotes (10 * v + (uint d - 48)) ds"
  "denotes v (ds @ es) = denotes (denotes v ds) es"
  by (simp_all add: denotes_def)

lemma digit_bounds: "is_digit c \<Longrightarrow> 0 \<le> uint c - 48 \<and> uint c - 48 \<le> 9"
  by (simp add: is_digit_def word_le_def)

lemma denotes_mono: "0 \<le> v \<Longrightarrow> \<forall>d\<in>set ds. is_digit d \<Longrightarrow> v \<le> denotes v ds"
proof (induction ds arbitrary: v)
  case (Cons d ds)
  then have "0 \<le> uint d - 48" using digit_bounds by simp
  then have "v \<le> 10 * v + (uint d - 48)" "0 \<le> 10 * v + (uint d - 48)" using Cons.prems(1) by linarith+
  then show ?case using Cons.IH [of "10 * v + (uint d - 48)"] Cons.prems(2) by simp
qed simp

lemma decimal_digits: "(\<forall>d\<in>set (decimal n). is_digit d) \<and> denotes 0 (decimal n) = int n \<and> decimal n \<noteq> []"
proof (induction n rule: decimal.induct)
  case (1 n)
  show ?case
  proof (cases "n < 10")
    case True
    then show ?thesis using digit_char [of n] by (simp add: decimal.simps [of n])
  next
    case False
    moreover have "10 * int (n div 10) + int (n mod 10) = int n" by presburger
    ultimately show ?thesis using 1 digit_char [of "n mod 10"] by (auto simp: decimal.simps [of n])
  qed
qed

lemma sint_small: "- (2 ^ 31) \<le> v \<Longrightarrow> v < 2 ^ 31 \<Longrightarrow> sint (word_of_int v :: 32 word) = v"
  by (simp add: sint_sbintrunc' signed_take_bit_int_eq_self)

lemma ucast_digit: "(ucast c :: 32 word) - 48 = word_of_int (uint c - 48)"
  by (simp add: unsigned_ucast_eq)

lemma digit_step:
  "(word_of_int v :: 32 word) * 10 + (ucast c - 48) = word_of_int (10 * v + (uint (c :: byte) - 48))"
  "(word_of_int (- v) :: 32 word) * 10 - (ucast c - 48) = word_of_int (- (10 * v + (uint (c :: byte) - 48)))"
  unfolding ucast_digit by (simp_all add: algebra_simps)

lemma accumulate_end: "accumulate neg res 0 c ks = Some (res, ks)"
  by (simp add: accumulate.simps)

lemma accumulate_digit:
  "is_digit c \<Longrightarrow> read1 ks = Some (count, c', ks') \<Longrightarrow>
   accumulate neg res 1 c ks = accumulate neg
     (if neg then (if res \<le>s 0 then res * 10 - (ucast c - 48) else res)
      else (if 0 \<le>s res then res * 10 + (ucast c - 48) else res)) count c' ks'"
  by (subst accumulate.simps) (simp only: option.case prod.case Let_def simp_thms if_True)

lemma accumulate_pos:
  "0 \<le> v \<Longrightarrow> is_digit c \<Longrightarrow> \<forall>d\<in>set ds. is_digit d \<Longrightarrow> denotes v (c # ds) < 2 ^ 31 \<Longrightarrow>
   accumulate False (word_of_int v) 1 c (ds @ ch_LF # rest) = Some (word_of_int (denotes v (c # ds)), rest)"
proof (induction ds arbitrary: v c)
  case Nil
  have "0 \<le>s (word_of_int v :: 32 word)"
    using Nil denotes_mono [of v "[c]"] by (simp add: word_sle_eq sint_small)
  then show ?case
    by (simp only: append_Nil accumulate_digit [OF Nil(2) read1_LF] accumulate_end if_True if_False digit_step denotes_simps)
next
  case (Cons d ds)
  let ?v = "10 * v + (uint c - 48)"
  have v: "0 \<le> ?v" "v \<le> ?v" using Cons.prems(1) digit_bounds [OF Cons.prems(2)] by linarith+
  then have "?v < 2 ^ 31" using denotes_mono [of ?v "d # ds"] Cons.prems(3,4) by simp
  then have "0 \<le>s (word_of_int v :: 32 word)" using v Cons.prems(1) by (simp add: word_sle_eq sint_small)
  moreover have "read1 (d # ds @ ch_LF # rest) = Some (1, d, ds @ ch_LF # rest)"
    using digit_not_special [of d] Cons.prems(3) by (intro read1_char) auto
  note accumulate_digit [OF Cons.prems(2) this]
  moreover have "accumulate False (word_of_int ?v) 1 d (ds @ ch_LF # rest) = Some (word_of_int (denotes ?v (d # ds)), rest)" using Cons.prems v(1) by (intro Cons.IH) auto
  ultimately show ?case by (simp only: append_Cons if_True if_False digit_step denotes_simps)
qed

lemma accumulate_neg:
  "0 \<le> v \<Longrightarrow> is_digit c \<Longrightarrow> \<forall>d\<in>set ds. is_digit d \<Longrightarrow> denotes v (c # ds) \<le> 2 ^ 31 \<Longrightarrow>
   accumulate True (word_of_int (- v)) 1 c (ds @ ch_LF # rest) = Some (word_of_int (- denotes v (c # ds)), rest)"
proof (induction ds arbitrary: v c)
  case Nil
  have "(word_of_int (- v) :: 32 word) \<le>s 0"
    using Nil denotes_mono [of v "[c]"] by (simp add: word_sle_eq sint_small del: of_int_minus)
  then show ?case
    by (simp only: append_Nil accumulate_digit [OF Nil(2) read1_LF] accumulate_end if_True if_False digit_step denotes_simps)
next
  case (Cons d ds)
  let ?v = "10 * v + (uint c - 48)"
  have v: "0 \<le> ?v" "v \<le> ?v" using Cons.prems(1) digit_bounds [OF Cons.prems(2)] by linarith+
  then have "?v \<le> 2 ^ 31" using denotes_mono [of ?v "d # ds"] Cons.prems(3,4) by simp
  then have "(word_of_int (- v) :: 32 word) \<le>s 0"
    using v Cons.prems(1) by (simp add: word_sle_eq sint_small del: of_int_minus)
  moreover have "read1 (d # ds @ ch_LF # rest) = Some (1, d, ds @ ch_LF # rest)"
    using digit_not_special [of d] Cons.prems(3) by (intro read1_char) auto
  note accumulate_digit [OF Cons.prems(2) this]
  moreover have "accumulate True (word_of_int (- ?v)) 1 d (ds @ ch_LF # rest) = Some (word_of_int (- denotes ?v (d # ds)), rest)" using Cons.prems v(1) by (intro Cons.IH) auto
  ultimately show ?case by (simp only: append_Cons if_True if_False digit_step denotes_simps)
qed

lemma skip_loop_char:
  "c \<noteq> ch_EOF \<Longrightarrow> c \<noteq> ch_LF \<Longrightarrow> c \<noteq> ch_ctrl_A \<Longrightarrow> c \<noteq> 32 \<Longrightarrow> c \<noteq> 9 \<Longrightarrow> skip_loop (c # ks) = Some (1, c, ks)"
  by (simp add: skip_loop.simps read1_char)

lemma ReadInt_decimal:
  assumes "- (2 ^ 31) \<le> n" "n < 2 ^ 31"
  shows "ReadInt_value (decimal_int n @ ch_LF # rest) = Some (word_of_int n, rest)"
proof -
  obtain c ds where d: "decimal (nat \<bar>n\<bar>) = c # ds" "\<forall>x\<in>set (c # ds). is_digit x" "denotes 0 (c # ds) = \<bar>n\<bar>"
    using decimal_digits [of "nat \<bar>n\<bar>"] by (metis list.exhaust nat_0_le abs_ge_zero)
  have c: "is_digit c" "\<forall>x\<in>set ds. is_digit x" using d(2) by auto
  show ?thesis
  proof (cases "n < 0")
    case True
    have "accumulate True 0 1 c (ds @ ch_LF # rest) = Some (word_of_int n, rest)"
      using accumulate_neg [of 0 c ds rest] c d(3) True assms(1) by simp
    moreover have "skip_loop (45 # c # ds @ ch_LF # rest) = Some (1, 45, c # ds @ ch_LF # rest)"
      by (intro skip_loop_char) simp_all
    moreover have "\<not> 0 <s (word_of_int n :: 32 word)" using True assms by (simp add: word_sless_alt sint_small)
    ultimately show ?thesis using True d(1) c digit_not_special [of c]
      by (simp add: decimal_int_def ReadInt_value_def read1_char)
  next
    case False
    have "accumulate False 0 1 c (ds @ ch_LF # rest) = Some (word_of_int n, rest)"
      using accumulate_pos [of 0 c ds rest] c d(3) False assms(2) by simp
    moreover have "skip_loop (c # ds @ ch_LF # rest) = Some (1, c, ds @ ch_LF # rest)"
      using digit_not_special [OF c(1)] by (intro skip_loop_char) auto
    moreover have "\<not> (word_of_int n :: 32 word) <s 0" using False assms by (simp add: word_sless_alt sint_small)
    ultimately show ?thesis using False d(1) c digit_not_special [of c]
      by (simp add: decimal_int_def ReadInt_value_def)
  qed
qed

section \<open>Properties\<close>

text \<open>
  C28: for every 32-bit register value, the three loops of \<open>SyscallPrintInt\<close> (digits last first, sign,
  reversal in place) produce the decimal notation of the signed number, the minus sign and the
  most negative number included, and never store past the 13 characters allocated for it.
\<close>

theorem PrintInt_equals_decimal:
  "PrintInt_string (sint (w :: 32 word)) = Inr (decimal_int (sint w)) \<and> length (decimal_int (sint w)) \<le> 11"
  using PrintInt_decimal [of "sint w"] sint_ge [of w] sint_less [of w] by simp


end
