(* ===== verification/Syscalls.thy ===== *)
theory Syscalls
  imports Process_Table Sem_Table Console_IO
begin

text \<open>
  The system calls and exceptions of user programs (\<open>userprog/exception.cc\<close>, with the codes of
  \<open>userprog/syscall.h\<close>): every handler reads its arguments from registers 4 to 6, copies strings
  between user memory and the kernel, calls the console, the file system, the process table
  or the semaphore table, leaves the result in register 2 and moves the program counter.
\<close>

section \<open>State and conventions\<close>

record Sys =
  proc :: Proc
  console :: Term
  semTab :: STable

definition mach :: "Sys \<Rightarrow> Machine" where
  "mach s = machine (kern (proc s))"

definition put_kern :: "Kernel \<Rightarrow> Sys \<Rightarrow> Sys" where
  "put_kern k s = s\<lparr>proc := (proc s)\<lparr>kern := k\<rparr>\<rparr>"

definition put_mach :: "Machine \<Rightarrow> Sys \<Rightarrow> Sys" where
  "put_mach m s = put_kern ((kern (proc s))\<lparr>machine := m\<rparr>) s"

definition put_fs :: "FileSystem \<Rightarrow> Sys \<Rightarrow> Sys" where
  "put_fs fs s = s\<lparr>proc := (proc s)\<lparr>fsys := fs\<rparr>\<rparr>"

type_synonym syscall = "Sys \<Rightarrow> (unit call_result \<times> Sys) res"

text \<open>An argument register, as a word (an address) or as a C \<open>int\<close>.\<close>

definition with_reg :: "int \<Rightarrow> (32 word \<Rightarrow> syscall) \<Rightarrow> syscall" where
  "with_reg n f s = rbind (ReadRegister (mach s) n) (\<lambda>v. f v s)"

text \<open>\<open>machine->AdjustPCRegs()\<close> at the end, and with the result in register 2 first.\<close>

definition advance :: syscall where
  "advance s = rbind (AdjustPCRegs (mach s)) (\<lambda>m. Inr (Returns (), put_mach m s))"

definition finish_call :: "32 word \<Rightarrow> syscall" where
  "finish_call v s = rbind (WriteRegister (mach s) 2 v) (\<lambda>m. advance (put_mach m s))"

text \<open>
  Copying a string in or out. A bad address raises an exception inside \<open>ReadMem\<close> or \<open>WriteMem\<close>, whose
  handler halts the machine.
\<close>

definition copy_in :: "32 word \<Rightarrow> nat \<Rightarrow> (byte list \<Rightarrow> syscall) \<Rightarrow> syscall" where
  "copy_in addr limit f s = rbind (User2System (mach s) addr limit) (\<lambda>r. case r of
     Inl _ \<Rightarrow> Inr (Halts, s)
   | Inr (buf, m) \<Rightarrow> f buf (put_mach m s))"

definition copy_out :: "32 word \<Rightarrow> int \<Rightarrow> byte list \<Rightarrow> syscall \<Rightarrow> syscall" where
  "copy_out addr len buf f s = rbind (System2User (mach s) addr len buf) (\<lambda>r. case r of
     Inl _ \<Rightarrow> Inr (Halts, s)
   | Inr (n, m) \<Rightarrow> f (put_mach m s))"

definition cstring :: "byte list \<Rightarrow> string" where
  "cstring buf = map (\<lambda>b. char_of (unat b)) (takeWhile (\<lambda>b. b \<noteq> 0) buf)"

text \<open>A handler that starts with the test of a null address.\<close>

definition unless_null :: "32 word \<Rightarrow> syscall \<Rightarrow> syscall" where
  "unless_null addr f s = (if addr = 0 then finish_call (-1) s else f s)"

section \<open>Console\<close>

abbreviation BLOCK_SIZE :: nat where "BLOCK_SIZE \<equiv> 32768"
abbreviation MAX_BLOCK :: nat where "MAX_BLOCK \<equiv> 32"

definition console_write :: "byte list \<Rightarrow> int \<Rightarrow> (int \<Rightarrow> syscall) \<Rightarrow> syscall" where
  "console_write buf n f s = rbind (SynchConsole_Write buf n (console s)) (\<lambda>(r, t). f r (s\<lparr>console := t\<rparr>))"

text \<open>\<open>ch0\<close> is the uninitialised \<open>ch\<close> of \<open>SynchConsole::Read\<close>; the caller sleeps while nothing is typed.\<close>

definition console_read :: "byte \<Rightarrow> int \<Rightarrow> (int \<Rightarrow> byte list \<Rightarrow> syscall) \<Rightarrow> syscall" where
  "console_read ch0 n f s = (case SynchConsole_Read ch0 n (console s) of
     None \<Rightarrow> Inr (Sleeps, s)
   | Some (r, buf, t) \<Rightarrow> f r buf (s\<lparr>console := t\<rparr>))"

definition SyscallPrintChar :: syscall where
  "SyscallPrintChar = with_reg 4 (\<lambda>v. console_write [ucast v] 1 (\<lambda>_. finish_call 0))"

definition SyscallReadChar :: "byte \<Rightarrow> syscall" where
  "SyscallReadChar ch0 = console_read ch0 1 (\<lambda>_ buf. finish_call (scast (hd buf)))"

fun PrintString_loop :: "32 word \<Rightarrow> nat \<Rightarrow> nat \<Rightarrow> syscall" where
  "PrintString_loop strAddr i 0 = finish_call 0"
| "PrintString_loop strAddr i (Suc n) =
     copy_in (strAddr + word_of_nat (i * BLOCK_SIZE)) BLOCK_SIZE (\<lambda>kernelBuff.
       let cnt = length (takeWhile (\<lambda>b. b \<noteq> 0) (take BLOCK_SIZE kernelBuff))
       in console_write kernelBuff (int cnt) (\<lambda>_. if cnt < BLOCK_SIZE then finish_call 0 else PrintString_loop strAddr (Suc i) n))"

definition SyscallPrintString :: syscall where
  "SyscallPrintString = with_reg 4 (\<lambda>strAddr. unless_null strAddr (PrintString_loop strAddr 0 MAX_BLOCK))"

text \<open>
  A negative length makes \<open>memset\<close> run off the buffer, and an end of input (-1) makes \<open>kernelBuff[realLen]\<close> the
  byte before it.
\<close>

definition SyscallReadString :: "byte \<Rightarrow> syscall" where
  "SyscallReadString ch0 = with_reg 4 (\<lambda>strAddr. unless_null strAddr (with_reg 5 (\<lambda>v.
     let len = sint v
     in if len < 0 then (\<lambda>_. Inl OutOfBounds)
        else console_read ch0 len (\<lambda>realLen buf.
          if len < realLen then (\<lambda>_. Inl AssertFail)
          else if realLen < 0 then (\<lambda>_. Inl OutOfBounds)
          else copy_out strAddr (realLen + 1) (take (nat realLen) buf @ [0]) (finish_call 0)))))"

definition SyscallPrintInt :: syscall where
  "SyscallPrintInt = with_reg 4 (\<lambda>v s. rbind (PrintInt_string (sint v)) (\<lambda>str.
     console_write str (int (length str)) (\<lambda>_. advance) s))"

definition SyscallReadInt :: syscall where
  "SyscallReadInt s = (case ReadInt_value (keys (console s)) of
     None \<Rightarrow> Inr (Sleeps, s)
   | Some (v, ks) \<Rightarrow> finish_call v (s\<lparr>console := (console s)\<lparr>keys := ks\<rparr>\<rparr>))"

section \<open>Files\<close>

definition SyscallCreateFile :: syscall where
  "SyscallCreateFile = with_reg 4 (\<lambda>strAddr. unless_null strAddr (copy_in strAddr (MAX_FILENAME_LEN + 1) (\<lambda>buf s.
     rbind (FileSystem_Create (cstring buf) (fsys (proc s))) (\<lambda>(success, fs).
       finish_call (if success then 0 else -1) (put_fs fs s)))))"

definition SyscallOpen :: syscall where
  "SyscallOpen = with_reg 4 (\<lambda>strAddr. unless_null strAddr (copy_in strAddr (MAX_FILENAME_LEN + 1) (\<lambda>buf. with_reg 5 (\<lambda>ty s.
     rbind (FileSystem_fopen (cstring buf) (sint ty) (fsys (proc s))) (\<lambda>(fid, fs). finish_call (word_of_int fid) (put_fs fs s))))))"

text \<open>The open file behind an identifier; \<open>none\<close> when there is none.\<close>

definition with_file :: "int \<Rightarrow> syscall \<Rightarrow> (OpenFile \<Rightarrow> syscall) \<Rightarrow> syscall" where
  "with_file fid none f s = rbind (getOpenFile fid (fsys (proc s))) (\<lambda>p. case p of None \<Rightarrow> none s | Some x \<Rightarrow> f x s)"

definition put_open :: "int \<Rightarrow> OpenFile \<Rightarrow> Host \<Rightarrow> Sys \<Rightarrow> Sys" where
  "put_open fid f h s = put_fs (put_file fid f h (fsys (proc s))) s"

definition SyscallRead :: "byte \<Rightarrow> syscall" where
  "SyscallRead ch0 = with_reg 4 (\<lambda>strAddr. unless_null strAddr (with_reg 5 (\<lambda>c. with_reg 6 (\<lambda>i.
     let charCount = sint c; fid = sint i
     in if fid = 1 \<or> charCount < 0 then finish_call (-1)
        else if fid = 0
        then console_read ch0 charCount (\<lambda>charRead buf.
               if charRead = -1 then finish_call (-2)
               else copy_out strAddr (charRead + 1) (take (nat charRead) buf @ [0]) (finish_call (word_of_int charRead)))
        else with_file fid (finish_call (-1)) (\<lambda>f s.
               rbind (OpenFile_Read f charCount (host (fsys (proc s)))) (\<lambda>(charRead, buf, f', h).
                 if 0 \<le> charRead
                 then copy_out strAddr charRead buf (finish_call (if 0 < charRead then word_of_int charRead else -2)) (put_open fid f' h s)
                 else finish_call (-1) (put_open fid f' h s)))))))"

definition SyscallWrite :: syscall where
  "SyscallWrite = with_reg 4 (\<lambda>strAddr. unless_null strAddr (with_reg 5 (\<lambda>c. with_reg 6 (\<lambda>i.
     let charCount = sint c; fid = sint i
     in if fid = 0 \<or> charCount < 0 then finish_call (-1)
        else if fid = 1
        then copy_in strAddr (nat charCount) (\<lambda>buf. console_write buf charCount (\<lambda>charWritten. finish_call (word_of_int charWritten)))
        else with_file fid (finish_call (-1)) (\<lambda>f. copy_in strAddr (nat charCount) (\<lambda>buf s.
               rbind (OpenFile_Write f buf charCount (host (fsys (proc s)))) (\<lambda>(charWritten, f', h).
                 finish_call (if charWritten = charCount then word_of_int charCount else -1) (put_open fid f' h s))))))))"

definition SyscallSeek :: syscall where
  "SyscallSeek = with_reg 4 (\<lambda>p. with_reg 5 (\<lambda>i.
     let pos = sint p; fid = sint i
     in if fid < 2 then finish_call (-1)
        else with_file fid (finish_call (-1)) (\<lambda>f s.
               rbind (OpenFile_Seek f pos (host (fsys (proc s)))) (\<lambda>(new_pos, f', h). finish_call (word_of_int new_pos) (put_open fid f' h s)))))"

text \<open>\<open>Close\<close> drops the result of \<open>fclose\<close>: register 2 keeps the code of the system call.\<close>

definition SyscallClose :: syscall where
  "SyscallClose = with_reg 4 (\<lambda>i s.
     rbind (FileSystem_fclose (sint i) (fsys (proc s))) (\<lambda>(ret, fs). advance (put_fs fs s)))"

section \<open>Processes\<close>

text \<open>A result of the process table: returned to the program, or the thread sleeps or the machine halts.\<close>

definition proc_result :: "int call_result \<times> Proc \<Rightarrow> syscall" where
  "proc_result r s = (let s' = s\<lparr>proc := snd r\<rparr> in case fst r of
     Returns v \<Rightarrow> finish_call (word_of_int v) s' | Sleeps \<Rightarrow> Inr (Sleeps, s') | Halts \<Rightarrow> Inr (Halts, s'))"

definition SyscallExec :: "Addrs \<Rightarrow> (nat \<Rightarrow> 8 word) \<Rightarrow> syscall" where
  "SyscallExec ad garbage = with_reg 4 (\<lambda>strAddr. unless_null strAddr (copy_in strAddr (MAX_FILENAME_LEN + 1) (\<lambda>buf s.
     rbind (ExecUpdate ad garbage (cstring buf) (proc s)) (\<lambda>r. proc_result r s))))"

definition SyscallJoin :: syscall where
  "SyscallJoin = with_reg 4 (\<lambda>tid s. rbind (JoinUpdate (sint tid) (proc s)) (\<lambda>r. proc_result r s))"

definition SyscallExit :: syscall where
  "SyscallExit = with_reg 4 (\<lambda>exitCode s. rbind (ExitUpdate (sint exitCode) (proc s)) (\<lambda>r. proc_result r s))"

text \<open>What a join or an exit that slept does when its thread goes on.\<close>

definition Join_resumed :: "nat \<Rightarrow> syscall" where
  "Join_resumed pid s = rbind (JoinUpdate_rest pid (proc s)) (\<lambda>r. proc_result r s)"

definition Exit_resumed :: "nat \<Rightarrow> int \<Rightarrow> int \<Rightarrow> syscall" where
  "Exit_resumed pid parentid ec s = rbind (ExitUpdate_rest pid parentid ec (proc s)) (\<lambda>r. proc_result r s)"

section \<open>Semaphores\<close>

definition SyscallCreateSemaphore :: "nat \<Rightarrow> syscall" where
  "SyscallCreateSemaphore addr = with_reg 4 (\<lambda>strAddr. with_reg 5 (\<lambda>v.
     if strAddr = 0 \<or> sint v < 0 then finish_call (-1)
     else copy_in strAddr (MAX_SEMNAME_LEN + 1) (\<lambda>buf s.
       rbind (STable_create (cstring buf) (sint v) addr (semTab s) (kern (proc s))) (\<lambda>(r, st, k).
         finish_call (word_of_int r) (put_kern k (s\<lparr>semTab := st\<rparr>))))))"

definition SyscallWait :: syscall where
  "SyscallWait = with_reg 4 (\<lambda>strAddr. unless_null strAddr (copy_in strAddr (MAX_SEMNAME_LEN + 1) (\<lambda>buf s.
     rbind (STable_wait (cstring buf) (semTab s) (kern (proc s))) (\<lambda>(r, k, ps). case r of
       None \<Rightarrow> Inr (Sleeps, put_kern k s)
     | Some v \<Rightarrow> finish_call (word_of_int v) (put_kern k s)))))"

definition SyscallSignal :: syscall where
  "SyscallSignal = with_reg 4 (\<lambda>strAddr. unless_null strAddr (copy_in strAddr (MAX_SEMNAME_LEN + 1) (\<lambda>buf s.
     rbind (STable_signal (cstring buf) (semTab s) (kern (proc s))) (\<lambda>(r, k). finish_call (word_of_int r) (put_kern k s)))))"

section \<open>The handler\<close>

text \<open>What the model takes from outside: addresses of new objects, uninitialised memory.\<close>

record Env =
  new_addrs :: Addrs
  new_sem :: nat
  stack_garbage :: "nat \<Rightarrow> 8 word"
  stale_ch :: byte

definition Halt :: syscall where
  "Halt s = Inr (Halts, s)"

text \<open>The codes of \<open>userprog/syscall.h\<close>.\<close>

definition dispatch :: "Env \<Rightarrow> int \<Rightarrow> syscall" where
  "dispatch e ty =
     (if ty = 0 then Halt
      else if ty = 11 then SyscallReadInt
      else if ty = 12 then SyscallPrintInt
      else if ty = 13 then SyscallReadChar (stale_ch e)
      else if ty = 14 then SyscallPrintChar
      else if ty = 15 then SyscallReadString (stale_ch e)
      else if ty = 16 then SyscallPrintString
      else if ty = 17 then SyscallCreateFile
      else if ty = 18 then SyscallOpen
      else if ty = 19 then SyscallRead (stale_ch e)
      else if ty = 20 then SyscallWrite
      else if ty = 21 then SyscallSeek
      else if ty = 22 then SyscallClose
      else if ty = 1 then SyscallExit
      else if ty = 2 then SyscallExec (new_addrs e) (stack_garbage e)
      else if ty = 3 then SyscallJoin
      else if ty = 24 then SyscallWait
      else if ty = 25 then SyscallSignal
      else if ty = 9 then Halt
      else if ty = 10 then Halt
      else if ty = 23 then SyscallCreateSemaphore (new_sem e)
      else (\<lambda>_. Inl AssertFail))"

definition ExceptionHandler :: "Env \<Rightarrow> ExceptionType \<Rightarrow> syscall" where
  "ExceptionHandler e which = with_reg 2 (\<lambda>ty. case which of
     NoException \<Rightarrow> (\<lambda>s. Inr (Returns (), s))
   | PageFaultException \<Rightarrow> Halt
   | ReadOnlyException \<Rightarrow> Halt
   | BusErrorException \<Rightarrow> Halt
   | AddressErrorException \<Rightarrow> Halt
   | OverflowException \<Rightarrow> Halt
   | IllegalInstrException \<Rightarrow> Halt
   | SyscallException \<Rightarrow> dispatch e (sint ty)
   | NumExceptionTypes \<Rightarrow> (\<lambda>_. Inl AssertFail))"

section \<open>Copies keep the mappings\<close>

text \<open>Machines that differ in use and dirty bits of page table entries, in memory and in registers.\<close>

definition same_tables :: "Machine \<Rightarrow> Machine \<Rightarrow> bool" where
  "same_tables m m' \<longleftrightarrow> (\<forall>p. rel_option (list_all2 same_mapping) (ptables m p) (ptables m' p))"

lemma same_mapping_refl [simp]: "same_mapping e e"
  by (simp add: same_mapping_def)

lemma same_tables_refl [simp]: "same_tables m m"
  unfolding same_tables_def by (auto intro!: option.rel_refl list.rel_refl)

lemma same_tables_eq: "ptables m' = ptables m \<Longrightarrow> same_tables m m'"
  unfolding same_tables_def by (auto intro!: option.rel_refl list.rel_refl)

lemma same_tables_trans: "same_tables m m1 \<Longrightarrow> same_tables m1 m2 \<Longrightarrow> same_tables m m2"
proof -
  assume a: "same_tables m m1" "same_tables m1 m2"
  have t: "list_all2 same_mapping xs ys \<Longrightarrow> list_all2 same_mapping ys zs \<Longrightarrow> list_all2 same_mapping xs zs" for xs ys zs
    by (rule list_all2_trans) (auto simp: same_mapping_def)
  show ?thesis unfolding same_tables_def
  proof
    fix p
    show "rel_option (list_all2 same_mapping) (ptables m p) (ptables m2 p)"
      using a [unfolded same_tables_def] by (cases "ptables m p"; cases "ptables m1 p"; cases "ptables m2 p") (auto dest!: spec [of _ p] intro: t)
  qed
qed

lemma same_tables_touch:
  assumes "trans_ok m"
  shows "same_tables m (touch m va w)"
proof (cases "locate m (unat va div PageSize)")
  case (Inr i)
  note b = locate_bound [OF Inr]
  show ?thesis
  proof (cases "tlb m")
    case None
    then obtain p es where p: "pageTable m = Some p" "ptables m p = Some es" "entries m = es"
      using assms by (auto simp: trans_ok_def entries_def)
    have "i < length es" using b p(3) by simp
    then have "list_all2 same_mapping es (es[i := (es ! i)\<lparr>te_use := True, te_dirty := te_dirty (es ! i) \<or> w\<rparr>])"
      by (simp add: list_all2_conv_all_nth nth_list_update same_mapping_def)
    then show ?thesis using Inr None p unfolding same_tables_def
      by (auto simp: touch_def store_entry_def intro!: option.rel_refl list.rel_refl)
  qed (use Inr in \<open>simp add: touch_def store_entry_def same_tables_eq\<close>)
qed (simp add: touch_def)

text \<open>What every copy between kernel and user memory keeps.\<close>

definition copied :: "Machine \<Rightarrow> Machine \<Rightarrow> bool" where
  "copied m m' \<longleftrightarrow> trans_ok m' \<and> regs m' = regs m \<and> same_tables m m'"

lemma copied_refl: "trans_ok m \<Longrightarrow> copied m m"
  by (simp add: copied_def)

lemma copied_trans: "copied m m1 \<Longrightarrow> copied m1 m2 \<Longrightarrow> copied m m2"
  by (auto simp: copied_def intro: same_tables_trans)

lemma copied_touch: "trans_ok m \<Longrightarrow> copied m (touch m va w)"
  using remap_ok [OF remap_touch] same_tables_touch by (simp add: copied_def)

lemma copied_mem: "copied m m' \<Longrightarrow> copied m (m'\<lparr>mainMemory := mem\<rparr>)"
  by (simp add: copied_def same_tables_def)

lemma user2system_loop_copied:
  "trans_ok m \<Longrightarrow> \<exists>r. user2system_loop m a n = Inr r \<and> (case r of Inl _ \<Rightarrow> True | Inr (buf, m') \<Rightarrow> copied m m' \<and> length buf \<le> n)"
proof (induction n arbitrary: m a)
  case (Suc n)
  show ?case
  proof (cases "phys m a 1 False")
    case (Inl ex)
    then show ?thesis using ReadMem_phys [OF Suc.prems, of 1 a] by simp
  next
    case (Inr pa)
    let ?m = "touch m a False" let ?c = "read_value (mainMemory m) pa 1"
    have r: "ReadMem m a 1 = Inr (Inr (?c, ?m))" using ReadMem_phys [OF Suc.prems, of 1 a] Inr by simp
    have c: "copied m ?m" using copied_touch [OF Suc.prems] .
    then have "trans_ok ?m" by (simp add: copied_def)
    from Suc.IH [OF this, of "a + 1"] obtain r' where r': "user2system_loop ?m (a + 1) n = Inr r'"
      "case r' of Inl _ \<Rightarrow> True | Inr (buf, m') \<Rightarrow> copied ?m m' \<and> length buf \<le> n" by blast
    show ?thesis
    proof (cases r')
      case (Inl x)
      then show ?thesis using r r'(1) c by (cases "?c = 0") auto
    next
      case (Inr y)
      then obtain buf m' where y: "r' = Inr (buf, m')" by (cases y) auto
      then have "copied m m'" "length buf \<le> n" using r'(2) copied_trans [OF c] by auto
      then show ?thesis using r r'(1) c y by (cases "?c = 0") auto
    qed
  qed
qed (simp add: copied_refl)

lemma User2System_copied:
  assumes "trans_ok m"
  shows "\<exists>r. User2System m a n = Inr r \<and> (case r of Inl _ \<Rightarrow> True | Inr (buf, m') \<Rightarrow> copied m m' \<and> length buf = n + 1)"
proof -
  obtain r where "user2system_loop m a n = Inr r" "case r of Inl _ \<Rightarrow> True | Inr (buf, m') \<Rightarrow> copied m m' \<and> length buf \<le> n"
    using user2system_loop_copied [OF assms] by blast
  then show ?thesis by (auto simp: User2System_def split: sum.splits)
qed

lemma system2user_loop_copied:
  "trans_ok m \<Longrightarrow> \<exists>r. system2user_loop m a cs = Inr r \<and> (case r of Inl _ \<Rightarrow> True | Inr (k, m') \<Rightarrow> copied m m')"
proof (induction cs arbitrary: m a)
  case (Cons c cs)
  show ?case
  proof (cases "phys m a 1 True")
    case (Inl ex)
    then show ?thesis using WriteMem_phys [OF Cons.prems, of 1 a] by simp
  next
    case (Inr pa)
    let ?m = "(touch m a True)\<lparr>mainMemory := store_le (mainMemory m) pa 1 (scast c)\<rparr>"
    have r: "WriteMem m a 1 (scast c) = Inr (Inr ?m)" using WriteMem_phys [OF Cons.prems, of 1 a] Inr by simp
    have m: "copied m ?m" by (rule copied_mem [OF copied_touch [OF Cons.prems]])
    then have "trans_ok ?m" unfolding copied_def by blast
    from Cons.IH [OF this, of "a + 1"] obtain r' where r': "system2user_loop ?m (a + 1) cs = Inr r'"
      "case r' of Inl _ \<Rightarrow> True | Inr (k, m') \<Rightarrow> copied ?m m'" by blast
    show ?thesis
    proof (cases r')
      case (Inl x)
      then show ?thesis using r r'(1) m by (cases "c = 0") auto
    next
      case (Inr y)
      then obtain k m' where y: "r' = Inr (k, m')" by (cases y) auto
      then have "copied m m'" using r'(2) copied_trans [OF m] by auto
      then show ?thesis using r r'(1) m y by (cases "c = 0") auto
    qed
  qed
qed (simp add: copied_refl)

lemma System2User_copied:
  assumes "trans_ok m" "len \<le> int (length buf)"
  shows "\<exists>r. System2User m a len buf = Inr r \<and> (case r of Inl _ \<Rightarrow> True | Inr (k, m') \<Rightarrow> copied m m')"
proof -
  obtain r where "system2user_loop m a (take (nat len) buf) = Inr r" "case r of Inl _ \<Rightarrow> True | Inr (k, m') \<Rightarrow> copied m m'"
    using system2user_loop_copied [OF assms(1)] by blast
  then show ?thesis using assms copied_refl [OF assms(1)] by (auto simp: System2User_def split: sum.splits)
qed

section \<open>Processes and machines\<close>

lemma frames_of_same: "list_all2 same_mapping es es' \<Longrightarrow> frames_of es' = frames_of es"
  by (induction rule: list_all2_induct) (auto simp: frames_of_def same_mapping_def)

lemma space_ok_same:
  assumes "same_tables m m'" "space_ok sp m fs"
  shows "space_ok sp m' fs"
proof -
  obtain es where es: "ptables m (as_pageTable sp) = Some es" "length es = numPages sp" "frames_of es = fs" "distinct fs" "set fs \<subseteq> {..<NumPhysPages}"
    "\<forall>e\<in>set es. te_valid e \<and> \<not> te_readOnly e" using assms(2) by (auto simp: space_ok_def)
  then obtain es' where es': "ptables m' (as_pageTable sp) = Some es'" "list_all2 same_mapping es es'"
    using assms(1) [unfolded same_tables_def, rule_format, of "as_pageTable sp"] by (auto simp: option_rel_Some1)
  have "te_valid e \<and> \<not> te_readOnly e" if e: "e \<in> set es'" for e
  proof -
    obtain i where "i < length es'" "e = es' ! i" using e by (auto simp: in_set_conv_nth)
    moreover from this have "es ! i \<in> set es" "same_mapping (es ! i) (es' ! i)" using es'(2) by (auto simp: list_all2_conv_all_nth)
    ultimately show ?thesis using es(6) by (auto simp: same_mapping_def)
  qed
  then show ?thesis using es es' frames_of_same [OF es'(2)] list_all2_lengthD [OF es'(2)] by (auto simp: space_ok_def)
qed

lemma shape_machine:
  assumes "same_tables (machine k) m" "shape frames k PT"
  shows "shape frames (k\<lparr>machine := m\<rparr>) PT"
proof -
  have "pcb_ok (k\<lparr>machine := m\<rparr>) PT i p" if "PT i = Some p" for i p
  proof -
    have "pcb_ok k PT i p" using assms(2) that unfolding shape_def by blast
    then show ?thesis using space_ok_same [OF assms(1)] unfolding pcb_ok_def by fastforce
  qed
  moreover have "pcb_apart (k\<lparr>machine := m\<rparr>) p q = pcb_apart k p q" for p q by (simp add: pcb_apart_def)
  ultimately show ?thesis using assms(2) unfolding shape_def by auto
qed

section \<open>Well-formed systems\<close>

text \<open>The semaphores of user programs are none of those the process table uses.\<close>

definition sems_apart :: "STable \<Rightarrow> (nat \<rightharpoonup> PCB) \<Rightarrow> bool" where
  "sems_apart st PT \<longleftrightarrow> (\<forall>i p a. PT i = Some p \<and> a \<in> snd ` set (sem_list st) \<longrightarrow> a \<notin> psems p)"

definition sys_ok :: "Sys \<Rightarrow> bool" where
  "sys_ok s \<longleftrightarrow> proc_ok (proc s) \<and> fs_ok (fsys (proc s)) \<and> st_ok (semTab s) (kern (proc s)) \<and> trans_ok (mach s) \<and>
     sems_apart (semTab s) (pcbs (proc s))"

text \<open>The registers after a system call: the program counters have moved on, register 2 may hold a result.\<close>

definition advanced :: "(nat \<Rightarrow> 32 word) \<Rightarrow> (nat \<Rightarrow> 32 word) \<Rightarrow> bool" where
  "advanced r r' \<longleftrightarrow> r' PrevPCReg = r PCReg \<and> r' PCReg = r NextPCReg \<and> r' NextPCReg = r NextPCReg + 4 \<and>
     (\<forall>n. n \<notin> {2, PCReg, NextPCReg, PrevPCReg} \<longrightarrow> r' n = r n)"

text \<open>How a system call that started in \<open>s0\<close> may end.\<close>

definition good :: "Sys \<Rightarrow> (unit call_result \<times> Sys) res \<Rightarrow> bool" where
  "good s0 r \<longleftrightarrow> (\<exists>c s. r = Inr (c, s) \<and> (case c of
     Returns _ \<Rightarrow> sys_ok s \<and> \<not> idling (kern (proc s)) \<and> advanced (regs (mach s0)) (regs (mach s))
   | Sleeps \<Rightarrow> proc_ok (proc s) \<and> fs_ok (fsys (proc s))
   | Halts \<Rightarrow> True))"

text \<open>A state in the middle of a system call: registers as at its start.\<close>

definition mid :: "Sys \<Rightarrow> Sys \<Rightarrow> bool" where
  "mid s0 s \<longleftrightarrow> sys_ok s \<and> \<not> idling (kern (proc s)) \<and> regs (mach s) = regs (mach s0)"

lemma mach_put [simp]: "mach (put_mach m s) = m" "proc (put_mach m s) = (proc s)\<lparr>kern := (kern (proc s))\<lparr>machine := m\<rparr>\<rparr>"
  "semTab (put_mach m s) = semTab s" "console (put_mach m s) = console s"
  by (simp_all add: mach_def put_mach_def put_kern_def)

lemma st_ok_sems: "sems k' = sems k \<Longrightarrow> st_ok st k' = st_ok st k"
  by (simp add: st_ok_def)

lemma sys_ok_mach:
  assumes "sys_ok s" "trans_ok m" "same_tables (mach s) m"
  shows "sys_ok (put_mach m s)"
proof -
  have "shape (gPhysPageBitMap (proc s)) ((kern (proc s))\<lparr>machine := m\<rparr>) (pcbs (proc s))"
    using assms(1,3) by (intro shape_machine) (auto simp: sys_ok_def proc_ok_def mach_def)
  then have "proc_ok ((proc s)\<lparr>kern := (kern (proc s))\<lparr>machine := m\<rparr>\<rparr>)" using assms(1) by (simp add: sys_ok_def proc_ok_def)
  moreover have "st_ok (semTab s) ((kern (proc s))\<lparr>machine := m\<rparr>)" using assms(1) st_ok_sems [of "(kern (proc s))\<lparr>machine := m\<rparr>"] by (simp add: sys_ok_def)
  ultimately show ?thesis using assms(1,2) by (simp add: sys_ok_def)
qed

lemma mid_copied: "mid s0 s \<Longrightarrow> copied (mach s) m \<Longrightarrow> mid s0 (put_mach m s)"
  using sys_ok_mach [of s m] by (simp add: mid_def copied_def)

lemma AdjustPCRegs_eq:
  "AdjustPCRegs m = Inr (m\<lparr>regs := (regs m)(PrevPCReg := regs m PCReg, PCReg := regs m NextPCReg, NextPCReg := regs m NextPCReg + 4)\<rparr>)"
  by (simp add: AdjustPCRegs_def ReadRegister_def WriteRegister_def ASSERT_def)

lemma WriteRegister_2: "WriteRegister m 2 v = Inr (m\<lparr>regs := (regs m)(2 := v)\<rparr>)"
  by (simp add: WriteRegister_def ASSERT_def)

lemma sys_ok_regs: "sys_ok s \<Longrightarrow> sys_ok (put_mach ((mach s)\<lparr>regs := r\<rparr>) s)"
  by (rule sys_ok_mach) (auto simp: sys_ok_def intro: same_tables_eq)

lemma good_advance: "mid s0 s \<Longrightarrow> good s0 (advance s)"
  unfolding advance_def AdjustPCRegs_eq rbind_Inr good_def
  by (auto simp: mid_def sys_ok_regs advanced_def)

lemma good_finish_call: "mid s0 s \<Longrightarrow> good s0 (finish_call v s)"
proof -
  assume m: "mid s0 s"
  let ?m = "(mach s)\<lparr>regs := (regs (mach s))(2 := v)\<rparr>"
  let ?r = "(regs ?m)(PrevPCReg := regs ?m PCReg, PCReg := regs ?m NextPCReg, NextPCReg := regs ?m NextPCReg + 4)"
  have "finish_call v s = Inr (Returns (), put_mach (?m\<lparr>regs := ?r\<rparr>) (put_mach ?m s))"
    unfolding finish_call_def WriteRegister_2 rbind_Inr advance_def AdjustPCRegs_eq mach_put ..
  moreover have "sys_ok (put_mach ?m s)" using m sys_ok_regs by (simp add: mid_def)
  then have "sys_ok (put_mach (?m\<lparr>regs := ?r\<rparr>) (put_mach ?m s))" using sys_ok_regs [of "put_mach ?m s" ?r] by simp
  ultimately show ?thesis using m by (simp add: good_def mid_def advanced_def)
qed

lemma good_with_reg: "n < int NumTotalRegs \<Longrightarrow> 0 \<le> n \<Longrightarrow> good s0 (f (regs (mach s) (nat n)) s) \<Longrightarrow> good s0 (with_reg n f s)"
  by (simp add: with_reg_def ReadRegister_def)

lemma good_unless_null: "mid s0 s \<Longrightarrow> good s0 (f s) \<Longrightarrow> good s0 (unless_null a f s)"
  by (simp add: unless_null_def good_finish_call)

lemma good_halt: "good s0 (Inr (Halts, s))"
  by (simp add: good_def)

lemma good_sleep: "mid s0 s \<Longrightarrow> good s0 (Inr (Sleeps, s))"
  by (simp add: good_def mid_def sys_ok_def)

lemma good_copy_in:
  assumes "mid s0 s" "\<And>buf s'. length buf = n + 1 \<Longrightarrow> mid s0 s' \<Longrightarrow> fsys (proc s') = fsys (proc s) \<Longrightarrow> semTab s' = semTab s \<Longrightarrow>
     sems (kern (proc s')) = sems (kern (proc s)) \<Longrightarrow> pcbs (proc s') = pcbs (proc s) \<Longrightarrow> good s0 (f buf s')"
  shows "good s0 (copy_in a n f s)"
proof -
  have "trans_ok (mach s)" using assms(1) by (simp add: mid_def sys_ok_def)
  then obtain r where r: "User2System (mach s) a n = Inr r" "case r of Inl _ \<Rightarrow> True | Inr (buf, m') \<Rightarrow> copied (mach s) m' \<and> length buf = n + 1"
    using User2System_copied by blast
  show ?thesis
  proof (cases r)
    case (Inl x)
    then show ?thesis using r(1) by (simp add: copy_in_def good_halt)
  next
    case (Inr y)
    then obtain buf m where y: "r = Inr (buf, m)" by (cases y) auto
    then have "good s0 (f buf (put_mach m s))" using r(2) mid_copied [OF assms(1)] by (intro assms(2)) auto
    then show ?thesis using r(1) y by (simp add: copy_in_def)
  qed
qed

lemma good_copy_out:
  assumes "mid s0 s" "len \<le> int (length buf)" "\<And>s'. mid s0 s' \<Longrightarrow> good s0 (f s')"
  shows "good s0 (copy_out a len buf f s)"
proof -
  have "trans_ok (mach s)" using assms(1) by (simp add: mid_def sys_ok_def)
  then obtain r where r: "System2User (mach s) a len buf = Inr r" "case r of Inl _ \<Rightarrow> True | Inr (k, m') \<Rightarrow> copied (mach s) m'"
    using System2User_copied [OF _ assms(2)] by blast
  show ?thesis
  proof (cases r)
    case (Inl x)
    then show ?thesis using r(1) by (simp add: copy_out_def good_halt)
  next
    case (Inr y)
    then obtain k m where y: "r = Inr (k, m)" by (cases y) auto
    then have "good s0 (f (put_mach m s))" using r(2) mid_copied [OF assms(1)] by (intro assms(3)) auto
    then show ?thesis using r(1) y by (simp add: copy_out_def)
  qed
qed

lemma mid_console: "mid s0 s \<Longrightarrow> mid s0 (s\<lparr>console := t\<rparr>)"
  by (simp add: mid_def sys_ok_def mach_def)

lemma good_console_write:
  "mid s0 s \<Longrightarrow> n \<le> int (length buf) \<Longrightarrow> (\<And>r s'. mid s0 s' \<Longrightarrow> good s0 (f r s')) \<Longrightarrow> good s0 (console_write buf n f s)"
  by (simp add: console_write_def SynchConsole_Write_def mid_console)

lemma read_loop_length: "read_loop room into ch ks = Some (into', ch', ks') \<Longrightarrow> length into' \<le> length into + room"
  by (induction room into ch ks rule: read_loop.induct) (force split: if_splits)+

lemma good_console_read:
  assumes "mid s0 s" "0 \<le> n" "\<And>r buf t s'. SynchConsole_Read ch0 n (console s) = Some (r, buf, t) \<Longrightarrow> mid s0 s' \<Longrightarrow> -1 \<le> r \<Longrightarrow> r \<le> n \<Longrightarrow>
     length buf = nat n \<Longrightarrow> good s0 (f r buf s')"
  shows "good s0 (console_read ch0 n f s)"
proof (cases "SynchConsole_Read ch0 n (console s)")
  case None
  then show ?thesis using assms(1) by (simp add: console_read_def good_sleep)
next
  case (Some y)
  then obtain r buf t where y: "SynchConsole_Read ch0 n (console s) = Some (r, buf, t)" by (cases y) auto
  then have "-1 \<le> r \<and> r \<le> n \<and> length buf = nat n"
    using assms(2) by (auto simp: SynchConsole_Read_def split: option.splits if_splits dest!: read_loop_length)
  then show ?thesis using assms(3) [OF y mid_console [OF assms(1)]] y by (simp add: console_read_def)
qed

section \<open>Each system call\<close>

lemmas good_rules = good_finish_call good_advance good_halt good_sleep good_unless_null good_copy_in good_copy_out good_console_write good_console_read

text \<open>Argument registers are read from the registers at the start of the call.\<close>

lemma good_reg:
  assumes "mid s0 s" "n \<in> {2, 4, 5, 6}" "good s0 (f (regs (mach s0) (nat n)) s)"
  shows "good s0 (with_reg n f s)"
  using assms by (auto simp: mid_def intro!: good_with_reg)

lemma good_PrintChar: "mid s0 s \<Longrightarrow> good s0 (SyscallPrintChar s)"
  unfolding SyscallPrintChar_def by (intro good_reg good_rules) auto

lemma good_ReadChar: "mid s0 s \<Longrightarrow> good s0 (SyscallReadChar ch0 s)"
  unfolding SyscallReadChar_def by (intro good_rules) auto

lemma good_PrintString_loop: "mid s0 s \<Longrightarrow> good s0 (PrintString_loop a i n s)"
proof (induction n arbitrary: i s)
  case (Suc n)
  show ?case unfolding PrintString_loop.simps Let_def
  proof (rule good_copy_in [OF Suc.prems], rule good_console_write)
    fix buf :: "byte list" and s' r s''
    assume b: "length buf = BLOCK_SIZE + 1" "mid s0 s'"
    have "length (takeWhile (\<lambda>b. b \<noteq> 0) (take BLOCK_SIZE buf)) \<le> length (take BLOCK_SIZE buf)" by (rule length_takeWhile_le)
    also have "\<dots> \<le> length buf" by simp
    finally show "int (length (takeWhile (\<lambda>b. b \<noteq> 0) (take BLOCK_SIZE buf))) \<le> int (length buf)" by (simp only: of_nat_le_iff)
    assume "mid s0 s''"
    then show "good s0 ((if length (takeWhile (\<lambda>b. b \<noteq> 0) (take BLOCK_SIZE buf)) < BLOCK_SIZE then finish_call 0 else PrintString_loop a (Suc i) n) s'')"
      using Suc.IH good_finish_call by presburger
  qed
qed (simp add: good_finish_call)

lemma good_PrintString: "mid s0 s \<Longrightarrow> good s0 (SyscallPrintString s)"
  unfolding SyscallPrintString_def by (intro good_reg good_unless_null good_PrintString_loop) auto

lemma good_ReadString:
  assumes "mid s0 s" "0 \<le> sint (regs (mach s0) 5)"
    "\<And>r buf t. SynchConsole_Read ch0 (sint (regs (mach s0) 5)) (console s) = Some (r, buf, t) \<Longrightarrow> 0 \<le> r"
  shows "good s0 (SyscallReadString ch0 s)"
  unfolding SyscallReadString_def Let_def
  by (intro good_reg good_unless_null) (use assms in \<open>auto intro!: good_console_read good_copy_out good_finish_call\<close>)

lemma good_PrintInt: "mid s0 s \<Longrightarrow> good s0 (SyscallPrintInt s)"
proof -
  assume m: "mid s0 s"
  let ?n = "sint (regs (mach s0) 4)"
  have "PrintInt_string ?n = Inr (decimal_int ?n)"
    using PrintInt_decimal [of ?n] sint_ge [of "regs (mach s0) 4"] sint_less [of "regs (mach s0) 4"] by simp
  then show ?thesis unfolding SyscallPrintInt_def using m by (intro good_reg) (auto intro!: good_console_write good_advance)
qed

lemma good_ReadInt: "mid s0 s \<Longrightarrow> good s0 (SyscallReadInt s)"
  by (auto simp: SyscallReadInt_def good_sleep split: option.splits intro!: good_finish_call mid_console)

lemma mid_fs: "mid s0 s \<Longrightarrow> fs_ok fs \<Longrightarrow> mid s0 (put_fs fs s)"
  by (simp add: mid_def sys_ok_def mach_def put_fs_def proc_ok_def)

lemma mid_fs_ok: "mid s0 s \<Longrightarrow> fs_ok (fsys (proc s))"
  by (simp add: mid_def sys_ok_def)

lemma good_CreateFile: "mid s0 s \<Longrightarrow> good s0 (SyscallCreateFile s)"
  unfolding SyscallCreateFile_def
proof (intro good_reg good_unless_null good_copy_in)
  fix buf s' assume s': "mid s0 s'"
  obtain fs where "FileSystem_Create (cstring buf) (fsys (proc s')) = Inr (True, fs)" "fs_ok fs" using Create_ok [OF mid_fs_ok [OF s']] by blast
  then show "good s0 (rbind (FileSystem_Create (cstring buf) (fsys (proc s'))) (\<lambda>(success, fs). finish_call (if success then 0 else - 1) (put_fs fs s')))"
    using mid_fs [OF s'] by (simp add: good_finish_call)
qed auto

lemma fopen_fs_ok: "fs_ok fs \<Longrightarrow> \<exists>fid fs'. FileSystem_fopen name ty fs = Inr (fid, fs') \<and> fs_ok fs'"
  using fopen_cases [of fs ty name] fs_ok_opened [of fs] by (fastforce split: if_splits)

lemma fclose_fs_ok: "fs_ok fs \<Longrightarrow> \<exists>r fs'. FileSystem_fclose fid fs = Inr (r, fs') \<and> fs_ok fs'"
  using fclose_cases [of fs fid] fs_ok_closed [of fs "nat fid"] by (fastforce split: option.splits if_splits)

lemma good_Open: "mid s0 s \<Longrightarrow> good s0 (SyscallOpen s)"
  unfolding SyscallOpen_def
proof (intro good_reg good_unless_null good_copy_in)
  fix buf s' assume s': "mid s0 s'"
  let ?ty = "sint (regs (mach s0) (nat 5))"
  obtain fid fs where "FileSystem_fopen (cstring buf) ?ty (fsys (proc s')) = Inr (fid, fs)" "fs_ok fs" using fopen_fs_ok [OF mid_fs_ok [OF s']] by blast
  then show "good s0 (rbind (FileSystem_fopen (cstring buf) ?ty (fsys (proc s'))) (\<lambda>(fid, fs). finish_call (word_of_int fid) (put_fs fs s')))"
    using mid_fs [OF s'] by (simp add: good_finish_call)
qed auto

lemma good_Close: "mid s0 s \<Longrightarrow> good s0 (SyscallClose s)"
  unfolding SyscallClose_def
proof (intro good_reg)
  assume s: "mid s0 s"
  let ?i = "sint (regs (mach s0) (nat 4))"
  obtain r fs where "FileSystem_fclose ?i (fsys (proc s)) = Inr (r, fs)" "fs_ok fs" using fclose_fs_ok [OF mid_fs_ok [OF s]] by blast
  then show "good s0 (rbind (FileSystem_fclose ?i (fsys (proc s))) (\<lambda>(ret, fs). advance (put_fs fs s)))"
    using mid_fs [OF s] by (simp add: good_advance)
qed auto

lemma good_with_file:
  assumes "mid s0 s" "\<And>s. mid s0 s \<Longrightarrow> good s0 (none s)"
    "\<And>x. 0 \<le> fid \<Longrightarrow> files (fsys (proc s)) (nat fid) = Some x \<Longrightarrow> getOpenFile fid (fsys (proc s)) = Inr (Some x) \<Longrightarrow> good s0 (f x s)"
  shows "good s0 (with_file fid none f s)"
  using assms getOpenFile_files [OF mid_fs_ok [OF assms(1)], of fid]
  by (auto simp: with_file_def split: option.splits if_splits)

lemma mid_open: "mid s0 s \<Longrightarrow> fs_ok (put_file fid f h (fsys (proc s))) \<Longrightarrow> mid s0 (put_open fid f h s)"
  by (simp add: put_open_def mid_fs)

lemma good_Read:
  assumes m: "mid s0 s" and small: "\<And>f. getOpenFile (sint (regs (mach s0) 6)) (fsys (proc s)) = Inr (Some f) \<Longrightarrow> currentOffset f + sint (regs (mach s0) 5) < 2 ^ 31"
  shows "good s0 (SyscallRead ch0 s)"
  unfolding SyscallRead_def Let_def
proof (intro good_reg good_unless_null)
  let ?n = "sint (regs (mach s0) (nat 5))" and ?fid = "sint (regs (mach s0) (nat 6))" and ?a = "regs (mach s0) (nat 4)"
  let ?con = "console_read ch0 ?n (\<lambda>charRead buf. if charRead = -1 then finish_call (-2)
               else copy_out ?a (charRead + 1) (take (nat charRead) buf @ [0]) (finish_call (word_of_int charRead)))"
  let ?body = "\<lambda>f s. rbind (OpenFile_Read f ?n (host (fsys (proc s)))) (\<lambda>(charRead, buf, f', h).
                 if 0 \<le> charRead
                 then copy_out ?a charRead buf (finish_call (if 0 < charRead then word_of_int charRead else -2)) (put_open ?fid f' h s)
                 else finish_call (-1) (put_open ?fid f' h s))"
  have con: "good s0 (?con s)" if "0 \<le> ?n" using m that by (auto intro!: good_console_read good_copy_out good_finish_call)
  have body: "good s0 (?body f s)" if f: "0 \<le> ?n" "0 \<le> ?fid" "files (fsys (proc s)) (nat ?fid) = Some f" "getOpenFile ?fid (fsys (proc s)) = Inr (Some f)" for f
  proof -
    have "currentOffset f + ?n < 2 ^ 31" using small f(4) by simp
    then obtain bs f' h' where r: "OpenFile_Read f ?n (host (fsys (proc s))) = Inr (int (length bs), bs, f', h')"
      "fs_ok (put_file ?fid f' h' (fsys (proc s)))" using stub_read [OF mid_fs_ok [OF m] f(3,1)] f(2) by auto
    then show ?thesis using mid_open [OF m r(2)] by (auto intro!: good_copy_out good_finish_call)
  qed
  show "good s0 ((if ?fid = 1 \<or> ?n < 0 then finish_call (- 1) else if ?fid = 0 then ?con else with_file ?fid (finish_call (- 1)) ?body) s)"
    using m con body by (auto simp: good_finish_call intro!: good_with_file)
qed (use m in auto)

lemma good_Write:
  assumes m: "mid s0 s" and small: "\<And>f. getOpenFile (sint (regs (mach s0) 6)) (fsys (proc s)) = Inr (Some f) \<Longrightarrow> currentOffset f + sint (regs (mach s0) 5) < 2 ^ 31"
  shows "good s0 (SyscallWrite s)"
  unfolding SyscallWrite_def Let_def
proof (intro good_reg good_unless_null)
  let ?n = "sint (regs (mach s0) (nat 5))" and ?fid = "sint (regs (mach s0) (nat 6))" and ?a = "regs (mach s0) (nat 4)"
  let ?con = "copy_in ?a (nat ?n) (\<lambda>buf. console_write buf ?n (\<lambda>charWritten. finish_call (word_of_int charWritten)))"
  let ?act = "\<lambda>f buf s. rbind (OpenFile_Write f buf ?n (host (fsys (proc s)))) (\<lambda>(charWritten, f', h).
                 finish_call (if charWritten = ?n then word_of_int ?n else -1) (put_open ?fid f' h s))"
  have con: "good s0 (?con s)" if "0 \<le> ?n" using m that by (auto intro!: good_copy_in good_console_write good_finish_call)
  have body: "good s0 (copy_in ?a (nat ?n) (?act f) s)" if f: "0 \<le> ?n" "0 \<le> ?fid" "files (fsys (proc s)) (nat ?fid) = Some f" "getOpenFile ?fid (fsys (proc s)) = Inr (Some f)" for f
  proof (rule good_copy_in [OF m])
    fix buf :: "byte list" and s' assume s': "length buf = nat ?n + 1" "mid s0 s'" "fsys (proc s') = fsys (proc s)"
    have "currentOffset f + ?n < 2 ^ 31" using small f(4) by simp
    then obtain r f' h' where r: "OpenFile_Write f buf ?n (host (fsys (proc s'))) = Inr (r, f', h')"
      "fs_ok (put_file ?fid f' h' (fsys (proc s')))" using stub_write [OF mid_fs_ok [OF m] f(3,1), of buf] f(1,2) s'(1,3) by auto
    then show "good s0 (?act f buf s')" using mid_open [OF s'(2) r(2)] by (simp add: good_finish_call)
  qed
  show "good s0 ((if ?fid = 0 \<or> ?n < 0 then finish_call (- 1) else if ?fid = 1 then ?con else with_file ?fid (finish_call (- 1)) (\<lambda>f. copy_in ?a (nat ?n) (?act f))) s)"
    using m con body by (auto simp: good_finish_call intro!: good_with_file)
qed (use m in auto)

lemma good_Seek:
  assumes m: "mid s0 s" and small: "\<And>f ino. getOpenFile (sint (regs (mach s0) 5)) (fsys (proc s)) = Inr (Some f) \<Longrightarrow>
     file_of (host (fsys (proc s))) (host_fd f) = Some ino \<Longrightarrow> int (length (inodes (host (fsys (proc s))) ino)) < 2 ^ 31"
  shows "good s0 (SyscallSeek s)"
  unfolding SyscallSeek_def Let_def
proof (intro good_reg)
  let ?p = "sint (regs (mach s0) (nat 4))" and ?fid = "sint (regs (mach s0) (nat 5))"
  let ?body = "\<lambda>f s. rbind (OpenFile_Seek f ?p (host (fsys (proc s)))) (\<lambda>(new_pos, f', h). finish_call (word_of_int new_pos) (put_open ?fid f' h s))"
  have p: "?p < 2 ^ 31" using sint_less [of "regs (mach s0) (nat 4)"] by simp
  have body: "good s0 (?body f s)" if f: "0 \<le> ?fid" "files (fsys (proc s)) (nat ?fid) = Some f" "getOpenFile ?fid (fsys (proc s)) = Inr (Some f)" for f
  proof -
    obtain r f' h' where r: "OpenFile_Seek f ?p (host (fsys (proc s))) = Inr (r, f', h')" "fs_ok (put_file ?fid f' h' (fsys (proc s)))"
      using stub_seek [OF mid_fs_ok [OF m] f(2) p] small f(1,3) by auto
    then show ?thesis using mid_open [OF m r(2)] by (simp add: good_finish_call)
  qed
  show "good s0 ((if ?fid < 2 then finish_call (- 1) else with_file ?fid (finish_call (- 1)) ?body) s)"
    using m body by (auto simp: good_finish_call intro!: good_with_file)
qed (use m in auto)

section \<open>Semaphores and processes\<close>

lemma st_ok_dom: "dom (sems k') = dom (sems k) \<Longrightarrow> st_ok st k' = st_ok st k"
proof -
  assume d: "dom (sems k') = dom (sems k)"
  have "sems k' a \<noteq> None \<longleftrightarrow> sems k a \<noteq> None" for a using d by (metis domIff)
  then show ?thesis unfolding st_ok_def by presburger
qed

lemma mid_quiet:
  assumes "mid s0 s" "quiet (kern (proc s)) k"
  shows "mid s0 (put_kern k s)"
proof -
  have k: "kept (kern (proc s)) k" "kernel_ok k" "machine k = machine (kern (proc s))" "idling k = idling (kern (proc s))"
    using assms(2) by (auto simp: quiet_def)
  have "shape (gPhysPageBitMap (proc s)) k (pcbs (proc s))" using shape_kept [OF k(1)] assms(1) by (simp add: mid_def sys_ok_def proc_ok_def)
  then have "proc_ok ((proc s)\<lparr>kern := k\<rparr>)" using proc_ok_kern k(2) assms(1) by (simp add: mid_def sys_ok_def)
  moreover have "st_ok (semTab s) k" using st_ok_dom [OF keptD(1) [OF k(1)]] assms(1) by (simp add: mid_def sys_ok_def)
  ultimately show ?thesis using assms(1) k(3,4) by (simp add: mid_def sys_ok_def put_kern_def mach_def)
qed

lemma good_Signal: "mid s0 s \<Longrightarrow> good s0 (SyscallSignal s)"
  unfolding SyscallSignal_def
proof (intro good_reg good_unless_null good_copy_in)
  fix buf s' assume s': "mid s0 s'"
  let ?k = "kern (proc s')" and ?st = "semTab s'" and ?n = "cstring buf"
  have ok: "st_ok ?st ?k" "kernel_ok ?k" using s' by (auto simp: mid_def sys_ok_def proc_ok_def)
  show "good s0 (rbind (STable_signal ?n ?st ?k) (\<lambda>(r, k). finish_call (word_of_int r) (put_kern k s')))"
  proof (cases "sem_map ?st ?n")
    case None
    then have "STable_signal ?n ?st ?k = Inr (-1, ?k)" using st_ok_search_None [OF ok(1) None] by (simp add: STable_signal_def)
    moreover have "put_kern ?k s' = s'" by (simp add: put_kern_def)
    ultimately show ?thesis using s' by (simp add: good_finish_call)
  next
    case (Some a)
    obtain j x where j: "sem_search (lockTab ?st) ?n 0 = Inr (Some j)" "lockTab ?st ! j = CObj x" "sem_ptr x = Some a"
      using st_ok_search_Some [OF ok(1) Some] by blast
    obtain k' where k': "V a ?k = Inr k'" "quiet ?k k'" using V_is_quiet [OF ok(2)] sem_map_live [OF ok(1) Some] by blast
    then have "STable_signal ?n ?st ?k = Inr (0, k')" using j by (simp add: STable_signal_def Sem_signal_def)
    then show ?thesis using mid_quiet [OF s' k'(2)] by (simp add: good_finish_call)
  qed
qed auto

lemma good_Wait: "mid s0 s \<Longrightarrow> good s0 (SyscallWait s)"
  unfolding SyscallWait_def
proof (intro good_reg good_unless_null good_copy_in)
  fix buf s' assume s': "mid s0 s'"
  let ?k = "kern (proc s')" and ?st = "semTab s'" and ?n = "cstring buf"
  have ok: "st_ok ?st ?k" "kernel_ok ?k" "\<not> idling ?k" using s' by (auto simp: mid_def sys_ok_def proc_ok_def)
  show "good s0 (rbind (STable_wait ?n ?st ?k) (\<lambda>(r, k, ps). case r of
       None \<Rightarrow> Inr (Sleeps, put_kern k s') | Some v \<Rightarrow> finish_call (word_of_int v) (put_kern k s')))"
  proof (cases "sem_map ?st ?n")
    case None
    then have "STable_wait ?n ?st ?k = Inr (Some (-1), ?k, [])" using st_ok_search_None [OF ok(1) None] by (simp add: STable_wait_def)
    moreover have "put_kern ?k s' = s'" by (simp add: put_kern_def)
    ultimately show ?thesis using s' by (simp add: good_finish_call)
  next
    case (Some a)
    obtain j x where j: "sem_search (lockTab ?st) ?n 0 = Inr (Some j)" "lockTab ?st ! j = CObj x" "sem_ptr x = Some a"
      using st_ok_search_Some [OF ok(1) Some] by blast
    have live: "sems ?k a \<noteq> None" by (rule sem_map_live [OF ok(1) Some])
    obtain k' ps where k': "P a ?k = Inr (k', ps)" "kernel_ok k'" using P_lands [OF ok(2,3) live] by blast
    have w: "STable_wait ?n ?st ?k = Inr (if currentThread ?k \<in> fst ` set ps then Some 0 else None, k', ps)"
      using j k'(1) by (simp add: STable_wait_def Sem_wait_def)
    have "a \<in> snd ` set (sem_list ?st)" using Some by (force simp: sem_map_def dest: map_of_SomeD)
    then have none: "a \<notin> psems q" if "pcbs (proc s') i = Some q" for i q using s' that unfolding mid_def sys_ok_def sems_apart_def by blast
    have "shape (gPhysPageBitMap (proc s')) ?k (pcbs (proc s'))" using s' unfolding mid_def sys_ok_def proc_ok_def by blast
    then have "shape (gPhysPageBitMap (proc s')) k' (pcbs (proc s'))" by (rule P_shape [OF _ _ k'(1)]) (use none in blast)
    then have "proc_ok ((proc s')\<lparr>kern := k'\<rparr>)" using proc_ok_kern k'(2) s' by (simp add: mid_def sys_ok_def)
    then have "good s0 (Inr (Sleeps, put_kern k' s'))" using s' by (simp add: good_def put_kern_def mid_def sys_ok_def)
    moreover have "good s0 (finish_call 0 (put_kern k' s'))" if "currentThread ?k \<in> fst ` set ps"
      using mid_quiet [OF s' P_passes [OF ok(2,3) live k'(1) that]] by (rule good_finish_call)
    ultimately show ?thesis using w by simp
  qed
qed auto

lemma shape_new_sem:
  assumes "shape frames k PT" "sems k a = None"
  shows "shape frames (k\<lparr>sems := (sems k)(a \<mapsto> x)\<rparr>) PT"
proof -
  have "pcb_ok (k\<lparr>sems := (sems k)(a \<mapsto> x)\<rparr>) PT i p" if "PT i = Some p" for i p
  proof -
    have "pcb_ok k PT i p" using assms(1) that unfolding shape_def by blast
    then show ?thesis unfolding pcb_ok_def by auto
  qed
  moreover have "pcb_apart (k\<lparr>sems := (sems k)(a \<mapsto> x)\<rparr>) p q = pcb_apart k p q" for p q by (simp add: pcb_apart_def)
  ultimately show ?thesis using assms(1) unfolding shape_def by auto
qed

lemma good_CreateSemaphore:
  assumes m: "mid s0 s" and fresh: "sems (kern (proc s)) addr = None"
  shows "good s0 (SyscallCreateSemaphore addr s)"
  unfolding SyscallCreateSemaphore_def
proof (intro good_reg)
  let ?v = "sint (regs (mach s0) (nat 5))" and ?a = "regs (mach s0) (nat 4)"
  let ?act = "\<lambda>buf s. rbind (STable_create (cstring buf) ?v addr (semTab s) (kern (proc s))) (\<lambda>(r, st, k).
         finish_call (word_of_int r) (put_kern k (s\<lparr>semTab := st\<rparr>)))"
  have "good s0 (copy_in ?a (MAX_SEMNAME_LEN + 1) ?act s)" if v: "0 \<le> ?v"
  proof (rule good_copy_in [OF m])
    fix buf s' assume s': "mid s0 s'" and "sems (kern (proc s')) = sems (kern (proc s))"
    then have fr: "sems (kern (proc s')) addr = None" using fresh by simp
    let ?k = "kern (proc s')" and ?st = "semTab s'" and ?n = "cstring buf"
    have ok: "st_ok ?st ?k" "kernel_ok ?k" "\<not> idling ?k" "shape (gPhysPageBitMap (proc s')) ?k (pcbs (proc s'))" "sems_apart ?st (pcbs (proc s'))"
      using s' by (auto simp: mid_def sys_ok_def proc_ok_def)
    show "good s0 (?act buf s')"
    proof (cases "sem_map ?st ?n \<noteq> None \<or> marked (st_bm ?st) = {..<MAX_LOCK}")
      case True
      then have "STable_create ?n ?v addr ?st ?k = Inr (-1, ?st, ?k)" using create_fails [OF ok(1)] by blast
      moreover have "put_kern ?k (s'\<lparr>semTab := ?st\<rparr>) = s'" by (simp add: put_kern_def)
      ultimately show ?thesis using s' by (simp add: good_finish_call)
    next
      case False
      let ?k' = "?k\<lparr>sems := (sems ?k)(addr \<mapsto> Semaphore_new ?v)\<rparr>"
      obtain st' where st': "STable_create ?n ?v addr ?st ?k = Inr (0, st', ?k')" "st_ok st' ?k'" "snd ` set (sem_list st') = insert addr (snd ` set (sem_list ?st))"
        using create_ok [OF ok(1) v _ _ fr, of ?n] False by blast
      have "enabled (ANewSem addr ?v) ?k" using ok(3) fr v by simp
      then have "kernel_ok ?k'" using act_ok [OF ok(2), of "ANewSem addr ?v"] by (simp add: lands_def)
      then have "proc_ok ((proc s')\<lparr>kern := ?k'\<rparr>)"
        using proc_ok_kern [OF _ _ shape_new_sem [OF ok(4) fr]] s' by (simp add: mid_def sys_ok_def)
      moreover have "addr \<notin> psems q" if "pcbs (proc s') i = Some q" for i q
        using ok(4) that fr unfolding shape_def pcb_ok_def by blast
      then have "sems_apart st' (pcbs (proc s'))" using ok(5) unfolding sems_apart_def st'(3) by blast
      ultimately have "mid s0 (put_kern ?k' (s'\<lparr>semTab := st'\<rparr>))" using s' st'(2) ok(3) by (simp add: mid_def sys_ok_def put_kern_def mach_def)
      then show ?thesis using st'(1) by (simp add: good_finish_call)
    qed
  qed
  then show "good s0 ((if ?a = 0 \<or> ?v < 0 then finish_call (- 1) else copy_in ?a (MAX_SEMNAME_LEN + 1) ?act) s)"
    using m by (auto simp: good_finish_call)
qed (use m in auto)

lemma good_proc_result:
  assumes "mid s0 s" "proc_ok p" "fsys p = fsys (proc s)" "\<And>v. r = Returns v \<Longrightarrow> mid s0 (s\<lparr>proc := p\<rparr>)"
  shows "good s0 (proc_result (r, p) s)"
proof (cases r)
  case (Returns v)
  then show ?thesis using assms(4) by (simp add: proc_result_def Let_def good_finish_call)
qed (use assms in \<open>auto simp: proc_result_def good_def mid_def sys_ok_def\<close>)

lemma good_Join: "mid s0 s \<Longrightarrow> good s0 (SyscallJoin s)"
  unfolding SyscallJoin_def
proof (intro good_reg)
  assume s: "mid s0 s"
  let ?i = "sint (regs (mach s0) (nat 4))"
  have ok: "proc_ok (proc s)" "\<not> idling (kern (proc s))" using s by (auto simp: mid_def sys_ok_def)
  obtain r p where r: "JoinUpdate ?i (proc s) = Inr (r, p)" "proc_ok p" "fsys p = fsys (proc s)"
    "\<forall>j q. pcbs p j = Some q \<longrightarrow> (\<exists>q0. pcbs (proc s) j = Some q0 \<and> psems q = psems q0)"
    "r = Sleeps \<or> (\<exists>v. r = Returns v) \<and> quiet (kern (proc s)) (kern p)" using Join_total [OF ok] by blast
  have "mid s0 (s\<lparr>proc := p\<rparr>)" if "quiet (kern (proc s)) (kern p)"
  proof -
    have k: "kept (kern (proc s)) (kern p)" "machine (kern p) = machine (kern (proc s))" "idling (kern p) = idling (kern (proc s))"
      using that by (auto simp: quiet_def)
    have "st_ok (semTab s) (kern p)" using st_ok_dom [OF keptD(1) [OF k(1)]] s by (simp add: mid_def sys_ok_def)
    moreover have "sems_apart (semTab s) (pcbs p)" using s r(4) unfolding mid_def sys_ok_def sems_apart_def by metis
    ultimately show ?thesis using s r(2,3) k by (simp add: mid_def sys_ok_def mach_def)
  qed
  then have "good s0 (proc_result (r, p) s)" using r(5) by (intro good_proc_result [OF s r(2,3)]) auto
  then show "good s0 (rbind (JoinUpdate ?i (proc s)) (\<lambda>r. proc_result r s))" using r(1) by simp
qed auto

lemma good_Exit:
  assumes s: "mid s0 s" and idle: "\<forall>i p x. pcbs (proc s) i = Some p \<and> 0 < numwait p \<and> sems (kern (proc s)) (exitsem p) = Some x \<longrightarrow> sem_value x = 0"
  shows "good s0 (SyscallExit s)"
  unfolding SyscallExit_def
proof (intro good_reg)
  let ?i = "sint (regs (mach s0) (nat 4))"
  have ok: "proc_ok (proc s)" "\<not> idling (kern (proc s))" using s by (auto simp: mid_def sys_ok_def)
  obtain r p where r: "ExitUpdate ?i (proc s) = Inr (r, p)" "proc_ok p" "fsys p = fsys (proc s)" "r \<noteq> Sleeps \<longrightarrow> p = proc s"
    using Exit_total [OF ok idle] by blast
  have "good s0 (proc_result (r, p) s)" using r(4) s by (intro good_proc_result [OF s r(2,3)]) auto
  then show "good s0 (rbind (ExitUpdate ?i (proc s)) (\<lambda>r. proc_result r s))" using r(1) by simp
qed (use s in auto)

section \<open>Properties\<close>

text \<open>
  The system calls that cannot abort the kernel: a known code other than \<open>Exec\<close> (which asserts that the
  program fits in memory), a \<open>ReadString\<close> with room and without an end of input, reads, writes and
  seeks within 2 GB, no exit of a process whose \<open>exitsem\<close> was signalled early, an unused address for a new semaphore.
\<close>

definition safe_call :: "Env \<Rightarrow> Sys \<Rightarrow> bool" where
  "safe_call e s \<longleftrightarrow> (let r = regs (mach s); ty = sint (r 2); fs = fsys (proc s) in
     ty \<in> {0, 1, 3} \<union> {9..25} \<and>
     (ty = 15 \<longrightarrow> 0 \<le> sint (r 5) \<and> (\<forall>v buf t. SynchConsole_Read (stale_ch e) (sint (r 5)) (console s) = Some (v, buf, t) \<longrightarrow> 0 \<le> v)) \<and>
     (ty = 19 \<or> ty = 20 \<longrightarrow> (\<forall>f. getOpenFile (sint (r 6)) fs = Inr (Some f) \<longrightarrow> currentOffset f + sint (r 5) < 2 ^ 31)) \<and>
     (ty = 21 \<longrightarrow> (\<forall>f ino. getOpenFile (sint (r 5)) fs = Inr (Some f) \<and> file_of (host fs) (host_fd f) = Some ino \<longrightarrow> int (length (inodes (host fs) ino)) < 2 ^ 31)) \<and>
     (ty = 1 \<longrightarrow> (\<forall>i p x. pcbs (proc s) i = Some p \<and> 0 < numwait p \<and> sems (kern (proc s)) (exitsem p) = Some x \<longrightarrow> sem_value x = 0)) \<and>
     (ty = 23 \<longrightarrow> sems (kern (proc s)) (new_sem e) = None))"

lemma good_dispatch:
  assumes s: "sys_ok s" "\<not> idling (kern (proc s))" and c: "safe_call e s"
  shows "good s (dispatch e (sint (regs (mach s) 2)) s)"
proof -
  have m: "mid s s" using s by (simp add: mid_def)
  let ?ty = "sint (regs (mach s) 2)"
  have ty: "?ty \<in> {0, 1, 3} \<union> {9..25}" using c by (simp add: safe_call_def Let_def)
  have e15: "?ty = 15 \<Longrightarrow> good s (SyscallReadString (stale_ch e) s)" using c by (intro good_ReadString [OF m]) (auto simp: safe_call_def Let_def)
  have e19: "?ty = 19 \<Longrightarrow> good s (SyscallRead (stale_ch e) s)" using c by (intro good_Read [OF m]) (auto simp: safe_call_def Let_def)
  have e20: "?ty = 20 \<Longrightarrow> good s (SyscallWrite s)" using c by (intro good_Write [OF m]) (auto simp: safe_call_def Let_def)
  have e21: "?ty = 21 \<Longrightarrow> good s (SyscallSeek s)" using c by (intro good_Seek [OF m]) (auto simp: safe_call_def Let_def)
  have e1: "?ty = 1 \<Longrightarrow> good s (SyscallExit s)" using c unfolding safe_call_def Let_def by (intro good_Exit [OF m]) blast
  have e23: "?ty = 23 \<Longrightarrow> good s (SyscallCreateSemaphore (new_sem e) s)" using c by (intro good_CreateSemaphore [OF m]) (simp add: safe_call_def Let_def)
  have known: "t \<in> {0, 1, 3} \<union> {9..25} \<Longrightarrow> t \<in> {0, 1, 3, 9, 10, 11, 12, 13, 14, 15, 16, 17, 18, 19, 20, 21, 22, 23, 24, 25}" for t :: int
    by (simp, presburger)
  show ?thesis using known [OF ty] e15 e19 e20 e21 e1 e23 m
    unfolding dispatch_def insert_iff empty_iff
    by (elim disjE) (simp_all add: Halt_def good_halt good_ReadInt good_PrintInt good_ReadChar good_PrintChar good_PrintString good_CreateFile
        good_Open good_Close good_Join good_Wait good_Signal)
qed


text \<open>The second of the two processes calls \<open>PrintChar('A')\<close>.\<close>

definition demo_machine :: Machine where
  "demo_machine = two_spaces\<lparr>pageTable := Some 1, pageTableSize := 1, regs := (\<lambda>_. 0)(2 := 14, 4 := 65, PCReg := 8, NextPCReg := 12)\<rparr>"

definition demo_sys :: Sys where
  "demo_sys = \<lparr>proc = demo_proc\<lparr>kern := demo_kernel\<lparr>machine := demo_machine\<rparr>\<rparr>, console = \<lparr>keys = [], screen = []\<rparr>,
     semTab = \<lparr>st_bm = \<lparr>numBits = 10, numWords = 1, bmap = [0]\<rparr>, lockTab = replicate 10 CNull\<rparr>\<rparr>"

definition demo_env :: Env where
  "demo_env = \<lparr>new_addrs = \<lparr>new_joinsem = 7, new_exitsem = 8, new_mutex = 9, new_thread = 2, new_table = 2\<rparr>, new_sem = 10, stack_garbage = (\<lambda>_. 0), stale_ch = 0\<rparr>"

lemma demo_sys_ok: "sys_ok demo_sys" "\<not> idling (kern (proc demo_sys))" "safe_call demo_env demo_sys"
proof -
  have k: "kern demo_proc = demo_kernel" "machine demo_kernel = two_spaces" by (simp_all add: demo_proc_def demo_kernel_def)
  have "same_tables two_spaces demo_machine" by (rule same_tables_eq) (simp add: demo_machine_def)
  then have "shape (gPhysPageBitMap demo_proc) (demo_kernel\<lparr>machine := demo_machine\<rparr>) (pcbs demo_proc)"
    using demo_proc_ok k by (intro shape_machine) (auto simp: proc_ok_def)
  then have p: "proc_ok (proc demo_sys)" using demo_proc_ok demo_kernel_ok by (simp add: demo_sys_def proc_ok_def)
  have l: "sem_list (semTab demo_sys) = []" by (simp add: sem_list_def demo_sys_def sem_entry_def List.map_filter_def)
  have b: "marked (st_bm (semTab demo_sys)) = {}" by (simp add: demo_sys_def marked_def bit_on_def nbits_def)
  have "st_ok (semTab demo_sys) (kern (proc demo_sys))"
    unfolding st_ok_def l b by (auto simp: demo_sys_def bitmap_ok_def nbits_def divRoundUp_def c_arith cell_ok_def)
  moreover have "trans_ok (mach demo_sys)"
    by (simp add: demo_sys_def mach_def demo_machine_def trans_ok_def two_spaces_def Machine_new_def)
  moreover have "fs_ok (fsys (proc demo_sys))" using demo_fs_ok(2) by (simp add: demo_sys_def demo_proc_def)
  moreover have "sems_apart (semTab demo_sys) (pcbs (proc demo_sys))" by (simp add: sems_apart_def l)
  ultimately show "sys_ok demo_sys" using p by (simp add: sys_ok_def)
  show "\<not> idling (kern (proc demo_sys))" by (simp add: demo_sys_def demo_kernel_def)
  have "regs (mach demo_sys) 2 = 14" by (simp add: demo_sys_def mach_def demo_machine_def)
  then show "safe_call demo_env demo_sys" by (simp add: safe_call_def Let_def)
qed


end
