(* ===== verification/Disk_File.thy ===== *)
theory Disk_File
  imports Bit_Map Devices
begin

text \<open>
  Files of the file system on the simulated disk (\<open>filesys/filehdr.cc\<close>, \<open>filesys/openfile.cc\<close>): a
  header, stored in one sector, lists the sectors of the data; an open file is its header
  in memory and a position. The disk is its 1024 sectors of 128 bytes, read and written one at a
  time; \<open>Devices\<close> and \<open>Synch_Devices\<close> show that the disk and its driver provide that.
\<close>

section \<open>Sectors\<close>

type_synonym volume = "nat \<Rightarrow> byte list"

text \<open>\<open>synchDisk->ReadSector\<close> and \<open>synchDisk->WriteSector\<close>, whose requests assert a sector in range.\<close>

definition disk_read :: "int \<Rightarrow> volume \<Rightarrow> byte list res" where
  "disk_read n v = rbind (ASSERT (0 \<le> n \<and> n < NumSectors)) (\<lambda>_. Inr (v (nat n)))"

definition disk_write :: "int \<Rightarrow> byte list \<Rightarrow> volume \<Rightarrow> volume res" where
  "disk_write n data v = rbind (ASSERT (0 \<le> n \<and> n < NumSectors)) (\<lambda>_.
     if length data < nat SectorSize then Inl OutOfBounds else Inr (v(nat n := take (nat SectorSize) data)))"

section \<open>Objects as bytes\<close>

text \<open>An \<open>unsigned\<close> or \<open>int\<close> in memory, little-endian.\<close>

definition word_bytes :: "32 word \<Rightarrow> byte list" where
  "word_bytes w = [ucast w, ucast (drop_bit 8 w), ucast (drop_bit 16 w), ucast (drop_bit 24 w)]"

definition bytes_word :: "byte list \<Rightarrow> 32 word" where
  "bytes_word bs = load_le (\<lambda>k. bs ! k) 0 4"

definition int_bytes :: "int \<Rightarrow> byte list" where
  "int_bytes i = word_bytes (word_of_int i)"

definition bytes_int :: "byte list \<Rightarrow> int" where
  "bytes_int bs = sint (bytes_word bs)"

text \<open>Copying into a buffer at an offset; a copy that leaves the buffer is undefined.\<close>

definition overlay :: "byte list \<Rightarrow> int \<Rightarrow> byte list \<Rightarrow> byte list res" where
  "overlay buf off data =
     (if off < 0 \<or> int (length buf) < off + int (length data) then Inl OutOfBounds
      else Inr (take (nat off) buf @ data @ drop (nat off + length data) buf))"

section \<open>File headers\<close>

abbreviation NumDirect :: nat where "NumDirect \<equiv> 30"

record FileHeader =
  numBytes :: int
  numSectors :: int
  dataSectors :: "int list"

text \<open>The header as the 128 bytes \<open>(char *)this\<close>.\<close>

definition header_image :: "FileHeader \<Rightarrow> byte list" where
  "header_image h = int_bytes (numBytes h) @ int_bytes (numSectors h) @ concat (map int_bytes (dataSectors h))"

definition image_header :: "byte list \<Rightarrow> FileHeader" where
  "image_header bs = \<lparr>numBytes = bytes_int bs, numSectors = bytes_int (drop 4 bs),
     dataSectors = map (\<lambda>i. bytes_int (drop (8 + 4 * i) bs)) [0..<NumDirect]\<rparr>"

definition FileHeader_FetchFrom :: "int \<Rightarrow> volume \<Rightarrow> FileHeader res" where
  "FileHeader_FetchFrom sec v = rbind (disk_read sec v) (\<lambda>bs. Inr (image_header bs))"

definition FileHeader_WriteBack :: "FileHeader \<Rightarrow> int \<Rightarrow> volume \<Rightarrow> volume res" where
  "FileHeader_WriteBack h sec v = disk_write sec (header_image h) v"

text \<open>The loop of \<open>Allocate\<close>: \<open>dataSectors\<close> has 30 entries.\<close>

fun allocate_loop :: "nat \<Rightarrow> nat \<Rightarrow> FileHeader \<Rightarrow> BitMap \<Rightarrow> (FileHeader \<times> BitMap) res" where
  "allocate_loop i 0 h freeMap = Inr (h, freeMap)"
| "allocate_loop i (Suc n) h freeMap = rbind (BitMap_Find freeMap) (\<lambda>(sec, fm).
     if length (dataSectors h) \<le> i then Inl OutOfBounds
     else allocate_loop (Suc i) n (h\<lparr>dataSectors := (dataSectors h)[i := sec]\<rparr>) fm)"

definition Allocate :: "int \<Rightarrow> FileHeader \<Rightarrow> BitMap \<Rightarrow> (bool \<times> FileHeader \<times> BitMap) res" where
  "Allocate fileSize h freeMap =
     (let h1 = h\<lparr>numBytes := fileSize, numSectors := divRoundUp fileSize SectorSize\<rparr>
      in rbind (BitMap_NumClear freeMap) (\<lambda>clear.
           if clear < numSectors h1 then Inr (False, h1, freeMap)
           else rbind (allocate_loop 0 (nat (numSectors h1)) h1 freeMap) (\<lambda>(h2, fm). Inr (True, h2, fm))))"

fun deallocate_loop :: "nat \<Rightarrow> nat \<Rightarrow> FileHeader \<Rightarrow> BitMap \<Rightarrow> BitMap res" where
  "deallocate_loop i 0 h freeMap = Inr freeMap"
| "deallocate_loop i (Suc n) h freeMap =
     (if length (dataSectors h) \<le> i then Inl OutOfBounds
      else rbind (BitMap_Test freeMap (dataSectors h ! i)) (\<lambda>t.
           rbind (ASSERT t) (\<lambda>_.
           rbind (BitMap_Clear freeMap (dataSectors h ! i)) (deallocate_loop (Suc i) n h))))"

definition Deallocate :: "FileHeader \<Rightarrow> BitMap \<Rightarrow> BitMap res" where
  "Deallocate h freeMap = deallocate_loop 0 (nat (numSectors h)) h freeMap"

definition ByteToSector :: "FileHeader \<Rightarrow> int \<Rightarrow> int res" where
  "ByteToSector h offset =
     (let i = offset sdiv SectorSize
      in if i < 0 \<or> int (length (dataSectors h)) \<le> i then Inl OutOfBounds else Inr (dataSectors h ! nat i))"

definition FileLength :: "FileHeader \<Rightarrow> int" where
  "FileLength h = numBytes h"

section \<open>Open files\<close>

record DiskFile =
  hdr :: FileHeader
  seekPosition :: int

definition DiskFile_new :: "int \<Rightarrow> volume \<Rightarrow> DiskFile res" where
  "DiskFile_new sec v = rbind (FileHeader_FetchFrom sec v) (\<lambda>h. Inr \<lparr>hdr = h, seekPosition = 0\<rparr>)"

text \<open>\<open>Seek\<close> has no \<open>return\<close>: its result is undefined, its effect is the new position.\<close>

definition DiskFile_Seek :: "int \<Rightarrow> DiskFile \<Rightarrow> DiskFile" where
  "DiskFile_Seek position f = f\<lparr>seekPosition := position\<rparr>"

definition DiskFile_Length :: "DiskFile \<Rightarrow> int" where
  "DiskFile_Length f = FileLength (hdr f)"

text \<open>The loops over the sectors from \<open>i\<close> on, \<open>n\<close> of them.\<close>

fun read_sectors :: "FileHeader \<Rightarrow> int \<Rightarrow> nat \<Rightarrow> volume \<Rightarrow> byte list res" where
  "read_sectors h i 0 v = Inr []"
| "read_sectors h i (Suc n) v = rbind (ByteToSector h (i * SectorSize)) (\<lambda>sec.
     rbind (disk_read sec v) (\<lambda>bs. rbind (read_sectors h (i + 1) n v) (\<lambda>rest. Inr (bs @ rest))))"

fun write_sectors :: "FileHeader \<Rightarrow> int \<Rightarrow> nat \<Rightarrow> byte list \<Rightarrow> volume \<Rightarrow> volume res" where
  "write_sectors h i 0 buf v = Inr v"
| "write_sectors h i (Suc n) buf v = rbind (ByteToSector h (i * SectorSize)) (\<lambda>sec.
     rbind (disk_write sec buf v) (write_sectors h (i + 1) n (drop (nat SectorSize) buf)))"

text \<open>The part of a request that lies in the file; the sum of position and count is C's.\<close>

definition clip :: "FileHeader \<Rightarrow> int \<Rightarrow> int \<Rightarrow> int" where
  "clip h n position = (if wrap32 (position + n) > FileLength h then FileLength h - position else n)"

definition ReadAt :: "FileHeader \<Rightarrow> int \<Rightarrow> int \<Rightarrow> volume \<Rightarrow> (int \<times> byte list) res" where
  "ReadAt h n position v =
     (if n \<le> 0 \<or> FileLength h \<le> position then Inr (0, [])
      else let k = clip h n position;
               firstSector = divRoundDown position SectorSize;
               lastSector = divRoundDown (wrap32 (position + k) - 1) SectorSize;
               off = position - firstSector * SectorSize
           in rbind (read_sectors h firstSector (nat (1 + lastSector - firstSector)) v) (\<lambda>buf.
                if off < 0 \<or> int (length buf) < off + k then Inl OutOfBounds
                else Inr (k, take (nat k) (drop (nat off) buf))))"

text \<open>\<open>garbage\<close> is the uninitialised memory of the buffer \<open>new char[numSectors * SectorSize]\<close>.\<close>

definition WriteAt :: "(nat \<Rightarrow> byte) \<Rightarrow> FileHeader \<Rightarrow> byte list \<Rightarrow> int \<Rightarrow> int \<Rightarrow> volume \<Rightarrow> (int \<times> volume) res" where
  "WriteAt garbage h from n position v =
     (if n \<le> 0 \<or> FileLength h \<le> position then Inr (0, v)
      else let k = clip h n position;
               firstSector = divRoundDown position SectorSize;
               lastSector = divRoundDown (wrap32 (position + k) - 1) SectorSize;
               num = 1 + lastSector - firstSector;
               firstAligned = (position = firstSector * SectorSize);
               lastAligned = (position + k = (lastSector + 1) * SectorSize);
               buf0 = map garbage [0..<nat (num * SectorSize)]
           in rbind (if \<not> firstAligned
                     then rbind (ReadAt h SectorSize (firstSector * SectorSize) v) (\<lambda>(_, bs). overlay buf0 0 bs)
                     else Inr buf0) (\<lambda>buf1.
              rbind (if \<not> lastAligned \<and> (firstSector \<noteq> lastSector \<or> firstAligned)
                     then rbind (ReadAt h SectorSize (lastSector * SectorSize) v) (\<lambda>(_, bs).
                            overlay buf1 ((lastSector - firstSector) * SectorSize) bs)
                     else Inr buf1) (\<lambda>buf2.
              rbind (if int (length from) < k then Inl OutOfBounds
                     else overlay buf2 (position - firstSector * SectorSize) (take (nat k) from)) (\<lambda>buf3.
              rbind (write_sectors h firstSector (nat num) buf3 v) (\<lambda>v'. Inr (k, v'))))))"

definition DiskFile_Read :: "int \<Rightarrow> DiskFile \<Rightarrow> volume \<Rightarrow> (int \<times> byte list \<times> DiskFile) res" where
  "DiskFile_Read n f v = rbind (ReadAt (hdr f) n (seekPosition f) v) (\<lambda>(result, bs).
     Inr (result, bs, f\<lparr>seekPosition := wrap32 (seekPosition f + result)\<rparr>))"

definition DiskFile_Write :: "(nat \<Rightarrow> byte) \<Rightarrow> byte list \<Rightarrow> int \<Rightarrow> DiskFile \<Rightarrow> volume \<Rightarrow> (int \<times> DiskFile \<times> volume) res" where
  "DiskFile_Write garbage into n f v = rbind (WriteAt garbage (hdr f) into n (seekPosition f) v) (\<lambda>(result, v').
     Inr (result, f\<lparr>seekPosition := wrap32 (seekPosition f + result)\<rparr>, v'))"

section \<open>Blocks of equal size\<close>

lemma length_blocks: "\<forall>x\<in>set xs. length x = n \<Longrightarrow> length (concat xs) = n * length xs"
  by (induction xs) auto

lemma drop_blocks: "\<forall>x\<in>set xs. length x = n \<Longrightarrow> drop (n * i) (concat xs) = concat (drop i xs)"
proof (induction i arbitrary: xs)
  case (Suc i)
  then show ?case by (cases xs) (simp_all add: add.commute [of n])
qed simp

lemma take_blocks: "\<forall>x\<in>set xs. length x = n \<Longrightarrow> take (n * i) (concat xs) = concat (take i xs)"
proof (induction i arbitrary: xs)
  case (Suc i)
  then show ?case by (cases xs) (simp_all add: add.commute [of n])
qed simp

lemma slice_blocks:
  assumes "\<forall>x\<in>set xs. length x = n"
  shows "take (n * m) (drop (n * i) (concat xs)) = concat (take m (drop i xs))"
proof -
  have "\<forall>x\<in>set (drop i xs). length x = n" using assms in_set_dropD by fast
  then show ?thesis by (simp add: drop_blocks [OF assms] take_blocks)
qed

lemma nth_block:
  assumes "\<forall>x\<in>set xs. length x = n" "i < length xs"
  shows "drop (n * i) (concat xs) = xs ! i @ concat (drop (Suc i) xs)"
  using assms(2) by (simp add: drop_blocks [OF assms(1)] Cons_nth_drop_Suc [symmetric])

lemma blocks_of_chunks:
  assumes "\<forall>x\<in>set xs. length x = n" "length buf = n * length xs"
    and "\<forall>j<length xs. xs ! j = take n (drop (n * j) buf)"
  shows "concat xs = buf"
  using assms
proof (induction xs arbitrary: buf)
  case (Cons x xs)
  have x: "x = take n buf" using Cons.prems(3) by (metis drop_0 length_greater_0_conv list.discI mult_0_right nth_Cons_0)
  have "\<forall>j<length xs. xs ! j = take n (drop (n * j) (drop n buf))"
  proof (intro allI impI)
    fix j assume "j < length xs"
    then have "(x # xs) ! Suc j = take n (drop (n * Suc j) buf)" using Cons.prems(3) by auto
    then show "xs ! j = take n (drop (n * j) (drop n buf))" by (simp add: add.commute)
  qed
  then have "concat xs = drop n buf" using Cons.prems by (intro Cons.IH) auto
  then show ?case using x by simp
qed simp

section \<open>Words as bytes\<close>

lemma length_word_bytes [simp]: "length (word_bytes w) = 4" "length (int_bytes i) = 4"
  by (simp_all add: word_bytes_def int_bytes_def)

lemma bytes_word_bytes [simp]: "bytes_word (word_bytes w @ bs) = w"
proof (rule bit_word_eqI)
  fix k :: nat assume "k < LENGTH(32)"
  then consider "k < 8" | "8 \<le> k" "k < 16" | "16 \<le> k" "k < 24" | "24 \<le> k" "k < 32" by fastforce
  then show "bit (bytes_word (word_bytes w @ bs)) k = bit w k"
    by cases (auto simp: bytes_word_def word_bytes_def load_le_def bit_simps nth_Cons')
qed

definition int32 :: "int \<Rightarrow> bool" where
  "int32 i \<longleftrightarrow> - (2 ^ 31) \<le> i \<and> i < 2 ^ 31"

lemma bytes_int_bytes: "int32 i \<Longrightarrow> bytes_int (int_bytes i @ bs) = i"
  by (simp add: bytes_int_def int_bytes_def int32_def signed_take_bit_int_eq_self sint_word_ariths sint_sbintrunc')

lemma wrap32_int32: "int32 i \<Longrightarrow> wrap32 i = i"
  by (simp add: int32_def wrap32_id)

lemma header_roundtrip:
  assumes "int32 (numBytes h)" "int32 (numSectors h)" "\<forall>s\<in>set (dataSectors h). int32 s" "length (dataSectors h) = NumDirect"
  shows "image_header (header_image h @ bs) = h"
proof -
  have "bytes_int (drop (8 + 4 * i) (header_image h @ bs)) = dataSectors h ! i" if i: "i < NumDirect" for i
  proof -
    have b: "\<forall>x\<in>set (map int_bytes (dataSectors h)). length x = 4" by simp
    have "drop (8 + 4 * i) (header_image h @ bs) = drop (4 * i) (concat (map int_bytes (dataSectors h)) @ bs)"
      by (simp add: header_image_def add.commute)
    also have "\<dots> = int_bytes (dataSectors h ! i) @ concat (drop (Suc i) (map int_bytes (dataSectors h))) @ drop (4 * i - length (concat (map int_bytes (dataSectors h)))) bs"
      using nth_block [OF b, of i] i assms(4) by simp
    finally show ?thesis using i assms(3,4) by (simp add: bytes_int_bytes)
  qed
  then have "map (\<lambda>i. bytes_int (drop (8 + 4 * i) (header_image h @ bs))) [0..<NumDirect] = dataSectors h"
    using assms(4) by (intro nth_equalityI) auto
  moreover have "bytes_int (header_image h @ bs) = numBytes h" "bytes_int (drop 4 (header_image h @ bs)) = numSectors h"
    using assms(1,2) by (simp_all add: header_image_def bytes_int_bytes)
  ultimately show ?thesis by (simp add: image_header_def)
qed

section \<open>The contents of a file\<close>

definition vol_ok :: "volume \<Rightarrow> bool" where
  "vol_ok v \<longleftrightarrow> (\<forall>i<1024. length (v i) = 128)"

definition blocks :: "FileHeader \<Rightarrow> nat list" where
  "blocks h = map nat (take (nat (numSectors h)) (dataSectors h))"

definition header_ok :: "FileHeader \<Rightarrow> bool" where
  "header_ok h \<longleftrightarrow> 0 \<le> numBytes h \<and> numSectors h = divRoundUp (numBytes h) SectorSize \<and> numSectors h \<le> int NumDirect \<and>
     length (dataSectors h) = NumDirect \<and> (\<forall>s\<in>set (take (nat (numSectors h)) (dataSectors h)). 0 \<le> s \<and> s < NumSectors) \<and>
     distinct (blocks h)"

definition raw_bytes :: "FileHeader \<Rightarrow> volume \<Rightarrow> byte list" where
  "raw_bytes h v = concat (map v (blocks h))"

definition file_bytes :: "FileHeader \<Rightarrow> volume \<Rightarrow> byte list" where
  "file_bytes h v = take (nat (numBytes h)) (raw_bytes h v)"

lemma header_okD:
  assumes "header_ok h"
  shows "length (blocks h) = nat (numSectors h)" "numBytes h \<le> 128 * numSectors h" "128 * numSectors h < numBytes h + 128"
    "0 \<le> numSectors h" "numSectors h \<le> 30" "numBytes h \<le> 3840" "0 \<le> numBytes h" "set (blocks h) \<subseteq> {..<1024}"
proof -
  have h: "0 \<le> numBytes h" "numSectors h = divRoundUp (numBytes h) SectorSize" "numSectors h \<le> 30" "length (dataSectors h) = 30"
    using assms by (auto simp: header_ok_def)
  note d = divRoundUp_bounds [OF h(1), of 128]
  then show "numBytes h \<le> 128 * numSectors h" "128 * numSectors h < numBytes h + 128" "0 \<le> numSectors h" "numSectors h \<le> 30" "0 \<le> numBytes h"
    using h by simp_all
  then show "numBytes h \<le> 3840" by simp
  show "length (blocks h) = nat (numSectors h)" using h by (simp add: blocks_def)
  have "x < 1024" if x: "x \<in> set (blocks h)" for x
  proof -
    obtain s where "s \<in> set (take (nat (numSectors h)) (dataSectors h))" "x = nat s" using x by (auto simp: blocks_def)
    then show ?thesis using assms unfolding header_ok_def by (metis nat_less_iff of_nat_numeral)
  qed
  then show "set (blocks h) \<subseteq> {..<1024}" by auto
qed

lemma blocks_len: "vol_ok v \<Longrightarrow> set bs \<subseteq> {..<1024} \<Longrightarrow> \<forall>x\<in>set (map v bs). length x = 128"
  by (auto simp: vol_ok_def)

lemma length_raw_bytes:
  assumes "header_ok h" "vol_ok v"
  shows "length (raw_bytes h v) = 128 * length (blocks h)"
  using length_blocks [OF blocks_len [OF assms(2) header_okD(8) [OF assms(1)]]] by (simp add: raw_bytes_def)

lemma length_file_bytes:
  assumes "header_ok h" "vol_ok v"
  shows "length (file_bytes h v) = nat (numBytes h)"
proof -
  have "nat (numBytes h) \<le> 128 * length (blocks h)" using header_okD(1,2,4,7) [OF assms(1)] by (simp add: nat_le_eq_zle)
  then show ?thesis by (simp add: file_bytes_def length_raw_bytes [OF assms])
qed

lemma ByteToSector_eq:
  assumes "header_ok h" "i < length (blocks h)"
  shows "ByteToSector h (int i * SectorSize) = Inr (int (blocks h ! i))" "blocks h ! i < 1024"
proof -
  have l: "i < 30" "i < nat (numSectors h)" "length (dataSectors h) = 30" using assms header_okD(1,5) [OF assms(1)] by (auto simp: header_ok_def)
  have "dataSectors h ! i \<in> set (take (nat (numSectors h)) (dataSectors h))" using l by (auto simp: in_set_conv_nth intro!: exI [of _ i])
  then have "0 \<le> dataSectors h ! i" "dataSectors h ! i < 1024" using assms(1) by (auto simp: header_ok_def)
  then show "ByteToSector h (int i * SectorSize) = Inr (int (blocks h ! i))" "blocks h ! i < 1024"
    using l by (simp_all add: ByteToSector_def c_arith blocks_def)
qed

lemma read_sectors_eq:
  assumes "header_ok h" "vol_ok v"
  shows "i + n \<le> length (blocks h) \<Longrightarrow> read_sectors h (int i) n v = Inr (take (128 * n) (drop (128 * i) (raw_bytes h v)))"
proof -
  have "i + n \<le> length (blocks h) \<Longrightarrow> read_sectors h (int i) n v = Inr (concat (map v (take n (drop i (blocks h)))))"
  proof (induction n arbitrary: i)
    case (Suc n)
    then have "take (Suc n) (drop i (blocks h)) = blocks h ! i # take n (drop (Suc i) (blocks h))"
      by (simp add: Cons_nth_drop_Suc [symmetric])
    moreover have "read_sectors h (int i + 1) n v = Inr (concat (map v (take n (drop (Suc i) (blocks h)))))"
      using Suc.IH [of "Suc i"] Suc.prems by (simp add: add.commute)
    ultimately show ?case using ByteToSector_eq [OF assms(1), of i] Suc.prems by (simp add: disk_read_def)
  qed simp
  then show "i + n \<le> length (blocks h) \<Longrightarrow> ?thesis"
    using slice_blocks [OF blocks_len [OF assms(2) header_okD(8) [OF assms(1)]], of n i] by (simp add: raw_bytes_def take_map drop_map)
qed

lemma disk_write_eq: "vol_ok v \<Longrightarrow> s < 1024 \<Longrightarrow> 128 \<le> length buf \<Longrightarrow>
    disk_write (int s) buf v = Inr (v(s := take 128 buf)) \<and> vol_ok (v(s := take 128 buf))"
  by (auto simp: disk_write_def vol_ok_def)

lemma write_sectors_eq:
  assumes "header_ok h"
  shows "vol_ok v \<Longrightarrow> i + n \<le> length (blocks h) \<Longrightarrow> length buf = 128 * n \<Longrightarrow>
    \<exists>v'. write_sectors h (int i) n buf v = Inr v' \<and> vol_ok v' \<and>
      (\<forall>j<n. v' (blocks h ! (i + j)) = take 128 (drop (128 * j) buf)) \<and> (\<forall>s. s \<notin> set (take n (drop i (blocks h))) \<longrightarrow> v' s = v s)"
proof (induction n arbitrary: i buf v)
  case (Suc n)
  let ?s = "blocks h ! i" and ?v1 = "v(blocks h ! i := take 128 buf)"
  have i: "i < length (blocks h)" and d: "distinct (blocks h)" using Suc.prems assms by (simp_all add: header_ok_def)
  have t: "take (Suc n) (drop i (blocks h)) = ?s # take n (drop (Suc i) (blocks h))"
    using Suc.prems by (simp add: Cons_nth_drop_Suc [symmetric])
  have "128 \<le> length buf" using Suc.prems(3) by simp
  then have w: "disk_write (int ?s) buf v = Inr ?v1" "vol_ok ?v1" using disk_write_eq [OF Suc.prems(1) ByteToSector_eq(2) [OF assms i]] by auto
  have le: "Suc i + n \<le> length (blocks h)" "length (drop 128 buf) = 128 * n" using Suc.prems(2,3) by simp_all
  obtain v' where v': "write_sectors h (int (Suc i)) n (drop 128 buf) ?v1 = Inr v'" "vol_ok v'"
    "\<forall>j<n. v' (blocks h ! (Suc i + j)) = take 128 (drop (128 * j) (drop 128 buf))"
    "\<forall>s. s \<notin> set (take n (drop (Suc i) (blocks h))) \<longrightarrow> v' s = ?v1 s"
    using Suc.IH [OF w(2) le] by blast
  have r: "write_sectors h (int i) (Suc n) buf v = Inr v'"
    using ByteToSector_eq(1) [OF assms i] w(1) v'(1) by (simp add: add.commute)
  have "distinct (?s # drop (Suc i) (blocks h))" using d i by (simp only: Cons_nth_drop_Suc distinct_drop)
  then have "?s \<notin> set (take n (drop (Suc i) (blocks h)))" using in_set_takeD by fastforce
  then have s: "v' ?s = take 128 buf" using v'(4) by simp
  have chunks: "v' (blocks h ! (i + j)) = take 128 (drop (128 * j) buf)" if "j < Suc n" for j
  proof (cases j)
    case (Suc k)
    then have "v' (blocks h ! (Suc i + k)) = take 128 (drop (128 * k) (drop 128 buf))" using v'(3) that by blast
    then show ?thesis using Suc by (simp add: add.commute)
  qed (use s in simp)
  show ?case
  proof (intro exI conjI allI impI)
    show "write_sectors h (int i) (Suc n) buf v = Inr v'" by (rule r)
    show "v' x = v x" if "x \<notin> set (take (Suc n) (drop i (blocks h)))" for x using v'(4) that t by auto
  qed (use v'(2) chunks in auto)
qed simp

lemma write_sectors_raw:
  assumes "header_ok h" "vol_ok v" "i + n \<le> length (blocks h)" "length buf = 128 * n"
  shows "\<exists>v'. write_sectors h (int i) n buf v = Inr v' \<and> vol_ok v' \<and> (\<forall>s. s \<notin> set (blocks h) \<longrightarrow> v' s = v s) \<and>
     raw_bytes h v' = take (128 * i) (raw_bytes h v) @ buf @ drop (128 * (i + n)) (raw_bytes h v)"
proof -
  let ?B = "blocks h"
  obtain v' where v': "write_sectors h (int i) n buf v = Inr v'" "vol_ok v'"
      "\<forall>j<n. v' (?B ! (i + j)) = take 128 (drop (128 * j) buf)" "\<forall>s. s \<notin> set (take n (drop i ?B)) \<longrightarrow> v' s = v s"
    using write_sectors_eq [OF assms] by blast
  note in1024 = header_okD(8) [OF assms(1)]
  have split: "?B = take i ?B @ take n (drop i ?B) @ drop (i + n) ?B"
    by (metis append_take_drop_id drop_drop add.commute)
  have d: "set (take i ?B) \<inter> set (take n (drop i ?B)) = {}" "set (take n (drop i ?B)) \<inter> set (drop (i + n) ?B) = {}"
    using assms(1) split distinct_append [of "take i ?B" "take n (drop i ?B) @ drop (i + n) ?B"]
      distinct_append [of "take n (drop i ?B)" "drop (i + n) ?B"] by (auto simp: header_ok_def)
  have same: "map v' (take i ?B) = map v (take i ?B)" "map v' (drop (i + n) ?B) = map v (drop (i + n) ?B)"
    using d v'(4) by (auto intro!: map_cong)
  have sub: "set (take n (drop i ?B)) \<subseteq> {..<1024}" using in1024 set_take_subset [of n] set_drop_subset [of i ?B] by (meson subset_trans)
  have "concat (map v' (take n (drop i ?B))) = buf"
    using blocks_len [OF v'(2) sub] assms(3,4) v'(3) by (intro blocks_of_chunks [of _ 128]) auto
  then have "raw_bytes h v' = concat (map v (take i ?B)) @ buf @ concat (map v (drop (i + n) ?B))"
    using split same by (metis concat_append map_append raw_bytes_def)
  also have "\<dots> = take (128 * i) (raw_bytes h v) @ buf @ drop (128 * (i + n)) (raw_bytes h v)"
    using drop_blocks [OF blocks_len [OF assms(2) in1024], of "i + n"] take_blocks [OF blocks_len [OF assms(2) in1024], of i]
    by (simp add: raw_bytes_def take_map drop_map)
  finally have "raw_bytes h v' = take (128 * i) (raw_bytes h v) @ buf @ drop (128 * (i + n)) (raw_bytes h v)" .
  moreover have "\<forall>s. s \<notin> set ?B \<longrightarrow> v' s = v s" using v'(4) in_set_takeD in_set_dropD by metis
  ultimately show ?thesis using v'(1,2) by blast
qed

section \<open>Reading\<close>

lemma window:
  fixes P K ns :: nat
  assumes "0 < K" "P + K \<le> 128 * ns"
  shows "128 * (P div 128) \<le> P" "P < 128 * (P div 128) + 128" "P div 128 \<le> (P + K - 1) div 128" "(P + K - 1) div 128 < ns"
    "P + K \<le> 128 * Suc ((P + K - 1) div 128)" "128 * ((P + K - 1) div 128) < P + K"
  using assms by (auto intro: div_le_mono)

text \<open>The request of \<open>n\<close> bytes at \<open>position\<close>, as the \<open>K\<close> bytes at \<open>P\<close> it means and the sectors they are in.\<close>

lemma request:
  assumes h: "header_ok h" and p: "0 \<le> position" "0 < n" "position < FileLength h" "int32 (position + n)"
  defines "P \<equiv> nat position" and "K \<equiv> min (nat n) (nat (numBytes h) - nat position)"
  shows "clip h n position = int K" "divRoundDown position SectorSize = int (P div 128)"
    "divRoundDown (wrap32 (position + int K) - 1) SectorSize = int ((P + K - 1) div 128)" "0 < K" "P + K \<le> nat (numBytes h)" "position = int P"
    "(P + K - 1) div 128 < length (blocks h)" "P + K \<le> 128 * length (blocks h)"
proof -
  have K: "0 < K" "P + K \<le> nat (numBytes h)" "int K = min n (numBytes h - position)" using p by (auto simp: K_def P_def FileLength_def)
  show "position = int P" using p by (simp add: P_def)
  show "clip h n position = int K" using K(3) p by (auto simp: clip_def wrap32_int32 FileLength_def)
  show "divRoundDown position SectorSize = int (P div 128)" using p by (simp add: divRoundDown_def c_arith P_def zdiv_int)
  have "int32 (position + int K)" using K p by (auto simp: int32_def)
  then have "wrap32 (position + int K) - 1 = int (P + K - 1)" using K(1) p by (simp add: wrap32_int32 P_def)
  then show "divRoundDown (wrap32 (position + int K) - 1) SectorSize = int ((P + K - 1) div 128)"
    by (simp add: divRoundDown_def c_arith zdiv_int del: of_nat_add)
  show "P + K \<le> 128 * length (blocks h)" using K(2) header_okD(1,2) [OF h] by linarith
  from window(4) [OF K(1) this] show "(P + K - 1) div 128 < length (blocks h)" .
qed (use p in \<open>auto simp: K_def P_def FileLength_def\<close>)

lemma ReadAt_eq:
  assumes h: "header_ok h" and v: "vol_ok v" and p: "0 \<le> position" "int32 (position + n)"
  shows "ReadAt h n position v = (let bs = take (nat n) (drop (nat position) (file_bytes h v)) in Inr (int (length bs), bs))"
proof (cases "n \<le> 0 \<or> FileLength h \<le> position")
  case True
  then show ?thesis using length_file_bytes [OF h v] p(1) by (auto simp: ReadAt_def FileLength_def)
next
  case False
  then have np: "0 < n" "position < FileLength h" by auto
  define P K where "P = nat position" and "K = min (nat n) (nat (numBytes h) - nat position)"
  note r = request [OF h p(1) np p(2), folded P_def K_def]
  note w = window [OF r(4,8)]
  let ?F = "P div 128" and ?E = "(P + K - 1) div 128" and ?R = "raw_bytes h v"
  define m where "m = Suc ?E - ?F"
  have m: "?F + m \<le> length (blocks h)" "nat (1 + int ?E - int ?F) = m" "128 * m = 128 * Suc ?E - 128 * ?F"
    using r(7) w(3) unfolding m_def by (linarith, linarith, simp only: diff_mult_distrib2)
  have l: "length ?R = 128 * length (blocks h)" by (rule length_raw_bytes [OF h v])
  have buf: "length (take (128 * m) (drop (128 * ?F) ?R)) = 128 * m" using l m(1) by simp
  have off: "P - 128 * ?F + K \<le> 128 * m" using w(1,5) m(3) by linarith
  have "take K (drop (P - 128 * ?F) (take (128 * m) (drop (128 * ?F) ?R))) = take K (drop P ?R)"
    using w(1) off by (simp add: drop_take min_absorb1)
  also have "\<dots> = take (nat n) (drop P (file_bytes h v))"
    by (simp add: file_bytes_def drop_take K_def P_def)
  finally have bs: "take K (drop (P - 128 * ?F) (take (128 * m) (drop (128 * ?F) ?R))) = take (nat n) (drop P (file_bytes h v))" .
  have "length (take (nat n) (drop P (file_bytes h v))) = K" using length_file_bytes [OF h v] by (simp add: K_def P_def min.commute)
  moreover have "nat (int P - int ?F * 128) = P - 128 * ?F" using w(1) by linarith
  moreover have "\<not> (int P - int ?F * 128 < 0 \<or> int (128 * m) < int P - int ?F * 128 + int K)" using w(1) off by linarith
  ultimately show ?thesis using False bs buf
    unfolding ReadAt_def Let_def r(1,2,3) m(2) read_sectors_eq [OF h v m(1)] rbind_Inr
    by (simp add: r(6) del: length_take length_drop)
qed

section \<open>Writing\<close>

lemma overlay_ok:
  assumes "off + length data \<le> length buf"
  shows "\<exists>buf'. overlay buf (int off) data = Inr buf' \<and> length buf' = length buf \<and>
    (\<forall>j<length buf. buf' ! j = (if off \<le> j \<and> j < off + length data then data ! (j - off) else buf ! j))"
  using assms by (auto simp: overlay_def nth_append intro!: arg_cong2 [of _ _ _ _ nth])

text \<open>Reading the file's bytes of one sector into the buffer, where the code does.\<close>

lemma overlay_sector:
  fixes S D m :: nat and B :: "byte list"
  assumes "length buf = 128 * m" "128 * S + 128 \<le> 128 * m" "D = 128 * (F + S)"
  shows "\<exists>buf'. (if c then overlay buf (int (128 * S)) (take 128 (drop D B)) else Inr buf) = Inr buf' \<and> length buf' = 128 * m \<and>
    (\<forall>j<128 * m. buf' ! j = (if c \<and> 128 * S \<le> j \<and> j < 128 * S + 128 \<and> 128 * F + j < length B then B ! (128 * F + j) else buf ! j))"
proof (cases c)
  case True
  have "128 * S + length (take 128 (drop D B)) \<le> length buf" using assms(1,2) by simp
  then obtain buf' where b: "overlay buf (int (128 * S)) (take 128 (drop D B)) = Inr buf'" "length buf' = length buf"
    "\<forall>j<length buf. buf' ! j = (if 128 * S \<le> j \<and> j < 128 * S + length (take 128 (drop D B)) then take 128 (drop D B) ! (j - 128 * S) else buf ! j)"
    using overlay_ok by blast
  have "buf' ! j = (if 128 * S \<le> j \<and> j < 128 * S + 128 \<and> 128 * F + j < length B then B ! (128 * F + j) else buf ! j)" if j: "j < length buf" for j
  proof (cases "128 * S \<le> j \<and> j < 128 * S + 128 \<and> 128 * F + j < length B")
    case True
    then have "j < 128 * S + length (take 128 (drop D B))" "D + (j - 128 * S) = 128 * F + j" "j - 128 * S < 128" "D \<le> length B" using assms(3) by auto
    then show ?thesis using b(3) j True by simp
  next
    case False
    then have "\<not> (128 * S \<le> j \<and> j < 128 * S + length (take 128 (drop D B)))" using assms(3) by auto
    then show ?thesis using b(3) j unfolding if_not_P [OF False] by presburger
  qed
  then show ?thesis using True b(1,2) assms(1) by simp
qed (use assms(1) in simp)

text \<open>The partial sectors at both ends are read first, so that what is not overwritten stays.\<close>

lemma write_buffer:
  fixes F E P K L :: nat and B :: "byte list"
  assumes "F \<le> E" "128 * F \<le> P" "P < 128 * F + 128" "P + K \<le> 128 * Suc E" "128 * E < P + K" "0 < K"
    and b0: "length buf0 = 128 * (Suc E - F)" and L: "length B = L"
  shows "\<exists>buf1. (if \<not> P = 128 * F then overlay buf0 0 (take 128 (drop (128 * F) B)) else Inr buf0) = Inr buf1 \<and>
     (\<exists>buf2. (if \<not> P + K = 128 * Suc E \<and> (F \<noteq> E \<or> P = 128 * F)
        then overlay buf1 (int (128 * (E - F))) (take 128 (drop (128 * E) B)) else Inr buf1) = Inr buf2 \<and>
      length buf2 = 128 * (Suc E - F) \<and>
      (\<forall>j<128 * (Suc E - F). 128 * F + j < L \<and> (128 * F + j < P \<or> P + K \<le> 128 * F + j) \<longrightarrow> buf2 ! j = B ! (128 * F + j)))"
proof -
  let ?m = "Suc E - F"
  have m: "128 * 0 + 128 \<le> 128 * ?m" "128 * (E - F) + 128 = 128 * ?m" "F + (E - F) = E" using assms(1) by (simp_all add: Suc_diff_le)
  define c1 c2 where "c1 = (\<not> P = 128 * F)" and "c2 = (\<not> P + K = 128 * Suc E \<and> (F \<noteq> E \<or> P = 128 * F))"
  obtain buf1 where b1: "(if c1 then overlay buf0 (int (128 * 0)) (take 128 (drop (128 * F) B)) else Inr buf0) = Inr buf1" "length buf1 = 128 * ?m"
    "\<forall>j<128 * ?m. buf1 ! j = (if c1 \<and> 128 * 0 \<le> j \<and> j < 128 * 0 + 128 \<and> 128 * F + j < length B then B ! (128 * F + j) else buf0 ! j)"
    using overlay_sector [OF b0 m(1), of "128 * F" F c1 B] by auto
  obtain buf2 where b2: "(if c2 then overlay buf1 (int (128 * (E - F))) (take 128 (drop (128 * E) B)) else Inr buf1) = Inr buf2" "length buf2 = 128 * ?m"
    "\<forall>j<128 * ?m. buf2 ! j = (if c2 \<and> 128 * (E - F) \<le> j \<and> j < 128 * (E - F) + 128 \<and> 128 * F + j < length B then B ! (128 * F + j) else buf1 ! j)"
    using overlay_sector [OF b1(2), of "E - F" "128 * E" F c2 B] m(2,3) by auto
  have "buf2 ! j = B ! (128 * F + j)" if j: "j < 128 * ?m" "128 * F + j < L" "128 * F + j < P \<or> P + K \<le> 128 * F + j" for j
  proof (cases "c2 \<and> 128 * (E - F) \<le> j")
    case True
    then show ?thesis using b2(3) j m(2) L by simp
  next
    case False
    have "128 * F + 128 * (E - F) = 128 * E" using m(3) by (metis distrib_left)
    then have "c1" "j < 128" using False j assms(1-6) m(2) unfolding c1_def c2_def by auto
    then show ?thesis using b1(3) b2(3) j L False by simp
  qed
  then show ?thesis using b1(1) b2(1,2) unfolding c1_def c2_def by auto
qed

definition write_at :: "byte list \<Rightarrow> nat \<Rightarrow> byte list \<Rightarrow> byte list" where
  "write_at B P data = (let bs = take (length B - P) data in take P B @ bs @ drop (P + length bs) B)"

lemma write_back_bytes:
  fixes F m P K L :: nat
  assumes "128 * F \<le> P" "P + K \<le> 128 * (F + m)" "P + K \<le> L" "L \<le> length R" "128 * (F + m) \<le> length R" "length data = K"
    and "length buf2 = 128 * m" "\<forall>j<128 * m. 128 * F + j < L \<and> (128 * F + j < P \<or> P + K \<le> 128 * F + j) \<longrightarrow> buf2 ! j = take L R ! (128 * F + j)"
  shows "\<exists>buf3. overlay buf2 (int (P - 128 * F)) data = Inr buf3 \<and> length buf3 = 128 * m \<and>
    take L (take (128 * F) R @ buf3 @ drop (128 * (F + m)) R) = take P (take L R) @ data @ drop (P + K) (take L R)"
proof -
  have "P - 128 * F + length data \<le> length buf2" using assms by (simp add: algebra_simps)
  then obtain buf3 where b3: "overlay buf2 (int (P - 128 * F)) data = Inr buf3" "length buf3 = length buf2"
    "\<forall>j<length buf2. buf3 ! j = (if P - 128 * F \<le> j \<and> j < P - 128 * F + length data then data ! (j - (P - 128 * F)) else buf2 ! j)"
    using overlay_ok by blast
  have "take L (take (128 * F) R @ buf3 @ drop (128 * (F + m)) R) = take P (take L R) @ data @ drop (P + K) (take L R)" (is "?A = ?B")
  proof (rule nth_equalityI)
    show "length ?A = length ?B" using assms b3(2) by (simp add: algebra_simps)
    fix a assume "a < length ?A"
    then have a: "a < L" by simp
    have B: "?B ! a = (if P \<le> a \<and> a < P + K then data ! (a - P) else R ! a)" using a assms by (auto simp: nth_append)
    consider "a < 128 * F" | "128 * F \<le> a" "a < 128 * (F + m)" | "128 * (F + m) \<le> a" by linarith
    then show "?A ! a = ?B ! a"
    proof cases
      case 1
      then have "?A ! a = R ! a" using a assms by (simp add: nth_append)
      then show ?thesis using B 1 assms(1) by simp
    next
      case 2
      let ?j = "a - 128 * F"
      have j: "?j < 128 * m" using 2 by (simp add: algebra_simps)
      have "?A ! a = (take (128 * F) R @ buf3 @ drop (128 * (F + m)) R) ! a" using a by (rule nth_take)
      then have A: "?A ! a = buf3 ! ?j" using 2 a j assms b3(2) by (simp add: nth_append)
      show ?thesis
      proof (cases "P \<le> a \<and> a < P + K")
        case True
        then have "P - 128 * F \<le> ?j" "?j < P - 128 * F + length data" "?j - (P - 128 * F) = a - P" using 2 assms(1,6) by linarith+
        then have "buf3 ! ?j = data ! (a - P)" using b3(3) j assms(7) by simp
        then show ?thesis using A B True by simp
      next
        case False
        then have "\<not> (P - 128 * F \<le> ?j \<and> ?j < P - 128 * F + length data)" using 2 assms(1,6) by linarith
        then have "buf3 ! ?j = buf2 ! ?j" using b3(3) j assms(7) by presburger
        also have "\<dots> = R ! a" using assms(8) j False 2 a by auto
        finally show ?thesis using A B False by simp
      qed
    next
      case 3
      then have n: "\<not> a < 128 * F" "\<not> a - 128 * F < 128 * m" "128 * (F + m) + (a - 128 * F - 128 * m) = a" "a < length R" "128 * F \<le> length R"
        using a assms(4,5) by (simp_all add: distrib_left)
      have t: "length (take (128 * F) R) = 128 * F" "length buf3 = 128 * m" using n(5) b3(2) assms(7) by simp_all
      have "?A ! a = (take (128 * F) R @ buf3 @ drop (128 * (F + m)) R) ! a" using a by (rule nth_take)
      also have "\<dots> = drop (128 * (F + m)) R ! (a - length (take (128 * F) R) - length buf3)"
        using n t by (simp only: nth_append if_False)
      also have "\<dots> = R ! (128 * (F + m) + (a - 128 * F - 128 * m))" unfolding t using assms(5) by (rule nth_drop)
      also have "\<dots> = R ! a" unfolding n(3) ..
      finally have "?A ! a = R ! a" .
      then show ?thesis using B 3 assms(2) by simp
    qed
  qed
  moreover have "length buf3 = 128 * m" using b3(2) assms(7) by (rule trans)
  ultimately show ?thesis using b3(1) by (intro exI [of _ buf3] conjI)
qed

lemma sector_offsets:
  fixes F E P K :: nat
  assumes "F \<le> E" "128 * F \<le> P"
  shows "int P - int F * 128 = int (P - 128 * F)" "(int E - int F) * 128 = int (128 * (E - F))"
     "int P = int F * 128 \<longleftrightarrow> P = 128 * F" "int P + int K = (int E + 1) * 128 \<longleftrightarrow> P + K = 128 * Suc E" "int F = int E \<longleftrightarrow> F = E"
  using assms by (auto simp: of_nat_diff)

lemma WriteAt_eq:
  assumes h: "header_ok h" and v: "vol_ok v" and p: "0 \<le> position" "int32 (position + n)" and fr: "n \<le> int (length from)"
  shows "\<exists>v'. WriteAt garbage h from n position v = Inr (int (min (nat n) (nat (numBytes h) - nat position)), v') \<and> vol_ok v' \<and>
    (\<forall>s. s \<notin> set (blocks h) \<longrightarrow> v' s = v s) \<and> file_bytes h v' = write_at (file_bytes h v) (nat position) (take (nat n) from)"
proof (cases "n \<le> 0 \<or> FileLength h \<le> position")
  case True
  then have "write_at (file_bytes h v) (nat position) (take (nat n) from) = file_bytes h v"
    using length_file_bytes [OF h v] by (auto simp: write_at_def Let_def FileLength_def nat_le_iff)
  then show ?thesis using True v p(1) by (auto simp: WriteAt_def FileLength_def)
next
  case False
  then have np: "0 < n" "position < FileLength h" by auto
  define P K where "P = nat position" and "K = min (nat n) (nat (numBytes h) - nat position)"
  note r = request [OF h p(1) np p(2), folded P_def K_def]
  note w = window [OF r(4,8)]
  let ?F = "P div 128" and ?E = "(P + K - 1) div 128" and ?R = "raw_bytes h v" and ?B = "file_bytes h v"
  define m where "m = Suc ?E - ?F"
  have sm: "?F + m = Suc ?E" using w(3) by (simp add: m_def)
  then have mi: "1 + int ?E - int ?F = int m" by linarith
  have m: "?F + m \<le> length (blocks h)" "nat (1 + int ?E - int ?F) = m" "nat ((1 + int ?E - int ?F) * 128) = 128 * m" "?F + m = Suc ?E"
    using r(7) sm unfolding mi by linarith+
  have L: "length ?B = nat (numBytes h)" "length ?R = 128 * length (blocks h)" by (rule length_file_bytes [OF h v] length_raw_bytes [OF h v])+
  have rd: "ReadAt h 128 (int x * 128) v = Inr (int (length (take 128 (drop (128 * x) ?B))), take 128 (drop (128 * x) ?B))" if "x < length (blocks h)" for x
  proof -
    have "int x < 30" using that header_okD(1,4,5) [OF h] by linarith
    then have "int32 (int x * 128 + 128)" by (simp add: int32_def)
    moreover have "nat (int x * 128) = 128 * x" by linarith
    ultimately show ?thesis using ReadAt_eq [OF h v, of "int x * 128" 128] by (simp add: Let_def)
  qed
  have F: "?F < length (blocks h)" using w(3) r(7) by linarith
  obtain buf1 buf2 where b: "(if \<not> P = 128 * ?F then overlay (map garbage [0..<128 * m]) 0 (take 128 (drop (128 * ?F) ?B)) else Inr (map garbage [0..<128 * m])) = Inr buf1"
     "(if \<not> P + K = 128 * Suc ?E \<and> (?F \<noteq> ?E \<or> P = 128 * ?F)
        then overlay buf1 (int (128 * (?E - ?F))) (take 128 (drop (128 * ?E) ?B)) else Inr buf1) = Inr buf2"
     "length buf2 = 128 * m" "\<forall>j<128 * m. 128 * ?F + j < nat (numBytes h) \<and> (128 * ?F + j < P \<or> P + K \<le> 128 * ?F + j) \<longrightarrow> buf2 ! j = ?B ! (128 * ?F + j)"
    using write_buffer [OF w(3,1,2,5,6) r(4), of "map garbage [0..<128 * m]" ?B, OF _ L(1)] unfolding m_def length_map length_upt diff_zero by blast
  have c: "K \<le> length from" "length (take K from) = K" using fr by (simp_all add: K_def)
  have "P + K \<le> 128 * (?F + m)" using w(5) unfolding m(4) .
  moreover have "nat (numBytes h) \<le> length ?R" using L(2) header_okD(1,2,4) [OF h] by linarith
  moreover have "128 * (?F + m) \<le> length ?R" unfolding L(2) using m(1) by (rule mult_le_mono2)
  ultimately have bounds: "P + K \<le> 128 * (?F + m)" "nat (numBytes h) \<le> length ?R" "128 * (?F + m) \<le> length ?R" by blast+
  from write_back_bytes [OF w(1) bounds(1) r(5) bounds(2,3) c(2) b(3)] b(4)
  obtain buf3 where b3: "overlay buf2 (int (P - 128 * ?F)) (take K from) = Inr buf3" "length buf3 = 128 * m"
    "take (nat (numBytes h)) (take (128 * ?F) ?R @ buf3 @ drop (128 * (?F + m)) ?R) = take P ?B @ take K from @ drop (P + K) ?B"
    unfolding file_bytes_def by blast
  obtain v' where v': "write_sectors h (int ?F) m buf3 v = Inr v'" "vol_ok v'" "\<forall>s. s \<notin> set (blocks h) \<longrightarrow> v' s = v s"
    "raw_bytes h v' = take (128 * ?F) ?R @ buf3 @ drop (128 * (?F + m)) ?R"
    using write_sectors_raw [OF h v m(1) b3(2)] by blast
  note i = sector_offsets [OF w(3,1)]
  have "take (length ?B - P) (take (nat n) from) = take K from" unfolding take_take L(1) K_def P_def by (simp add: min.commute)
  then have fb: "file_bytes h v' = write_at ?B P (take (nat n) from)"
    using b3(3) v'(4) c by (simp add: write_at_def Let_def file_bytes_def)
  have "WriteAt garbage h from n position v = Inr (int K, v')"
  proof -
    have s1: "(if \<not> int P = int ?F * 128 then rbind (ReadAt h 128 (int ?F * 128) v) (\<lambda>(_, bs). overlay (map garbage [0..<128 * m]) 0 bs)
        else Inr (map garbage [0..<128 * m])) = Inr buf1" using b(1) rd [OF F] unfolding i by (auto split: if_splits)
    have s2: "(if \<not> int P + int K = (int ?E + 1) * 128 \<and> (\<not> int ?F = int ?E \<or> int P = int ?F * 128)
        then rbind (ReadAt h 128 (int ?E * 128) v) (\<lambda>(_, bs). overlay buf1 ((int ?E - int ?F) * 128) bs) else Inr buf1) = Inr buf2"
      unfolding rd [OF r(7)] i rbind_Inr prod.case by (rule b(2))
    have s3: "(if int (length from) < int K then Inl OutOfBounds else overlay buf2 (int P - int ?F * 128) (take (nat (int K)) from)) = Inr buf3"
      using b3(1) c(1) unfolding i by simp
    note e = r(1-3) [unfolded r(6)] False [unfolded r(6)]
    show ?thesis unfolding r(6) WriteAt_def Let_def if_not_P [OF e(4)] e(1,2,3) m(3) s1 rbind_Inr s2 s3 m(2) v'(1) prod.case by (rule refl)
  qed
  then show ?thesis using v'(2,3) fb unfolding P_def K_def by blast
qed

section \<open>Open files as files\<close>

lemma length_write_at [simp]: "length (write_at B P data) = length B"
  by (auto simp: write_at_def Let_def)

text \<open>
  C7: an open file on disk behaves as a file of fixed length with a position, although the disk only
  transfers whole sectors. \<open>Read\<close> returns the bytes of the file from the position on, at most as many as asked for and
  as there are, and moves the position behind them. \<open>Write\<close> replaces the bytes from the position on, up to
  the end of the file, keeps every other byte of the file, also in the partially written first and last
  sectors, changes no sector of another file and moves the position; neither fails an assertion or
  leaves its buffer, whatever the uninitialised buffer held.
\<close>

theorem disk_file_refines:
  assumes "header_ok (hdr f)" "vol_ok v" "0 \<le> seekPosition f" "int32 (seekPosition f + n)" "n \<le> int (length data)"
    and "int32 (seekPosition f)"
  shows "(let P = nat (seekPosition f); B = file_bytes (hdr f) v; bs = take (nat n) (drop P B)
     in DiskFile_Read n f v = Inr (int (length bs), bs, DiskFile_Seek (seekPosition f + int (length bs)) f) \<and>
        (\<exists>v'. DiskFile_Write garbage data n f v = Inr (int (length bs), DiskFile_Seek (seekPosition f + int (length bs)) f, v') \<and>
           vol_ok v' \<and> (\<forall>s. s \<notin> set (blocks (hdr f)) \<longrightarrow> v' s = v s) \<and>
           file_bytes (hdr f) v' = write_at B P (take (nat n) data)))"
proof -
  let ?P = "nat (seekPosition f)" and ?B = "file_bytes (hdr f) v"
  let ?bs = "take (nat n) (drop ?P ?B)"
  have L: "length ?B = nat (numBytes (hdr f))" by (rule length_file_bytes [OF assms(1,2)])
  have k: "min (nat n) (nat (numBytes (hdr f)) - ?P) = length ?bs" using L by (simp add: min.commute)
  have w: "wrap32 (seekPosition f + int (length ?bs)) = seekPosition f + int (length ?bs)"
  proof (rule wrap32_int32)
    have "int (length ?bs) \<le> max n 0" by simp
    moreover have "0 < n \<or> length ?bs = 0" by (cases "0 < n") simp_all
    ultimately show "int32 (seekPosition f + int (length ?bs))" using assms(3,4,6) by (auto simp: int32_def)
  qed
  obtain v' where v': "WriteAt garbage (hdr f) data n (seekPosition f) v = Inr (int (length ?bs), v')" "vol_ok v'"
    "\<forall>s. s \<notin> set (blocks (hdr f)) \<longrightarrow> v' s = v s" "file_bytes (hdr f) v' = write_at ?B ?P (take (nat n) data)"
    using WriteAt_eq [OF assms(1-5), of garbage] unfolding k by blast
  have "DiskFile_Write garbage data n f v = Inr (int (length ?bs), DiskFile_Seek (seekPosition f + int (length ?bs)) f, v')"
    unfolding DiskFile_Write_def v'(1) rbind_Inr prod.case w DiskFile_Seek_def by (rule refl)
  moreover have "DiskFile_Read n f v = Inr (int (length ?bs), ?bs, DiskFile_Seek (seekPosition f + int (length ?bs)) f)"
    unfolding DiskFile_Read_def ReadAt_eq [OF assms(1-4)] Let_def rbind_Inr prod.case w DiskFile_Seek_def by (rule refl)
  ultimately show ?thesis using v'(2-4) unfolding Let_def by blast
qed

definition demo_disk_file :: DiskFile where
  "demo_disk_file = \<lparr>hdr = \<lparr>numBytes = 200, numSectors = 2, dataSectors = [9, 5] @ replicate 28 0\<rparr>, seekPosition = 127\<rparr>"

lemma demo_disk_file_ok: "header_ok (hdr demo_disk_file)" "blocks (hdr demo_disk_file) = [9, 5]" "seekPosition demo_disk_file = 127"
  by (simp_all add: demo_disk_file_def header_ok_def blocks_def divRoundUp_def c_arith)

theorem disk_file_refines_witness:
  "\<exists>v'. DiskFile_Write (\<lambda>_. 255) [7, 8, 9] 3 demo_disk_file (\<lambda>_. replicate 128 1) = Inr (3, DiskFile_Seek 130 demo_disk_file, v') \<and>
     v' 8 = replicate 128 1 \<and> take 5 (drop 126 (file_bytes (hdr demo_disk_file) v')) = [1, 7, 8, 9, 1]"
proof -
  let ?v = "\<lambda>_. replicate 128 1 :: byte list"
  have v: "vol_ok ?v" by (simp add: vol_ok_def)
  have B: "file_bytes (hdr demo_disk_file) ?v = replicate 200 1"
    using demo_disk_file_ok(2) by (simp add: file_bytes_def raw_bytes_def demo_disk_file_def replicate_add [symmetric])
  note th = disk_file_refines [OF demo_disk_file_ok(1) v, of 3 "[7, 8, 9]" "\<lambda>_. 255", unfolded Let_def B demo_disk_file_ok(2,3)]
  have bs: "take (nat 3) (drop (nat 127) (replicate 200 (1 :: byte))) = [1, 1, 1]" by (simp add: numeral_eq_Suc)
  obtain v' where v': "DiskFile_Write (\<lambda>_. 255) [7, 8, 9] 3 demo_disk_file ?v = Inr (int (length [1, 1, 1 :: byte]), DiskFile_Seek (127 + int (length [1, 1, 1 :: byte])) demo_disk_file, v')"
    "\<forall>s. s \<notin> set [9, 5] \<longrightarrow> v' s = ?v s" "file_bytes (hdr demo_disk_file) v' = write_at (replicate 200 1) (nat 127) (take (nat 3) [7, 8, 9])"
    using th unfolding bs by (auto simp: int32_def)
  have "take 5 (drop 126 (write_at (replicate 200 1) (nat 127) (take (nat 3) [7, 8, 9]))) = [1, 7, 8, 9, 1 :: byte]"
    by (simp add: write_at_def Let_def numeral_eq_Suc)
  then show ?thesis using v' by auto
qed

section \<open>The disk provides the sectors\<close>

text \<open>
  What the file system relies on of the disk below it: a read returns the last contents written to
  the sector, a write changes one sector, a sector out of range fails an assertion. Then every
  sequence of accesses runs on the device as it runs on a \<open>volume\<close>.
\<close>

datatype access = ReadAccess int | WriteAccess int "byte list"

fun run_accesses :: "(int \<Rightarrow> 's \<Rightarrow> (byte list \<times> 's) res) \<Rightarrow> (int \<Rightarrow> byte list \<Rightarrow> 's \<Rightarrow> 's res) \<Rightarrow> access list \<Rightarrow> 's \<Rightarrow> (byte list list \<times> 's) res" where
  "run_accesses dread dwrite [] s = Inr ([], s)"
| "run_accesses dread dwrite (ReadAccess n # as) s =
     rbind (dread n s) (\<lambda>(bs, s'). rbind (run_accesses dread dwrite as s') (\<lambda>(out, s''). Inr (bs # out, s'')))"
| "run_accesses dread dwrite (WriteAccess n data # as) s = rbind (dwrite n data s) (run_accesses dread dwrite as)"

definition volume_run :: "access list \<Rightarrow> volume \<Rightarrow> (byte list list \<times> volume) res" where
  "volume_run = run_accesses (\<lambda>n v. rbind (disk_read n v) (\<lambda>bs. Inr (bs, v))) disk_write"

definition same_sectors :: "volume \<Rightarrow> volume \<Rightarrow> bool" where
  "same_sectors v w \<longleftrightarrow> (\<forall>i<1024. v i = w i)"

locale sector_store =
  fixes ok :: "'s \<Rightarrow> bool"
    and view :: "'s \<Rightarrow> volume"
    and dread :: "int \<Rightarrow> 's \<Rightarrow> (byte list \<times> 's) res"
    and dwrite :: "int \<Rightarrow> byte list \<Rightarrow> 's \<Rightarrow> 's res"
  assumes view_ok: "ok s \<Longrightarrow> vol_ok (view s)"
    and dread_ok: "ok s \<Longrightarrow> 0 \<le> n \<Longrightarrow> n < NumSectors \<Longrightarrow> \<exists>s'. dread n s = Inr (view s (nat n), s') \<and> ok s' \<and> same_sectors (view s') (view s)"
    and dwrite_ok: "ok s \<Longrightarrow> 0 \<le> n \<Longrightarrow> n < NumSectors \<Longrightarrow> nat SectorSize \<le> length data \<Longrightarrow>
      \<exists>s'. dwrite n data s = Inr s' \<and> ok s' \<and> same_sectors (view s') ((view s)(nat n := take (nat SectorSize) data))"
    and out_of_range: "ok s \<Longrightarrow> \<not> (0 \<le> n \<and> n < NumSectors) \<Longrightarrow> dread n s = Inl AssertFail \<and> dwrite n data s = Inl AssertFail"
begin

lemma run_refines:
  "ok s \<Longrightarrow> same_sectors (view s) v \<Longrightarrow> \<forall>n data. WriteAccess n data \<in> set as \<longrightarrow> nat SectorSize \<le> length data \<Longrightarrow>
   (case volume_run as v of Inl e \<Rightarrow> run_accesses dread dwrite as s = Inl e
    | Inr (out, v') \<Rightarrow> \<exists>s'. run_accesses dread dwrite as s = Inr (out, s') \<and> ok s' \<and> same_sectors (view s') v')"
proof (induction as arbitrary: s v)
  case (Cons a as)
  have rest: "\<forall>n data. WriteAccess n data \<in> set as \<longrightarrow> nat SectorSize \<le> length data" using Cons.prems(3) by simp
  show ?case
  proof (cases a)
    case (ReadAccess n)
    show ?thesis
    proof (cases "0 \<le> n \<and> n < NumSectors")
      case True
      then obtain s' where s': "dread n s = Inr (view s (nat n), s')" "ok s'" "same_sectors (view s') (view s)" using dread_ok [OF Cons.prems(1)] by blast
      have "same_sectors (view s') v" "view s (nat n) = v (nat n)" using s'(3) Cons.prems(2) True by (auto simp: same_sectors_def)
      note e = this
      have "volume_run (a # as) v = rbind (volume_run as v) (\<lambda>(out, v'). Inr (v (nat n) # out, v'))"
        using True by (simp add: ReadAccess volume_run_def disk_read_def)
      moreover have "run_accesses dread dwrite (a # as) s = rbind (run_accesses dread dwrite as s') (\<lambda>(out, s''). Inr (v (nat n) # out, s''))"
        using s'(1) e(2) by (simp add: ReadAccess)
      ultimately show ?thesis using Cons.IH [OF s'(2) e(1) rest] by (cases "volume_run as v") auto
    next
      case False
      then have "volume_run (a # as) v = Inl AssertFail" unfolding ReadAccess volume_run_def run_accesses.simps disk_read_def rbind_ASSERT_false [OF False] by simp
      moreover have "run_accesses dread dwrite (a # as) s = Inl AssertFail" using out_of_range [OF Cons.prems(1) False] by (simp add: ReadAccess)
      ultimately show ?thesis by simp
    qed
  next
    case (WriteAccess n data)
    have l: "128 \<le> length data" using Cons.prems(3) WriteAccess by simp
    show ?thesis
    proof (cases "0 \<le> n \<and> n < NumSectors")
      case True
      then obtain s' where s': "dwrite n data s = Inr s'" "ok s'" "same_sectors (view s') ((view s)(nat n := take (nat SectorSize) data))"
        using dwrite_ok [OF Cons.prems(1), of n data] l by auto
      have "same_sectors (view s') (v(nat n := take (nat SectorSize) data))" using s'(3) Cons.prems(2) by (simp add: same_sectors_def)
      note e = this
      have "volume_run (a # as) v = volume_run as (v(nat n := take (nat SectorSize) data))"
        using True l by (simp add: WriteAccess volume_run_def disk_write_def)
      moreover have "run_accesses dread dwrite (a # as) s = run_accesses dread dwrite as s'" using s'(1) by (simp add: WriteAccess)
      ultimately show ?thesis using Cons.IH [OF s'(2) e rest] by (simp only:)
    next
      case False
      then have "volume_run (a # as) v = Inl AssertFail" unfolding WriteAccess volume_run_def run_accesses.simps disk_write_def rbind_ASSERT_false [OF False] by simp
      moreover have "run_accesses dread dwrite (a # as) s = Inl AssertFail" using out_of_range [OF Cons.prems(1) False] by (simp add: WriteAccess)
      ultimately show ?thesis by simp
    qed
  qed
qed (simp add: volume_run_def)

end

text \<open>A request to the disk and the interrupt that completes it.\<close>

definition read_through :: "(Signal \<Rightarrow> 'k \<Rightarrow> 'k) \<Rightarrow> int \<Rightarrow> 'k sim \<Rightarrow> (byte list \<times> 'k sim) res" where
  "read_through up n s = rbind (ReadRequest n s) (\<lambda>(bs, s'). rbind (HandleInterrupt up s') (\<lambda>s''. Inr (bs, s'')))"

definition write_through :: "(Signal \<Rightarrow> 'k \<Rightarrow> 'k) \<Rightarrow> int \<Rightarrow> byte list \<Rightarrow> 'k sim \<Rightarrow> 'k sim res" where
  "write_through up n data s = rbind (WriteRequest n data s) (HandleInterrupt up)"

definition disk_view :: "'k sim \<Rightarrow> volume" where
  "disk_view s i = sector (world s) (int i)"

definition disk_idle :: "'k sim \<Rightarrow> bool" where
  "disk_idle s \<longleftrightarrow> disk_ok (world s) \<and> 0 \<le> now s \<and> \<not> active (disk (world s))"

lemma completed:
  assumes "disk_ok (world s)" "0 \<le> now s"
  shows "\<exists>s'. HandleInterrupt up s = Inr s' \<and> disk_idle s' \<and> disk_view s' = disk_view s"
  using assms by (simp add: HandleInterrupt_def disk_idle_def disk_ok_def head_ok_def upd_defs disk_view_def fun_eq_iff sector_def now_def)

lemma now_requested: "totalTicks st = totalTicks (stats s) \<Longrightarrow> now (requested sec L h st s) = now s"
  by (simp add: requested_def upd_defs now_def)

interpretation device: sector_store disk_idle disk_view "read_through up" "write_through up" for up :: "Signal \<Rightarrow> 'k \<Rightarrow> 'k"
proof unfold_locales
  fix s :: "'k sim" and n :: int and data :: "byte list"
  assume i: "disk_idle s"
  then have d: "disk_ok (world s)" "\<not> active (disk (world s))" "0 \<le> now s" by (auto simp: disk_idle_def)
  have l: "DiskSize \<le> int (length (content (host (world s)) (fileno (disk (world s)))))" using d(1) by (auto simp: disk_ok_def content_fd)
  then show "vol_ok (disk_view s)" by (auto simp: vol_ok_def disk_view_def sector_def)
  show "\<not> (0 \<le> n \<and> n < NumSectors) \<Longrightarrow> read_through up n s = Inl AssertFail \<and> write_through up n data s = Inl AssertFail"
    using d(2) by (simp add: read_through_def write_through_def ReadRequest_def WriteRequest_def Let_def)
  assume n: "0 \<le> n" "n < NumSectors"
  show "\<exists>s'. read_through up n s = Inr (disk_view s (nat n), s') \<and> disk_idle s' \<and> same_sectors (disk_view s') (disk_view s)"
  proof -
    obtain h s1 where h: "ReadRequest n s = Inr (sector (world s) n, s1)" "s1 = requested n (ComputeLatency (disk (world s)) (now s) n False) h
       ((stats s)\<lparr>numDiskReads := numDiskReads (stats s) + 1\<rparr>) s"
     "file_of h (fileno (disk (world s))) = file_of (host (world s)) (fileno (disk (world s)))" "inodes h = inodes (host (world s))"
      using ReadRequest_eq [OF d(1,2) n d(3)] by blast
    have c: "content h (fileno (disk (world s))) = content (host (world s)) (fileno (disk (world s)))" unfolding content_def h(3,4) ..
    note r = requested_ok [OF d(1) n d(3) h(3) l [folded c], of "ComputeLatency (disk (world s)) (now s) n False"
        "(stats s)\<lparr>numDiskReads := numDiskReads (stats s) + 1\<rparr>", folded h(2)]
    have v: "disk_view s1 = disk_view s" unfolding disk_view_def fun_eq_iff r(3) c by (simp add: sector_def)
    have "0 \<le> now s1" unfolding h(2) using d(3) by (simp add: now_requested)
    from completed [OF r(1) this] obtain s2 where "HandleInterrupt up s1 = Inr s2" "disk_idle s2" "disk_view s2 = disk_view s1" by blast
    moreover have "disk_view s (nat n) = sector (world s) n" using n by (simp add: disk_view_def)
    ultimately show ?thesis using h(1) v by (simp add: read_through_def same_sectors_def)
  qed
  assume len: "nat SectorSize \<le> length data"
  show "\<exists>s'. write_through up n data s = Inr s' \<and> disk_idle s' \<and> same_sectors (disk_view s') ((disk_view s)(nat n := take (nat SectorSize) data))"
  proof -
    let ?d = "take (nat SectorSize) data"
    have t: "WriteRequest n data s = WriteRequest n ?d s" using len by (simp add: WriteRequest_def)
    obtain h s1 where h: "WriteRequest n ?d s = Inr s1" "s1 = requested n (ComputeLatency (disk (world s)) (now s) n True) h
         ((stats s)\<lparr>numDiskWrites := numDiskWrites (stats s) + 1\<rparr>) s" "disk_ok (world s1)"
        "\<forall>i\<ge>0. sector (world s1) i = (if i = n then ?d else sector (world s) i)"
      using WriteRequest_store [OF d(1,2) n d(3), of ?d] len unfolding Let_def by auto
    have "0 \<le> now s1" unfolding h(2) using d(3) by (simp add: now_requested)
    from completed [OF h(3) this] obtain s2 where s2: "HandleInterrupt up s1 = Inr s2" "disk_idle s2" "disk_view s2 = disk_view s1" by blast
    have "same_sectors (disk_view s1) ((disk_view s)(nat n := ?d))" using h(4) n by (auto simp: same_sectors_def disk_view_def)
    then show ?thesis using s2 h(1) unfolding write_through_def t by simp
  qed
qed

section \<open>The file system on the device\<close>

text \<open>
  C21: the disk device carries the file system. Any sequence of sector reads and writes, each completed by its interrupt, gives
  on the device, whose sectors lie behind the magic number in a host file, the same results and the same
  sectors afterwards as on the volume the file system is defined on, and aborts where that does.
\<close>

theorem device_runs_volume:
  assumes "disk_idle s" "\<forall>n data. WriteAccess n data \<in> set as \<longrightarrow> nat SectorSize \<le> length data"
  shows "case volume_run as (disk_view s) of
     Inl e \<Rightarrow> run_accesses (read_through up) (write_through up) as s = Inl e
   | Inr (out, v') \<Rightarrow> \<exists>s'. run_accesses (read_through up) (write_through up) as s = Inr (out, s') \<and> disk_idle s' \<and> same_sectors (disk_view s') v'"
  using device.run_refines [OF assms(1) _ assms(2), of "disk_view s" up] by (simp add: same_sectors_def)

lemma sim1_idle: "disk_idle sim1"
  using sim1_ok by (simp add: disk_idle_def)

theorem device_runs_volume_witness:
  "\<exists>s'. run_accesses (read_through (\<lambda>sig. (#) sig)) (write_through (\<lambda>sig. (#) sig))
      [WriteAccess 5 (replicate 128 7), ReadAccess 5] sim1 = Inr ([replicate 128 7], s')"
proof -
  have "volume_run [WriteAccess 5 (replicate 128 7), ReadAccess 5] v = Inr ([replicate 128 7], v(5 := replicate 128 7))" for v
    by (simp add: volume_run_def disk_write_def disk_read_def)
  then show ?thesis
    using device_runs_volume [OF sim1_idle, of "[WriteAccess 5 (replicate 128 7), ReadAccess 5]" "\<lambda>sig. (#) sig"] by auto
qed

end
