(* ===== verification/Disk_File_System.thy ===== *)
theory Disk_File_System
  imports Disk_File
begin

text \<open>
  The file system on the simulated disk: the bitmap of free sectors and the directory, both kept as
  files (\<open>userprog/bitmap.cc\<close>, \<open>filesys/directory.cc\<close>), and the operations on names of
  \<open>filesys/filesys.cc\<close>. Nothing runs concurrently, as the source assumes.
\<close>

section \<open>Bitmaps on disk\<close>

fun bytes_words :: "nat \<Rightarrow> byte list \<Rightarrow> 32 word list" where
  "bytes_words 0 bs = []"
| "bytes_words (Suc n) bs = bytes_word bs # bytes_words n (drop 4 bs)"

definition words_bytes :: "32 word list \<Rightarrow> byte list" where
  "words_bytes ws = concat (map word_bytes ws)"

text \<open>The bytes read go into the array of words; the rest of it stays.\<close>

definition BitMap_FetchFrom :: "DiskFile \<Rightarrow> volume \<Rightarrow> BitMap \<Rightarrow> BitMap res" where
  "BitMap_FetchFrom f v bm =
     rbind (ReadAt (hdr f) (numWords bm * 4) 0 v) (\<lambda>(_, bs).
     rbind (overlay (words_bytes (bmap bm)) 0 bs) (\<lambda>mem.
       Inr (bm\<lparr>bmap := bytes_words (length (bmap bm)) mem\<rparr>)))"

definition BitMap_WriteBack :: "(nat \<Rightarrow> byte) \<Rightarrow> DiskFile \<Rightarrow> BitMap \<Rightarrow> volume \<Rightarrow> volume res" where
  "BitMap_WriteBack garbage f bm v =
     rbind (WriteAt garbage (hdr f) (words_bytes (bmap bm)) (numWords bm * 4) 0 v) (\<lambda>(_, v'). Inr v')"

section \<open>Directories\<close>

abbreviation FileNameMaxLen :: nat where "FileNameMaxLen \<equiv> 9"

text \<open>
  An entry with the padding the compiler puts behind \<open>inUse\<close> and \<open>name\<close>: 20 bytes. A name is a
  list of characters, as bytes; \<open>cname\<close> is what \<open>strncmp\<close> and \<open>strncpy\<close> see of it.
\<close>

record DirectoryEntry =
  inUse :: bool
  pad1 :: "byte list"
  entry_sector :: int
  entry_name :: "byte list"
  pad2 :: "byte list"

record Directory =
  tableSize :: int
  table :: "DirectoryEntry list"

definition cname :: "byte list \<Rightarrow> byte list" where
  "cname s = takeWhile (\<lambda>b. b \<noteq> 0) (take FileNameMaxLen s)"

definition strncpy9 :: "byte list \<Rightarrow> byte list \<Rightarrow> byte list" where
  "strncpy9 name old = cname name @ replicate (FileNameMaxLen - length (cname name)) 0 @ drop FileNameMaxLen old"

definition entry_image :: "DirectoryEntry \<Rightarrow> byte list" where
  "entry_image e = [if inUse e then 1 else 0] @ pad1 e @ int_bytes (entry_sector e) @ entry_name e @ pad2 e"

definition image_entry :: "byte list \<Rightarrow> DirectoryEntry" where
  "image_entry bs = \<lparr>inUse = (bs ! 0 \<noteq> 0), pad1 = take 3 (drop 1 bs), entry_sector = bytes_int (drop 4 bs),
     entry_name = take 10 (drop 8 bs), pad2 = take 2 (drop 18 bs)\<rparr>"

text \<open>\<open>fresh\<close> is the uninitialised array \<open>new DirectoryEntry[size]\<close>.\<close>

definition Directory_new :: "(nat \<Rightarrow> DirectoryEntry) \<Rightarrow> nat \<Rightarrow> Directory" where
  "Directory_new fresh n = \<lparr>tableSize = int n, table = map (\<lambda>i. (fresh i)\<lparr>inUse := False\<rparr>) [0..<n]\<rparr>"

definition table_image :: "DirectoryEntry list \<Rightarrow> byte list" where
  "table_image es = concat (map entry_image es)"

fun image_table :: "nat \<Rightarrow> byte list \<Rightarrow> DirectoryEntry list" where
  "image_table 0 bs = []"
| "image_table (Suc n) bs = image_entry bs # image_table n (drop 20 bs)"

definition Directory_FetchFrom :: "DiskFile \<Rightarrow> volume \<Rightarrow> Directory \<Rightarrow> Directory res" where
  "Directory_FetchFrom f v d =
     rbind (ReadAt (hdr f) (tableSize d * 20) 0 v) (\<lambda>(_, bs).
     rbind (overlay (table_image (table d)) 0 bs) (\<lambda>mem.
       Inr (d\<lparr>table := image_table (length (table d)) mem\<rparr>)))"

definition Directory_WriteBack :: "(nat \<Rightarrow> byte) \<Rightarrow> DiskFile \<Rightarrow> Directory \<Rightarrow> volume \<Rightarrow> volume res" where
  "Directory_WriteBack garbage f d v =
     rbind (WriteAt garbage (hdr f) (table_image (table d)) (tableSize d * 20) 0 v) (\<lambda>(_, v'). Inr v')"

definition FindIndex :: "byte list \<Rightarrow> Directory \<Rightarrow> int" where
  "FindIndex name d = (case first_index (\<lambda>i. inUse (table d ! i) \<and> cname (entry_name (table d ! i)) = cname name) (nat (tableSize d)) of
     None \<Rightarrow> -1 | Some i \<Rightarrow> int i)"

definition Directory_Find :: "byte list \<Rightarrow> Directory \<Rightarrow> int" where
  "Directory_Find name d = (let i = FindIndex name d in if i \<noteq> -1 then entry_sector (table d ! nat i) else -1)"

definition Directory_Add :: "byte list \<Rightarrow> int \<Rightarrow> Directory \<Rightarrow> bool \<times> Directory" where
  "Directory_Add name newSector d =
     (if FindIndex name d \<noteq> -1 then (False, d)
      else case first_index (\<lambda>i. \<not> inUse (table d ! i)) (nat (tableSize d)) of
        None \<Rightarrow> (False, d)
      | Some i \<Rightarrow> (True, d\<lparr>table := (table d)[i := (table d ! i)\<lparr>inUse := True,
            entry_name := strncpy9 name (entry_name (table d ! i)), entry_sector := newSector\<rparr>]\<rparr>))"

definition Directory_Remove :: "byte list \<Rightarrow> Directory \<Rightarrow> bool \<times> Directory" where
  "Directory_Remove name d =
     (let i = FindIndex name d
      in if i = -1 then (False, d) else (True, d\<lparr>table := (table d)[nat i := (table d ! nat i)\<lparr>inUse := False\<rparr>]\<rparr>))"

text \<open>
  The names \<open>List\<close> prints. \<open>%s\<close> goes up to a zero byte: a name of nine characters has none of its own unless
  \<open>name[9]\<close> happens to be zero, and then the bytes behind the name are printed too.
\<close>

definition Directory_List :: "Directory \<Rightarrow> byte list list" where
  "Directory_List d = map (\<lambda>i. takeWhile (\<lambda>b. b \<noteq> 0) (drop (20 * i + 8) (table_image (table d))))
     (filter (\<lambda>i. inUse (table d ! i)) [0..<nat (tableSize d)])"

section \<open>The file system\<close>

abbreviation NumDirEntries :: nat where "NumDirEntries \<equiv> 10"
abbreviation FreeMapSector :: int where "FreeMapSector \<equiv> 0"
abbreviation DirectorySector :: int where "DirectorySector \<equiv> 1"
abbreviation FreeMapFileSize :: int where "FreeMapFileSize \<equiv> 128"
abbreviation DirectoryFileSize :: int where "DirectoryFileSize \<equiv> 200"

record DiskFS =
  freeMapFile :: DiskFile
  directoryFile :: DiskFile

text \<open>What \<open>new\<close> leaves uninitialised.\<close>

record Heap =
  new_words :: "nat \<Rightarrow> 32 word"
  new_entries :: "nat \<Rightarrow> DirectoryEntry"
  new_header :: FileHeader
  new_bytes :: "nat \<Rightarrow> byte"

definition heap_ok :: "Heap \<Rightarrow> bool" where
  "heap_ok g \<longleftrightarrow> length (dataSectors (new_header g)) = NumDirect \<and> (\<forall>s\<in>set (dataSectors (new_header g)). int32 s) \<and>
     (\<forall>i. length (pad1 (new_entries g i)) = 3 \<and> length (entry_name (new_entries g i)) = 10 \<and> length (pad2 (new_entries g i)) = 2 \<and>
          int32 (entry_sector (new_entries g i)))"

definition open_system_files :: "volume \<Rightarrow> DiskFS res" where
  "open_system_files v = rbind (DiskFile_new FreeMapSector v) (\<lambda>m. rbind (DiskFile_new DirectorySector v) (\<lambda>d.
     Inr \<lparr>freeMapFile = m, directoryFile = d\<rparr>))"

definition FileSystem_format :: "Heap \<Rightarrow> volume \<Rightarrow> (DiskFS \<times> volume) res" where
  "FileSystem_format g v =
     rbind (BitMap_new (new_words g) NumSectors) (\<lambda>fm0.
     let directory = Directory_new (new_entries g) NumDirEntries
     in rbind (BitMap_Mark fm0 FreeMapSector) (\<lambda>fm1.
        rbind (BitMap_Mark fm1 DirectorySector) (\<lambda>fm2.
        rbind (Allocate FreeMapFileSize (new_header g) fm2) (\<lambda>(ok1, mapHdr, fm3).
        rbind (ASSERT ok1) (\<lambda>_.
        rbind (Allocate DirectoryFileSize (new_header g) fm3) (\<lambda>(ok2, dirHdr, fm4).
        rbind (ASSERT ok2) (\<lambda>_.
        rbind (FileHeader_WriteBack mapHdr FreeMapSector v) (\<lambda>v1.
        rbind (FileHeader_WriteBack dirHdr DirectorySector v1) (\<lambda>v2.
        rbind (open_system_files v2) (\<lambda>fs.
        rbind (BitMap_WriteBack (new_bytes g) (freeMapFile fs) fm4 v2) (\<lambda>v3.
        rbind (Directory_WriteBack (new_bytes g) (directoryFile fs) directory v3) (\<lambda>v4.
          Inr (fs, v4)))))))))))))"

definition DiskFS_new :: "Heap \<Rightarrow> bool \<Rightarrow> volume \<Rightarrow> (DiskFS \<times> volume) res" where
  "DiskFS_new g format v = (if format then FileSystem_format g v else rbind (open_system_files v) (\<lambda>fs. Inr (fs, v)))"

text \<open>The directory and the bitmap, read into fresh objects.\<close>

definition fetch_directory :: "Heap \<Rightarrow> DiskFS \<Rightarrow> volume \<Rightarrow> Directory res" where
  "fetch_directory g fs v = Directory_FetchFrom (directoryFile fs) v (Directory_new (new_entries g) NumDirEntries)"

definition fetch_bitmap :: "Heap \<Rightarrow> DiskFS \<Rightarrow> volume \<Rightarrow> BitMap res" where
  "fetch_bitmap g fs v = rbind (BitMap_new (new_words g) NumSectors) (BitMap_FetchFrom (freeMapFile fs) v)"

definition DiskFS_Create :: "Heap \<Rightarrow> byte list \<Rightarrow> int \<Rightarrow> DiskFS \<Rightarrow> volume \<Rightarrow> (bool \<times> volume) res" where
  "DiskFS_Create g name initialSize fs v =
     rbind (fetch_directory g fs v) (\<lambda>directory.
     if Directory_Find name directory \<noteq> -1 then Inr (False, v)
     else rbind (fetch_bitmap g fs v) (\<lambda>freeMap.
          rbind (BitMap_Find freeMap) (\<lambda>(sec, fm1).
          if sec = -1 then Inr (False, v)
          else case Directory_Add name sec directory of (added, directory1) \<Rightarrow>
            if \<not> added then Inr (False, v)
            else rbind (Allocate initialSize (new_header g) fm1) (\<lambda>(enough, h, fm2).
                 if \<not> enough then Inr (False, v)
                 else rbind (FileHeader_WriteBack h sec v) (\<lambda>v1.
                      rbind (Directory_WriteBack (new_bytes g) (directoryFile fs) directory1 v1) (\<lambda>v2.
                      rbind (BitMap_WriteBack (new_bytes g) (freeMapFile fs) fm2 v2) (\<lambda>v3. Inr (True, v3))))))))"

definition DiskFS_Open :: "Heap \<Rightarrow> byte list \<Rightarrow> DiskFS \<Rightarrow> volume \<Rightarrow> DiskFile option res" where
  "DiskFS_Open g name fs v =
     rbind (fetch_directory g fs v) (\<lambda>directory.
       let sec = Directory_Find name directory
       in if 0 \<le> sec then rbind (DiskFile_new sec v) (\<lambda>f. Inr (Some f)) else Inr None)"

definition DiskFS_Remove :: "Heap \<Rightarrow> byte list \<Rightarrow> DiskFS \<Rightarrow> volume \<Rightarrow> (bool \<times> volume) res" where
  "DiskFS_Remove g name fs v =
     rbind (fetch_directory g fs v) (\<lambda>directory.
       let sec = Directory_Find name directory
       in if sec = -1 then Inr (False, v)
          else rbind (FileHeader_FetchFrom sec v) (\<lambda>fileHdr.
               rbind (fetch_bitmap g fs v) (\<lambda>fm0.
               rbind (Deallocate fileHdr fm0) (\<lambda>fm1.
               rbind (BitMap_Clear fm1 sec) (\<lambda>fm2.
               let directory1 = snd (Directory_Remove name directory)
               in rbind (BitMap_WriteBack (new_bytes g) (freeMapFile fs) fm2 v) (\<lambda>v1.
                  rbind (Directory_WriteBack (new_bytes g) (directoryFile fs) directory1 v1) (\<lambda>v2. Inr (True, v2))))))))"

definition DiskFS_List :: "Heap \<Rightarrow> DiskFS \<Rightarrow> volume \<Rightarrow> byte list list res" where
  "DiskFS_List g fs v = rbind (fetch_directory g fs v) (\<lambda>d. Inr (Directory_List d))"

section \<open>Bitmap and directory as bytes\<close>

lemma words_roundtrip [simp]: "bytes_words (length ws) (words_bytes ws @ bs) = ws"
proof (induction ws)
  case (Cons w ws)
  have "words_bytes (w # ws) @ bs = word_bytes w @ words_bytes ws @ bs" by (simp add: words_bytes_def)
  then show ?case using Cons.IH by simp
qed simp

lemma length_words_bytes [simp]: "length (words_bytes ws) = 4 * length ws"
  by (induction ws) (simp_all add: words_bytes_def)

lemma length_bytes_words [simp]: "length (bytes_words n bs) = n"
  by (induction n arbitrary: bs) simp_all

definition entry_ok :: "DirectoryEntry \<Rightarrow> bool" where
  "entry_ok e \<longleftrightarrow> length (pad1 e) = 3 \<and> length (entry_name e) = 10 \<and> length (pad2 e) = 2 \<and> int32 (entry_sector e)"

lemma length_entry_image: "entry_ok e \<Longrightarrow> length (entry_image e) = 20"
  by (simp add: entry_image_def entry_ok_def)

lemma entry_roundtrip:
  assumes "entry_ok e"
  shows "image_entry (entry_image e @ bs) = e"
proof -
  have l: "length (pad1 e) = 3" "length (entry_name e) = 10" "length (pad2 e) = 2" and i: "int32 (entry_sector e)"
    using assms by (simp_all add: entry_ok_def)
  obtain a b c where p: "pad1 e = [a, b, c]" using l(1) by (auto simp: length_Suc_conv numeral_3_eq_3)
  obtain w x y z where w: "int_bytes (entry_sector e) = [w, x, y, z]" by (simp add: int_bytes_def word_bytes_def)
  have s: "bytes_int (w # x # y # z # r) = entry_sector e" for r using bytes_int_bytes [OF i, of r] w by simp
  show ?thesis using l by (simp add: image_entry_def entry_image_def p w s)
qed

lemma length_table_image: "\<forall>e\<in>set es. entry_ok e \<Longrightarrow> length (table_image es) = 20 * length es"
  by (induction es) (simp_all add: table_image_def length_entry_image)

lemma table_roundtrip: "\<forall>e\<in>set es. entry_ok e \<Longrightarrow> image_table (length es) (table_image es @ bs) = es"
proof (induction es)
  case (Cons e es)
  have "table_image (e # es) @ bs = entry_image e @ table_image es @ bs" by (simp add: table_image_def)
  then show ?case using Cons entry_roundtrip [of e] length_entry_image [of e] by simp
qed simp

lemma length_image_table [simp]: "length (image_table n bs) = n"
  by (induction n arbitrary: bs) simp_all

lemma int32_bytes_int: "int32 (bytes_int bs)"
  using sint_greater_eq [of "bytes_word bs"] sint_less [of "bytes_word bs"] by (simp add: bytes_int_def int32_def)

lemma image_table_ok: "20 * n \<le> length bs \<Longrightarrow> e \<in> set (image_table n bs) \<Longrightarrow> entry_ok e"
proof (induction n arbitrary: bs)
  case (Suc n)
  have "entry_ok (image_entry bs)" using Suc.prems(1) by (simp add: entry_ok_def image_entry_def int32_bytes_int)
  then show ?case using Suc.IH [of "drop 20 bs"] Suc.prems by auto
qed simp

section \<open>The system files\<close>

abbreviation map_hdr :: "DiskFS \<Rightarrow> FileHeader" where "map_hdr fs \<equiv> hdr (freeMapFile fs)"
abbreviation dir_hdr :: "DiskFS \<Rightarrow> FileHeader" where "dir_hdr fs \<equiv> hdr (directoryFile fs)"

definition map_at :: "DiskFS \<Rightarrow> volume \<Rightarrow> BitMap" where
  "map_at fs v = \<lparr>numBits = NumSectors, numWords = 32, bmap = bytes_words 32 (file_bytes (map_hdr fs) v)\<rparr>"

definition dir_at :: "DiskFS \<Rightarrow> volume \<Rightarrow> DirectoryEntry list" where
  "dir_at fs v = image_table NumDirEntries (file_bytes (dir_hdr fs) v)"

definition system_files :: "DiskFS \<Rightarrow> bool" where
  "system_files fs \<longleftrightarrow> header_ok (map_hdr fs) \<and> numBytes (map_hdr fs) = FreeMapFileSize \<and>
     header_ok (dir_hdr fs) \<and> numBytes (dir_hdr fs) = DirectoryFileSize"

lemma overlay_all: "length bs = length buf \<Longrightarrow> overlay buf 0 bs = Inr bs"
  by (simp add: overlay_def)

lemma whole_read:
  assumes "header_ok h" "vol_ok v" "n = numBytes h"
  shows "ReadAt h n 0 v = Inr (n, file_bytes h v)"
proof -
  have "int32 (0 + n)" using header_okD(6,7) [OF assms(1)] assms(3) by (simp add: int32_def)
  then show ?thesis using ReadAt_eq [OF assms(1,2), of 0 n] length_file_bytes [OF assms(1,2)] header_okD(7) [OF assms(1)] assms(3)
    by (simp add: Let_def)
qed

lemma whole_write:
  assumes "header_ok h" "vol_ok v" "n = numBytes h" "length data = nat n"
  shows "\<exists>v'. WriteAt garbage h data n 0 v = Inr (n, v') \<and> vol_ok v' \<and> (\<forall>s. s \<notin> set (blocks h) \<longrightarrow> v' s = v s) \<and> file_bytes h v' = data"
proof -
  have n: "0 \<le> n" "int32 (0 + n)" using header_okD(6,7) [OF assms(1)] assms(3) by (simp_all add: int32_def)
  have "write_at (file_bytes h v) (nat 0) (take (nat n) data) = data"
    using length_file_bytes [OF assms(1,2)] assms(3,4) by (simp add: write_at_def Let_def)
  then show ?thesis using WriteAt_eq [OF assms(1,2), of 0 n data garbage] n assms(3,4) by simp
qed

lemma fetch_bitmap_eq:
  assumes "system_files fs" "vol_ok v"
  shows "fetch_bitmap g fs v = Inr (map_at fs v)" "bitmap_ok (map_at fs v)" "nbits (map_at fs v) = 1024"
proof -
  obtain bm where bm: "BitMap_new (new_words g) NumSectors = Inr bm" "bitmap_ok bm" "numBits bm = NumSectors"
    using BitMap_new_ok [of NumSectors "new_words g"] by auto
  then have w: "numWords bm = 32" "length (bmap bm) = 32" by (simp_all add: bitmap_ok_def divRoundUp_def c_arith)
  have h: "header_ok (map_hdr fs)" "numBytes (map_hdr fs) = 128" using assms(1) by (simp_all add: system_files_def)
  have l: "length (file_bytes (map_hdr fs) v) = 128" using length_file_bytes [OF h(1) assms(2)] h(2) by simp
  have "BitMap_FetchFrom (freeMapFile fs) v bm = Inr (bm\<lparr>bmap := bytes_words 32 (file_bytes (map_hdr fs) v)\<rparr>)"
    using whole_read [OF h(1) assms(2), of 128] h(2) w l by (simp add: BitMap_FetchFrom_def overlay_all)
  moreover have "bm\<lparr>bmap := bytes_words 32 (file_bytes (map_hdr fs) v)\<rparr> = map_at fs v"
    using bm(3) w(1) by (simp add: map_at_def)
  ultimately show "fetch_bitmap g fs v = Inr (map_at fs v)" using bm(1) by (simp add: fetch_bitmap_def)
qed (simp_all add: map_at_def bitmap_ok_def divRoundUp_def c_arith nbits_def)

lemma fetch_directory_eq:
  assumes "system_files fs" "vol_ok v" "heap_ok g"
  shows "fetch_directory g fs v = Inr \<lparr>tableSize = int NumDirEntries, table = dir_at fs v\<rparr>" "\<forall>e\<in>set (dir_at fs v). entry_ok e"
    "length (dir_at fs v) = NumDirEntries"
proof -
  let ?d = "Directory_new (new_entries g) NumDirEntries"
  have e: "\<forall>e\<in>set (table ?d). entry_ok e" using assms(3) by (auto simp: Directory_new_def heap_ok_def entry_ok_def)
  have h: "header_ok (dir_hdr fs)" "numBytes (dir_hdr fs) = 200" using assms(1) by (simp_all add: system_files_def)
  have l: "length (file_bytes (dir_hdr fs) v) = 200" using length_file_bytes [OF h(1) assms(2)] h(2) by simp
  have t: "tableSize ?d = 10" "length (table ?d) = 10" by (simp_all add: Directory_new_def)
  have o: "overlay (table_image (table ?d)) 0 (file_bytes (dir_hdr fs) v) = Inr (file_bytes (dir_hdr fs) v)"
    using length_table_image [OF e] t l by (intro overlay_all) simp
  show "fetch_directory g fs v = Inr \<lparr>tableSize = int NumDirEntries, table = dir_at fs v\<rparr>"
    unfolding fetch_directory_def Directory_FetchFrom_def t
    using whole_read [OF h(1) assms(2), of 200] h(2) o t by (simp add: dir_at_def)
  show "\<forall>e\<in>set (dir_at fs v). entry_ok e" "length (dir_at fs v) = NumDirEntries"
    using image_table_ok [of 10 "file_bytes (dir_hdr fs) v"] l by (auto simp: dir_at_def)
qed

lemma BitMap_WriteBack_eq:
  assumes "system_files fs" "vol_ok v" "bitmap_ok bm" "numBits bm = NumSectors"
  shows "\<exists>v'. BitMap_WriteBack garbage (freeMapFile fs) bm v = Inr v' \<and> vol_ok v' \<and>
    (\<forall>s. s \<notin> set (blocks (map_hdr fs)) \<longrightarrow> v' s = v s) \<and> map_at fs v' = bm"
proof -
  have w: "numWords bm = 32" "length (bmap bm) = 32" using assms(3,4) by (simp_all add: bitmap_ok_def divRoundUp_def c_arith)
  have h: "header_ok (map_hdr fs)" "numBytes (map_hdr fs) = 128" using assms(1) by (simp_all add: system_files_def)
  obtain v' where v': "WriteAt garbage (map_hdr fs) (words_bytes (bmap bm)) 128 0 v = Inr (128, v')" "vol_ok v'"
    "\<forall>s. s \<notin> set (blocks (map_hdr fs)) \<longrightarrow> v' s = v s" "file_bytes (map_hdr fs) v' = words_bytes (bmap bm)"
    using whole_write [OF h(1) assms(2), of 128 "words_bytes (bmap bm)" garbage] h(2) w by auto
  have "map_at fs v' = bm" using words_roundtrip [of "bmap bm" "[]"] w assms(4) v'(4) by (simp add: map_at_def)
  then show ?thesis using v' w(1) by (simp add: BitMap_WriteBack_def)
qed

lemma Directory_WriteBack_eq:
  assumes "system_files fs" "vol_ok v" "\<forall>e\<in>set es. entry_ok e" "length es = NumDirEntries"
  shows "\<exists>v'. Directory_WriteBack garbage (directoryFile fs) \<lparr>tableSize = int NumDirEntries, table = es\<rparr> v = Inr v' \<and> vol_ok v' \<and>
    (\<forall>s. s \<notin> set (blocks (dir_hdr fs)) \<longrightarrow> v' s = v s) \<and> dir_at fs v' = es"
proof -
  have h: "header_ok (dir_hdr fs)" "numBytes (dir_hdr fs) = 200" using assms(1) by (simp_all add: system_files_def)
  obtain v' where v': "WriteAt garbage (dir_hdr fs) (table_image es) 200 0 v = Inr (200, v')" "vol_ok v'"
    "\<forall>s. s \<notin> set (blocks (dir_hdr fs)) \<longrightarrow> v' s = v s" "file_bytes (dir_hdr fs) v' = table_image es"
    using whole_write [OF h(1) assms(2), of 200 "table_image es" garbage] h(2) length_table_image [OF assms(3)] assms(4) by auto
  have "dir_at fs v' = es" using table_roundtrip [OF assms(3), of "[]"] assms(4) v'(4) by (simp add: dir_at_def)
  then show ?thesis using v' by (simp add: Directory_WriteBack_def)
qed

section \<open>Allocating the sectors of a file\<close>

lemma allocate_loop_eq:
  "i + n \<le> length (dataSectors h) \<Longrightarrow> allocate_loop i n h fm =
     rbind (alloc_many BitMap_Find n fm) (\<lambda>(xs, fm'). Inr (h\<lparr>dataSectors := take i (dataSectors h) @ xs @ drop (i + length xs) (dataSectors h)\<rparr>, fm'))"
proof (induction n arbitrary: i h fm)
  case (Suc n)
  show ?case
  proof (cases "BitMap_Find fm")
    case (Inr r)
    obtain sec fm1 where r: "r = (sec, fm1)" by (cases r)
    let ?h1 = "h\<lparr>dataSectors := (dataSectors h)[i := sec]\<rparr>"
    have i: "i < length (dataSectors h)" using Suc.prems by simp
    have "take (Suc i) ((dataSectors h)[i := sec]) = take i (dataSectors h) @ [sec]" using i by (simp add: take_Suc_conv_app_nth)
    then have "take (Suc i) (dataSectors ?h1) @ xs @ drop (Suc i + length xs) (dataSectors ?h1) =
        take i (dataSectors h) @ (sec # xs) @ drop (i + length (sec # xs)) (dataSectors h)" for xs by simp
    moreover have "allocate_loop (Suc i) n ?h1 fm1 =
       rbind (alloc_many BitMap_Find n fm1) (\<lambda>(xs, fm'). Inr (?h1\<lparr>dataSectors := take (Suc i) (dataSectors ?h1) @ xs @ drop (Suc i + length xs) (dataSectors ?h1)\<rparr>, fm'))"
      using Suc.prems by (intro Suc.IH) simp
    ultimately show ?thesis using Inr r i by (cases "alloc_many BitMap_Find n fm1") auto
  qed simp
qed simp

lemma numBits_nbits: "bitmap_ok bm \<Longrightarrow> nbits bm = n \<Longrightarrow> numBits bm = int n"
  by (auto simp: bitmap_ok_def nbits_def)

definition sectors_for :: "int \<Rightarrow> nat" where
  "sectors_for fileSize = nat (divRoundUp fileSize SectorSize)"

lemma sectors_for_bounds: "0 \<le> fileSize \<Longrightarrow> fileSize \<le> 3840 \<Longrightarrow> divRoundUp fileSize 128 = int (sectors_for fileSize) \<and> sectors_for fileSize \<le> 30"
  using divRoundUp_bounds [of fileSize 128] by (simp add: sectors_for_def)

lemma Allocate_refused:
  assumes "bitmap_ok fm" "nbits fm = 1024" "0 \<le> fileSize" "fileSize \<le> 3840" "1024 - card (marked fm) < sectors_for fileSize"
  shows "\<exists>h' fm'. Allocate fileSize h fm = Inr (False, h', fm')"
  using assms sectors_for_bounds [OF assms(3,4)] by (simp add: Allocate_def Let_def NumClear_eq)

lemma Allocate_ok:
  assumes fm: "bitmap_ok fm" "nbits fm = 1024" and sz: "0 \<le> fileSize" "fileSize \<le> 3840"
    and h: "length (dataSectors h) = NumDirect" "\<forall>s\<in>set (dataSectors h). int32 s"
    and room: "sectors_for fileSize \<le> 1024 - card (marked fm)"
  shows "\<exists>h' fm'. Allocate fileSize h fm = Inr (True, h', fm') \<and> header_ok h' \<and> numBytes h' = fileSize \<and> bitmap_ok fm' \<and> nbits fm' = 1024 \<and>
     length (blocks h') = sectors_for fileSize \<and> set (blocks h') \<inter> marked fm = {} \<and> marked fm' = marked fm \<union> set (blocks h') \<and>
     (\<forall>bs. image_header (header_image h' @ bs) = h')"
proof -
  let ?n = "sectors_for fileSize" and ?ds = "dataSectors h"
  note n = sectors_for_bounds [OF sz]
  obtain xs fm' where x: "alloc_many BitMap_Find ?n fm = Inr (map int xs, fm')" "bitmap_ok fm'" "length xs = ?n" "distinct xs"
    "set xs \<inter> marked fm = {}" "set xs \<subseteq> {..<nbits fm}" "marked fm' = marked fm \<union> set xs" "nbits fm' = nbits fm"
    using bits.find_many [OF fm(1), of ?n] room fm(2) by auto
  define h' where "h' = h\<lparr>numBytes := fileSize, numSectors := int ?n, dataSectors := map int xs @ drop ?n ?ds\<rparr>"
  have len: "length (dataSectors h') = 30" using x(3) n h(1) by (simp add: h'_def)
  have tk: "take (nat (numSectors h')) (dataSectors h') = map int xs" using x(3) by (simp add: h'_def)
  have b: "blocks h' = xs" by (simp add: blocks_def tk comp_def)
  have fields: "numBytes h' = fileSize" "numSectors h' = int ?n" by (simp_all add: h'_def)
  have "0 \<le> s \<and> s < NumSectors" if "s \<in> set (map int xs)" for s using that x(6) fm(2) by auto
  then have ok: "header_ok h'" unfolding header_ok_def tk b using sz(1) n x(4) len fields by simp
  have "allocate_loop 0 ?n (h\<lparr>numBytes := fileSize, numSectors := int ?n\<rparr>) fm = Inr (h', fm')"
    using x(1,3) n h(1) by (subst allocate_loop_eq) (simp_all add: h'_def)
  then have a: "Allocate fileSize h fm = Inr (True, h', fm')"
    using n room fm(2) by (simp add: Allocate_def Let_def NumClear_eq)
  have "int32 s" if "s \<in> set (dataSectors h')" for s
    using that h(2) x(6) fm(2) by (auto simp: h'_def int32_def dest: in_set_dropD)
  then have "image_header (header_image h' @ bs) = h'" for bs
    using n sz len by (intro header_roundtrip) (auto simp: h'_def int32_def)
  then show ?thesis using a ok x(2,3,5,7,8) fm(2) b fields(1) by (intro exI [of _ h'] exI [of _ fm']) simp
qed

lemma deallocate_loop_eq:
  assumes "header_ok h"
  shows "i + n \<le> length (blocks h) \<Longrightarrow> bitmap_ok fm \<Longrightarrow> nbits fm = 1024 \<Longrightarrow> set (take n (drop i (blocks h))) \<subseteq> marked fm \<Longrightarrow>
    \<exists>fm'. deallocate_loop i n h fm = Inr fm' \<and> bitmap_ok fm' \<and> nbits fm' = 1024 \<and> marked fm' = marked fm - set (take n (drop i (blocks h)))"
proof (induction n arbitrary: i fm)
  case (Suc n)
  have i: "i < length (blocks h)" using Suc.prems by simp
  have len: "length (dataSectors h) = 30" "length (blocks h) \<le> 30" using assms header_okD(1,5) [OF assms] by (simp_all add: header_ok_def)
  have d: "dataSectors h ! i = int (blocks h ! i)"
  proof -
    have "ByteToSector h (int i * SectorSize) = Inr (dataSectors h ! i)" using i len by (simp add: ByteToSector_def c_arith)
    then show ?thesis using ByteToSector_eq(1) [OF assms i] by simp
  qed
  have t: "take (Suc n) (drop i (blocks h)) = blocks h ! i # take n (drop (Suc i) (blocks h))" using i by (simp add: Cons_nth_drop_Suc [symmetric])
  have "distinct (take (Suc n) (drop i (blocks h)))" using assms by (simp add: header_ok_def)
  then have nd: "blocks h ! i \<notin> set (take n (drop (Suc i) (blocks h)))" using t by simp
  have m: "blocks h ! i \<in> marked fm" "blocks h ! i < nbits fm" using Suc.prems(4) t ByteToSector_eq(2) [OF assms i] Suc.prems(3) by auto
  obtain fm1 where f: "BitMap_Clear fm (int (blocks h ! i)) = Inr fm1" "bitmap_ok fm1" "marked fm1 = marked fm - {blocks h ! i}" "nbits fm1 = nbits fm"
    using bits.free_ok [OF Suc.prems(2) m(2)] by blast
  have "\<exists>fm'. deallocate_loop (Suc i) n h fm1 = Inr fm' \<and> bitmap_ok fm' \<and> nbits fm' = 1024 \<and> marked fm' = marked fm1 - set (take n (drop (Suc i) (blocks h)))"
    using Suc.prems t nd f by (intro Suc.IH) auto
  then show ?case using f(1,3) t i len m test_marked [OF m(2)] by (auto simp: d)
qed simp

lemma Deallocate_ok:
  assumes "header_ok h" "bitmap_ok fm" "nbits fm = 1024" "set (blocks h) \<subseteq> marked fm"
  shows "\<exists>fm'. Deallocate h fm = Inr fm' \<and> bitmap_ok fm' \<and> nbits fm' = 1024 \<and> marked fm' = marked fm - set (blocks h)"
  using deallocate_loop_eq [OF assms(1), of 0 "length (blocks h)" fm] assms header_okD(1) [OF assms(1)] by (simp add: Deallocate_def)

section \<open>The files on a disk\<close>

definition hdr_at :: "volume \<Rightarrow> int \<Rightarrow> FileHeader" where
  "hdr_at v s = image_header (v (nat s))"

text \<open>The sectors of the file an entry names, its header first.\<close>

definition own :: "volume \<Rightarrow> DirectoryEntry \<Rightarrow> nat list" where
  "own v e = nat (entry_sector e) # blocks (hdr_at v (entry_sector e))"

definition sectors_of :: "volume \<Rightarrow> DirectoryEntry list \<Rightarrow> nat list" where
  "sectors_of v es = concat (map (own v) es)"

definition name_of :: "DirectoryEntry \<Rightarrow> byte list" where
  "name_of e = cname (entry_name e)"

definition file_at :: "volume \<Rightarrow> DirectoryEntry \<Rightarrow> byte list \<times> byte list" where
  "file_at v e = (name_of e, file_bytes (hdr_at v (entry_sector e)) v)"

definition files_ok :: "volume \<Rightarrow> DirectoryEntry list \<Rightarrow> bool" where
  "files_ok v es \<longleftrightarrow> (\<forall>e\<in>set es. 0 \<le> entry_sector e \<and> entry_sector e < NumSectors \<and> header_ok (hdr_at v (entry_sector e))) \<and>
     distinct (map name_of es)"

definition live :: "DirectoryEntry list \<Rightarrow> DirectoryEntry list" where
  "live es = filter inUse es"

definition system_sectors :: "DiskFS \<Rightarrow> nat list" where
  "system_sectors fs = 0 # 1 # blocks (map_hdr fs) @ blocks (dir_hdr fs)"

text \<open>
  The invariant: the open headers of the system files are the ones on disk, every directory entry in use
  names a file with a well-formed header, no two have the same name, no two files share a
  sector, and the bitmap marks exactly the sectors in use.
\<close>

definition disk_fs_ok :: "DiskFS \<Rightarrow> volume \<Rightarrow> bool" where
  "disk_fs_ok fs v \<longleftrightarrow> vol_ok v \<and> system_files fs \<and> hdr_at v FreeMapSector = map_hdr fs \<and> hdr_at v DirectorySector = dir_hdr fs \<and>
     files_ok v (live (dir_at fs v)) \<and>
     distinct (system_sectors fs @ sectors_of v (live (dir_at fs v))) \<and>
     marked (map_at fs v) = set (system_sectors fs @ sectors_of v (live (dir_at fs v)))"

definition fs_files :: "DiskFS \<Rightarrow> volume \<Rightarrow> byte list \<rightharpoonup> byte list" where
  "fs_files fs v = map_of (map (file_at v) (live (dir_at fs v)))"

lemma file_bytes_cong: "\<forall>s\<in>set (blocks h). v' s = v s \<Longrightarrow> file_bytes h v' = file_bytes h v"
proof -
  assume "\<forall>s\<in>set (blocks h). v' s = v s"
  then have "map v' (blocks h) = map v (blocks h)" by simp
  then show ?thesis unfolding file_bytes_def raw_bytes_def by (rule arg_cong)
qed

lemma entry_frame:
  assumes "\<forall>s\<in>set (own v e). v' s = v s"
  shows "hdr_at v' (entry_sector e) = hdr_at v (entry_sector e)" "own v' e = own v e" "file_at v' e = file_at v e"
proof -
  show h: "hdr_at v' (entry_sector e) = hdr_at v (entry_sector e)" using assms by (simp add: hdr_at_def own_def)
  then show "own v' e = own v e" by (simp add: own_def)
  have "file_bytes (hdr_at v (entry_sector e)) v' = file_bytes (hdr_at v (entry_sector e)) v"
    using assms by (intro file_bytes_cong) (simp add: own_def)
  then show "file_at v' e = file_at v e" by (simp add: file_at_def h)
qed

lemma layout_frame:
  assumes "\<forall>s\<in>set (sectors_of v es). v' s = v s"
  shows "files_ok v' es = files_ok v es" "sectors_of v' es = sectors_of v es" "map (file_at v') es = map (file_at v) es"
proof -
  have e: "hdr_at v' (entry_sector e) = hdr_at v (entry_sector e)" "own v' e = own v e" "file_at v' e = file_at v e" if "e \<in> set es" for e
    using entry_frame [of v e v'] assms that by (auto simp: sectors_of_def)
  show "files_ok v' es = files_ok v es" using e(1) by (simp add: files_ok_def)
  show "sectors_of v' es = sectors_of v es" unfolding sectors_of_def using e(2) by (metis map_cong)
  show "map (file_at v') es = map (file_at v) es" using e(3) by simp
qed

lemma map_at_cong: "\<forall>s\<in>set (blocks (map_hdr fs)). v' s = v s \<Longrightarrow> map_at fs v' = map_at fs v"
  unfolding map_at_def using file_bytes_cong [of "map_hdr fs" v' v] by simp

lemma dir_at_cong: "\<forall>s\<in>set (blocks (dir_hdr fs)). v' s = v s \<Longrightarrow> dir_at fs v' = dir_at fs v"
  unfolding dir_at_def using file_bytes_cong [of "dir_hdr fs" v' v] by simp

lemma live_split:
  assumes "k < length es"
  defines "A \<equiv> live (take k es)" and "B \<equiv> live (drop (Suc k) es)"
  shows "live es = A @ (if inUse (es ! k) then [es ! k] else []) @ B" "live (es[k := x]) = A @ (if inUse x then [x] else []) @ B"
proof -
  show "live es = A @ (if inUse (es ! k) then [es ! k] else []) @ B"
    unfolding A_def B_def live_def by (subst id_take_nth_drop [OF assms(1)]) simp
  show "live (es[k := x]) = A @ (if inUse x then [x] else []) @ B"
    unfolding upd_conv_take_nth_drop [OF assms(1)] A_def B_def live_def by simp
qed

lemma map_of_middle:
  "n \<notin> fst ` set A \<Longrightarrow> map_of (A @ (n, c) # B) = (map_of (A @ B))(n \<mapsto> c)"
proof -
  assume "n \<notin> fst ` set A"
  then have "map_of A n = None" by (simp add: map_of_eq_None_iff)
  then show ?thesis by (auto simp: map_add_def fun_eq_iff split: option.splits)
qed

section \<open>Names in the directory\<close>

abbreviation dir_of :: "DirectoryEntry list \<Rightarrow> Directory" where
  "dir_of es \<equiv> \<lparr>tableSize = int NumDirEntries, table = es\<rparr>"

lemma cname_length: "length (cname s) \<le> 9"
  unfolding cname_def using length_takeWhile_le [of "\<lambda>b. b \<noteq> 0" "take 9 s"] by simp

lemma cname_nonzero: "b \<in> set (cname s) \<Longrightarrow> b \<noteq> 0"
  by (auto simp: cname_def dest: set_takeWhileD)

lemma cname_strncpy: "length old = 10 \<Longrightarrow> cname (strncpy9 name old) = cname name" "length old = 10 \<Longrightarrow> length (strncpy9 name old) = 10"
proof -
  have "take 9 (strncpy9 name old) = cname name @ replicate (9 - length (cname name)) 0"
    using cname_length [of name] by (simp add: strncpy9_def)
  moreover have "takeWhile (\<lambda>b. b \<noteq> 0) (cname name @ replicate (9 - length (cname name)) 0) = cname name"
    using cname_nonzero by (simp add: takeWhile_append2)
  ultimately show "cname (strncpy9 name old) = cname name" by (simp add: cname_def [of "strncpy9 name old"])
  show "length old = 10 \<Longrightarrow> length (strncpy9 name old) = 10" using cname_length [of name] by (simp add: strncpy9_def)
qed

lemma cname_idem: "cname (cname s) = cname s"
proof -
  have "take 9 (cname s) = cname s" using cname_length [of s] by simp
  then show ?thesis using cname_nonzero [of _ s] by (simp add: cname_def [of "cname s"])
qed

lemma in_live_names: "length es = 10 \<Longrightarrow> n \<in> name_of ` set (live es) \<longleftrightarrow> (\<exists>i<10. inUse (es ! i) \<and> name_of (es ! i) = n)"
  by (auto simp: live_def in_set_conv_nth image_iff)

lemma FindIndex_cases:
  assumes "length es = NumDirEntries"
  shows "cname name \<notin> name_of ` set (live es) \<Longrightarrow> FindIndex name (dir_of es) = -1"
    "cname name \<in> name_of ` set (live es) \<Longrightarrow> \<exists>k<NumDirEntries. FindIndex name (dir_of es) = int k \<and> inUse (es ! k) \<and> name_of (es ! k) = cname name"
proof -
  let ?p = "\<lambda>i. inUse (es ! i) \<and> cname (entry_name (es ! i)) = cname name"
  show "FindIndex name (dir_of es) = -1" if "cname name \<notin> name_of ` set (live es)"
  proof -
    have "first_index ?p 10 = None" using that unfolding first_index_None in_live_names [OF assms] name_of_def by blast
    then show ?thesis by (simp add: FindIndex_def)
  qed
  show "\<exists>k<NumDirEntries. FindIndex name (dir_of es) = int k \<and> inUse (es ! k) \<and> name_of (es ! k) = cname name" if "cname name \<in> name_of ` set (live es)"
  proof -
    have "first_index ?p 10 \<noteq> None" using that unfolding first_index_None in_live_names [OF assms] name_of_def by blast
    then obtain k where k: "first_index ?p 10 = Some k" by blast
    then show ?thesis using first_index_Some [of ?p 10 k] by (intro exI [of _ k]) (simp add: FindIndex_def name_of_def)
  qed
qed

section \<open>Creating a file\<close>

lemma sectors_of_append [simp]: "sectors_of v (A @ B) = sectors_of v A @ sectors_of v B" "sectors_of v (e # B) = own v e @ sectors_of v B"
  by (simp_all add: sectors_of_def)

lemma disk_fs_okD:
  assumes "disk_fs_ok fs v"
  shows "vol_ok v" "system_files fs" "hdr_at v FreeMapSector = map_hdr fs" "hdr_at v DirectorySector = dir_hdr fs"
    "files_ok v (live (dir_at fs v))" "distinct (system_sectors fs @ sectors_of v (live (dir_at fs v)))"
    "marked (map_at fs v) = set (system_sectors fs) \<union> set (sectors_of v (live (dir_at fs v)))"
  using assms by (simp_all add: disk_fs_ok_def)

lemma system_apart:
  assumes "disk_fs_ok fs v"
  shows "0 \<notin> set (blocks (map_hdr fs))" "0 \<notin> set (blocks (dir_hdr fs))" "1 \<notin> set (blocks (map_hdr fs))" "1 \<notin> set (blocks (dir_hdr fs))"
    "set (blocks (map_hdr fs)) \<inter> set (blocks (dir_hdr fs)) = {}"
    "set (blocks (map_hdr fs)) \<inter> set (sectors_of v (live (dir_at fs v))) = {}" "set (blocks (dir_hdr fs)) \<inter> set (sectors_of v (live (dir_at fs v))) = {}"
  using disk_fs_okD(6) [OF assms] by (auto simp: system_sectors_def)

lemma dom_fs_files: "dom (fs_files fs v) = name_of ` set (live (dir_at fs v))"
  by (simp add: fs_files_def dom_map_of_conv_image_fst image_image file_at_def)

lemma system_files_kept:
  assumes ok: "disk_fs_ok fs v" and s: "\<forall>s. s \<notin> X \<longrightarrow> v' s = v s" "0 \<notin> X" "1 \<notin> X"
  shows "hdr_at v' FreeMapSector = map_hdr fs" "hdr_at v' DirectorySector = dir_hdr fs"
  using disk_fs_okD(3,4) [OF ok] s by (simp_all add: hdr_at_def)

text \<open>The disk after the header of the new file, the directory and the bitmap have been written.\<close>

lemma created:
  assumes ok: "disk_fs_ok fs v" and i: "i < 1024" "i \<notin> marked (map_at fs v)" and k: "k < length (dir_at fs v)" "\<not> inUse (dir_at fs v ! k)"
    and h: "header_ok h" "set (blocks h) \<inter> insert i (marked (map_at fs v)) = {}" "image_header (v3 i) = h"
    and e: "inUse e" "entry_sector e = int i" "name_of e \<notin> name_of ` set (live (dir_at fs v))"
    and v3: "vol_ok v3" "dir_at fs v3 = (dir_at fs v)[k := e]" "marked (map_at fs v3) = insert i (marked (map_at fs v)) \<union> set (blocks h)"
    and same: "\<forall>s. s \<notin> insert i (set (blocks (map_hdr fs)) \<union> set (blocks (dir_hdr fs))) \<longrightarrow> v3 s = v s"
  shows "disk_fs_ok fs v3" "fs_files fs v3 = (fs_files fs v)(name_of e \<mapsto> file_bytes h v)"
proof -
  define A B where "A = live (take k (dir_at fs v))" and "B = live (drop (Suc k) (dir_at fs v))"
  have live: "live (dir_at fs v) = A @ B" "live (dir_at fs v3) = A @ e # B"
    using live_split [OF k(1)] k(2) e(1) unfolding v3(2) A_def B_def by simp_all
  note M = disk_fs_okD(7) [OF ok, unfolded live(1)] and D = disk_fs_okD(6) [OF ok, unfolded live(1)]
  have sys: "i \<notin> set (system_sectors fs)" "i \<notin> set (sectors_of v (A @ B))" using i(2) M by auto
  have eq: "\<forall>s\<in>set (sectors_of v (A @ B)). v3 s = v s"
    using same sys system_apart(6,7) [OF ok] unfolding live(1) by auto
  note fr = layout_frame [OF eq]
  have "sectors_of v3 A = sectors_of v A" "sectors_of v3 B = sectors_of v B" using eq by (auto intro: layout_frame(2))
  moreover have he: "hdr_at v3 (entry_sector e) = h" using h(3) e(2) by (simp add: hdr_at_def)
  then have "own v3 e = i # blocks h" using e(2) by (simp add: own_def)
  ultimately have so: "sectors_of v3 (A @ e # B) = sectors_of v A @ (i # blocks h) @ sectors_of v B" by simp
  have bl: "set (blocks h) \<inter> set (system_sectors fs) = {}" "set (blocks h) \<inter> set (sectors_of v (A @ B)) = {}" "i \<notin> set (blocks h)"
    using h(2) M by auto
  have "file_bytes h v3 = file_bytes h v" using same bl(1,3) by (intro file_bytes_cong) (auto simp: system_sectors_def)
  then have fe: "file_at v3 e = (name_of e, file_bytes h v)" using he by (simp add: file_at_def)
  have "distinct (blocks h)" using h(1) by (simp add: header_ok_def)
  then have dist: "distinct (system_sectors fs @ sectors_of v3 (A @ e # B))"
    using D bl sys unfolding so by auto
  have mk: "marked (map_at fs v3) = set (system_sectors fs @ sectors_of v3 (A @ e # B))"
    unfolding v3(3) M so by auto
  have "files_ok v3 (A @ B)" using disk_fs_okD(5) [OF ok] fr(1) live(1) by simp
  then have files: "files_ok v3 (A @ e # B)" using e h(1) he i(1) live(1) by (auto simp: files_ok_def)
  have "0 \<noteq> i" "1 \<noteq> i" using sys(1) by (auto simp: system_sectors_def)
  then have "hdr_at v3 FreeMapSector = map_hdr fs" "hdr_at v3 DirectorySector = dir_hdr fs"
    using system_files_kept [OF ok same] system_apart(1-4) [OF ok] by auto
  then show "disk_fs_ok fs v3" using v3(1) disk_fs_okD(2) [OF ok] files dist mk unfolding disk_fs_ok_def live(2) by blast
  have "name_of e \<notin> fst ` set (map (file_at v) A)" using e(3) live(1) by (auto simp: file_at_def)
  note mid = map_of_middle [OF this, of "file_bytes h v" "map (file_at v) B"]
  have "map (file_at v3) (A @ e # B) = map (file_at v) A @ (name_of e, file_bytes h v) # map (file_at v) B" using fr(3) fe by simp
  then show "fs_files fs v3 = (fs_files fs v)(name_of e \<mapsto> file_bytes h v)"
    unfolding fs_files_def live map_append [of _ A B] mid [symmetric] by (rule arg_cong)
qed

definition free_sectors :: "DiskFS \<Rightarrow> volume \<Rightarrow> nat" where
  "free_sectors fs v = 1024 - card (marked (map_at fs v))"

lemma card_files:
  assumes "disk_fs_ok fs v" "length (dir_at fs v) = NumDirEntries"
  shows "card (dom (fs_files fs v)) = NumDirEntries \<longleftrightarrow> (\<forall>i<NumDirEntries. inUse (dir_at fs v ! i))"
proof -
  have "distinct (map name_of (live (dir_at fs v)))" using disk_fs_okD(5) [OF assms(1)] by (simp add: files_ok_def)
  then have "card (dom (fs_files fs v)) = length (live (dir_at fs v))" unfolding dom_fs_files by (metis distinct_card list.set_map length_map)
  moreover have "length (live (dir_at fs v)) = 10 \<longleftrightarrow> (\<forall>e\<in>set (dir_at fs v). inUse e)"
  proof
    assume l: "length (live (dir_at fs v)) = 10"
    show "\<forall>e\<in>set (dir_at fs v). inUse e"
    proof (rule ccontr)
      assume "\<not> (\<forall>e\<in>set (dir_at fs v). inUse e)"
      then have "length (live (dir_at fs v)) < length (dir_at fs v)" unfolding live_def by (meson length_filter_less)
      then show False using l assms(2) by simp
    qed
  qed (simp add: live_def assms(2))
  moreover have "(\<forall>e\<in>set (dir_at fs v). inUse e) \<longleftrightarrow> (\<forall>i<10. inUse (dir_at fs v ! i))" using assms(2) by (simp add: all_set_conv_all_nth)
  ultimately show ?thesis by simp
qed

lemma Directory_Find_eq:
  assumes "disk_fs_ok fs v" "length (dir_at fs v) = NumDirEntries"
  shows "cname name \<notin> dom (fs_files fs v) \<Longrightarrow> Directory_Find name (dir_of (dir_at fs v)) = -1 \<and> FindIndex name (dir_of (dir_at fs v)) = -1"
    "cname name \<in> dom (fs_files fs v) \<Longrightarrow> \<exists>k<NumDirEntries. FindIndex name (dir_of (dir_at fs v)) = int k \<and> inUse (dir_at fs v ! k) \<and>
       name_of (dir_at fs v ! k) = cname name \<and> Directory_Find name (dir_of (dir_at fs v)) = entry_sector (dir_at fs v ! k) \<and>
       0 \<le> entry_sector (dir_at fs v ! k) \<and> entry_sector (dir_at fs v ! k) < NumSectors"
proof -
  show "cname name \<notin> dom (fs_files fs v) \<Longrightarrow> Directory_Find name (dir_of (dir_at fs v)) = -1 \<and> FindIndex name (dir_of (dir_at fs v)) = -1"
    using FindIndex_cases(1) [OF assms(2), of name] unfolding dom_fs_files Directory_Find_def by simp
  assume "cname name \<in> dom (fs_files fs v)"
  then obtain k where k: "k < 10" "FindIndex name (dir_of (dir_at fs v)) = int k" "inUse (dir_at fs v ! k)" "name_of (dir_at fs v ! k) = cname name"
    using FindIndex_cases(2) [OF assms(2), of name] unfolding dom_fs_files by blast
  then have "dir_at fs v ! k \<in> set (live (dir_at fs v))" using assms(2) by (simp add: live_def)
  then have "0 \<le> entry_sector (dir_at fs v ! k)" "entry_sector (dir_at fs v ! k) < NumSectors"
    using disk_fs_okD(5) [OF assms(1)] by (auto simp: files_ok_def)
  then show "\<exists>k<NumDirEntries. FindIndex name (dir_of (dir_at fs v)) = int k \<and> inUse (dir_at fs v ! k) \<and>
       name_of (dir_at fs v ! k) = cname name \<and> Directory_Find name (dir_of (dir_at fs v)) = entry_sector (dir_at fs v ! k) \<and>
       0 \<le> entry_sector (dir_at fs v ! k) \<and> entry_sector (dir_at fs v ! k) < NumSectors"
    using k by (intro exI [of _ k]) (simp add: Directory_Find_def Let_def)
qed

lemma Directory_Add_eq:
  assumes "FindIndex name (dir_of es) = -1" "length es = NumDirEntries"
  shows "(\<forall>i<NumDirEntries. inUse (es ! i)) \<Longrightarrow> Directory_Add name sec (dir_of es) = (False, dir_of es)"
    "\<not> (\<forall>i<NumDirEntries. inUse (es ! i)) \<Longrightarrow> \<exists>k<NumDirEntries. \<not> inUse (es ! k) \<and> Directory_Add name sec (dir_of es) =
       (True, dir_of (es[k := (es ! k)\<lparr>inUse := True, entry_name := strncpy9 name (entry_name (es ! k)), entry_sector := sec\<rparr>]))"
proof -
  let ?p = "\<lambda>i. \<not> inUse (es ! i)"
  show "(\<forall>i<NumDirEntries. inUse (es ! i)) \<Longrightarrow> Directory_Add name sec (dir_of es) = (False, dir_of es)"
    using first_index_None [of ?p 10] assms(1) by (simp add: Directory_Add_def)
  assume "\<not> (\<forall>i<NumDirEntries. inUse (es ! i))"
  then have "first_index ?p 10 \<noteq> None" by (simp add: first_index_None)
  then obtain k where k: "first_index ?p 10 = Some k" by blast
  then have "k < 10" "\<not> inUse (es ! k)" using first_index_Some [of ?p 10 k] by auto
  then show "\<exists>k<NumDirEntries. \<not> inUse (es ! k) \<and> Directory_Add name sec (dir_of es) =
       (True, dir_of (es[k := (es ! k)\<lparr>inUse := True, entry_name := strncpy9 name (entry_name (es ! k)), entry_sector := sec\<rparr>]))"
    using k assms(1) by (intro exI [of _ k]) (simp add: Directory_Add_def)
qed

lemma Create_refused:
  assumes ok: "disk_fs_ok fs v" and g: "heap_ok g" and sz: "0 \<le> sz" "sz \<le> 3840"
    and no: "cname name \<in> dom (fs_files fs v) \<or> card (dom (fs_files fs v)) = NumDirEntries \<or> free_sectors fs v < 1 + sectors_for sz"
  shows "DiskFS_Create g name sz fs v = Inr (False, v)"
proof -
  note o = disk_fs_okD(2,1) [OF ok]
  note d = fetch_directory_eq [OF o g] and b = fetch_bitmap_eq(1) [OF o, of g] fetch_bitmap_eq(2,3) [OF o]
  note fi = Directory_Find_eq [OF ok d(3), of name]
  show ?thesis
  proof (cases "cname name \<in> dom (fs_files fs v)")
    case True
    then have "Directory_Find name (dir_of (dir_at fs v)) \<noteq> -1" using fi(2) by force
    then show ?thesis by (simp add: DiskFS_Create_def d(1))
  next
    case False
    note f = fi(1) [OF False]
    show ?thesis
    proof (cases "marked (map_at fs v) = {..<nbits (map_at fs v)}")
      case True
      from bits.find_full [OF b(2) True] show ?thesis using f by (simp add: DiskFS_Create_def d(1) b(1))
    next
      case room: False
      from bits.find_free [OF b(2) room] obtain i fm1 where i: "BitMap_Find (map_at fs v) = Inr (int i, fm1)" "bitmap_ok fm1" "i \<notin> marked (map_at fs v)"
        "marked fm1 = insert i (marked (map_at fs v))" "nbits fm1 = 1024" using b(3) by metis
      show ?thesis
      proof (cases "\<forall>i<NumDirEntries. inUse (dir_at fs v ! i)")
        case True
        from Directory_Add_eq(1) [OF _ d(3) True, of name "int i"] f show ?thesis using i(1) by (simp add: DiskFS_Create_def d(1) b(1))
      next
        case False
        from Directory_Add_eq(2) [OF _ d(3) False, of name "int i"] f obtain D where D: "Directory_Add name (int i) (dir_of (dir_at fs v)) = (True, D)" by auto
        have "card (marked fm1) = Suc (card (marked (map_at fs v)))" using i(3,4) finite_subset [OF marked_subset [of "map_at fs v"]] by simp
        moreover have "card (marked (map_at fs v)) < 1024"
          using psubset_card_mono [of "{..<nbits (map_at fs v)}" "marked (map_at fs v)"] room marked_subset [of "map_at fs v"] b(3) by auto
        ultimately have "1024 - card (marked fm1) < sectors_for sz"
          using no card_files [OF ok d(3)] False \<open>cname name \<notin> dom (fs_files fs v)\<close> by (auto simp: free_sectors_def)
        from Allocate_refused [OF i(2,5) sz this, of "new_header g"] obtain h' fm' where "Allocate sz (new_header g) fm1 = Inr (False, h', fm')" by blast
        then show ?thesis using f i(1) D by (simp add: DiskFS_Create_def d(1) b(1))
      qed
    qed
  qed
qed

lemma Create_succeeds:
  assumes ok: "disk_fs_ok fs v" and g: "heap_ok g" and sz: "0 \<le> sz" "sz \<le> 3840"
    and yes: "cname name \<notin> dom (fs_files fs v)" "card (dom (fs_files fs v)) \<noteq> NumDirEntries" "1 + sectors_for sz \<le> free_sectors fs v"
  shows "\<exists>v' bytes. DiskFS_Create g name sz fs v = Inr (True, v') \<and> disk_fs_ok fs v' \<and> length bytes = nat sz \<and>
     fs_files fs v' = (fs_files fs v)(cname name \<mapsto> bytes) \<and> free_sectors fs v' = free_sectors fs v - (1 + sectors_for sz)"
proof -
  note o = disk_fs_okD(2,1) [OF ok]
  note d = fetch_directory_eq [OF o g] and b = fetch_bitmap_eq(1) [OF o, of g] fetch_bitmap_eq(2,3) [OF o]
  note f = Directory_Find_eq(1) [OF ok d(3) yes(1)]
  let ?es = "dir_at fs v" and ?M = "marked (map_at fs v)"
  have fin: "finite ?M" by (rule finite_subset [OF marked_subset]) simp
  have "?M \<noteq> {..<nbits (map_at fs v)}"
  proof
    assume "?M = {..<nbits (map_at fs v)}"
    then have "card ?M = 1024" using b(3) by simp
    then show False using yes(3) by (simp add: free_sectors_def)
  qed
  from bits.find_free [OF b(2) this] obtain i fm1 where i: "BitMap_Find (map_at fs v) = Inr (int i, fm1)" "bitmap_ok fm1" "i < 1024" "i \<notin> ?M"
    "marked fm1 = insert i ?M" "nbits fm1 = 1024" using b(3) by metis
  have c1: "card (marked fm1) = Suc (card ?M)" using i(4,5) fin by simp
  have "\<not> (\<forall>i<NumDirEntries. inUse (?es ! i))" using card_files [OF ok d(3)] yes(2) by simp
  from Directory_Add_eq(2) [OF _ d(3) this, of name "int i"] f obtain k where k: "k < 10" "\<not> inUse (?es ! k)"
    "Directory_Add name (int i) (dir_of ?es) = (True, dir_of (?es[k := (?es ! k)\<lparr>inUse := True, entry_name := strncpy9 name (entry_name (?es ! k)), entry_sector := int i\<rparr>]))"
    by blast
  define e where "e = (?es ! k)\<lparr>inUse := True, entry_name := strncpy9 name (entry_name (?es ! k)), entry_sector := int i\<rparr>"
  have "entry_ok (?es ! k)" using d(2,3) k(1) by simp
  then have e: "entry_ok e" "inUse e" "entry_sector e = int i" "name_of e = cname name"
    using i(3) cname_strncpy [of "entry_name (?es ! k)" name] by (auto simp: e_def entry_ok_def name_of_def int32_def)
  have hg: "length (dataSectors (new_header g)) = NumDirect" "\<forall>s\<in>set (dataSectors (new_header g)). int32 s" using g by (auto simp: heap_ok_def)
  have "sectors_for sz \<le> 1024 - card (marked fm1)" using yes(3) c1 by (simp add: free_sectors_def)
  from Allocate_ok [OF i(2,6) sz hg this] obtain h fm2 where h: "Allocate sz (new_header g) fm1 = Inr (True, h, fm2)" "header_ok h" "numBytes h = sz"
    "bitmap_ok fm2" "nbits fm2 = 1024" "length (blocks h) = sectors_for sz" "set (blocks h) \<inter> marked fm1 = {}" "marked fm2 = marked fm1 \<union> set (blocks h)"
    "\<And>bs. image_header (header_image h @ bs) = h" by blast
  have hl: "length (header_image h) = 128"
  proof -
    have "\<forall>x\<in>set (map int_bytes (dataSectors h)). length x = 4" by simp
    from length_blocks [OF this] show ?thesis using h(2) by (simp add: header_image_def header_ok_def)
  qed
  let ?v1 = "v(i := header_image h)"
  have v1: "disk_write (int i) (header_image h) v = Inr ?v1" "vol_ok ?v1" using disk_write_eq [OF o(2) i(3), of "header_image h"] hl by auto
  have "\<forall>x\<in>set (?es[k := e]). entry_ok x" "length (?es[k := e]) = 10" using d(2,3) e(1) by (auto dest!: set_update_subset_insert [THEN subsetD])
  from Directory_WriteBack_eq [OF o(1) v1(2) this, of "new_bytes g"] obtain v2 where
    v2: "Directory_WriteBack (new_bytes g) (directoryFile fs) (dir_of (?es[k := e])) ?v1 = Inr v2" "vol_ok v2"
      "\<forall>s. s \<notin> set (blocks (dir_hdr fs)) \<longrightarrow> v2 s = ?v1 s" "dir_at fs v2 = ?es[k := e]" by blast
  from BitMap_WriteBack_eq [OF o(1) v2(2) h(4), of "new_bytes g"] numBits_nbits [OF h(4,5)] obtain v3 where
    v3: "BitMap_WriteBack (new_bytes g) (freeMapFile fs) fm2 v2 = Inr v3" "vol_ok v3"
      "\<forall>s. s \<notin> set (blocks (map_hdr fs)) \<longrightarrow> v3 s = v2 s" "map_at fs v3 = fm2" by auto
  have "i \<notin> set (system_sectors fs)" using i(4) disk_fs_okD(7) [OF ok] by simp
  then have "i \<notin> set (blocks (map_hdr fs))" "i \<notin> set (blocks (dir_hdr fs))" by (auto simp: system_sectors_def)
  then have vi: "v3 i = header_image h" using v2(3) v3(3) by simp
  have "dir_at fs v3 = ?es[k := e]" using dir_at_cong [of fs v3 v2] v2(4) v3(3) system_apart(5) [OF ok] by auto
  moreover have "\<forall>s. s \<notin> insert i (set (blocks (map_hdr fs)) \<union> set (blocks (dir_hdr fs))) \<longrightarrow> v3 s = v s" using v2(3) v3(3) by simp
  moreover have "name_of e \<notin> name_of ` set (live ?es)" using yes(1) e(4) by (simp add: dom_fs_files)
  moreover have "image_header (v3 i) = h" using vi h(9) [of "[]"] by simp
  moreover have "set (blocks h) \<inter> insert i ?M = {}" "marked (map_at fs v3) = insert i ?M \<union> set (blocks h)" using h(7,8) i(5) v3(4) by auto
  ultimately have r: "disk_fs_ok fs v3" "fs_files fs v3 = (fs_files fs v)(cname name \<mapsto> file_bytes h v)"
    using created [OF ok i(3,4) _ k(2) h(2) _ _ e(2,3) _ v3(2)] k(1) d(3) e(4) by auto
  have "card (marked fm2) = card ?M + 1 + sectors_for sz"
    using h(2,6,7,8) c1 i(5) fin distinct_card [of "blocks h"] by (subst h(8), subst card_Un_disjoint) (auto simp: header_ok_def)
  then have "free_sectors fs v3 = free_sectors fs v - (1 + sectors_for sz)" by (simp add: free_sectors_def v3(4))
  moreover have "DiskFS_Create g name sz fs v = Inr (True, v3)"
    using f i(1) k(3) h(1) v1(1) v2(1) v3(1) by (simp add: DiskFS_Create_def d(1) b(1) FileHeader_WriteBack_def e_def)
  ultimately show ?thesis using r length_file_bytes [OF h(2) o(2)] h(3) by blast
qed

section \<open>Removing, opening and writing a file\<close>

lemma map_of_without:
  assumes "n \<notin> fst ` set A" "n \<notin> fst ` set B"
  shows "(map_of (A @ (n, c) # B))(n := None) = map_of (A @ B)"
proof -
  have "map_of (A @ B) n = None" using assms by (simp add: map_of_eq_None_iff)
  then show ?thesis unfolding map_of_middle [OF assms(1)] by (simp add: fun_eq_iff map_add_def)
qed

text \<open>The entry in use at an index, among the others.\<close>

lemma live_entry:
  assumes ok: "disk_fs_ok fs v" and k: "k < length (dir_at fs v)" "inUse (dir_at fs v ! k)"
  defines "e \<equiv> dir_at fs v ! k" and "A \<equiv> live (take k (dir_at fs v))" and "B \<equiv> live (drop (Suc k) (dir_at fs v))"
  shows "live (dir_at fs v) = A @ e # B" "name_of e \<notin> fst ` set (map (file_at v) A)" "name_of e \<notin> fst ` set (map (file_at v) B)"
    "header_ok (hdr_at v (entry_sector e))" "0 \<le> entry_sector e" "entry_sector e < NumSectors"
    "fs_files fs v (name_of e) = Some (file_bytes (hdr_at v (entry_sector e)) v)"
    "distinct (system_sectors fs @ sectors_of v A @ own v e @ sectors_of v B)"
    "marked (map_at fs v) = set (system_sectors fs) \<union> set (sectors_of v A) \<union> set (own v e) \<union> set (sectors_of v B)"
proof -
  show l: "live (dir_at fs v) = A @ e # B" using live_split(1) [OF k(1)] k(2) unfolding A_def B_def e_def by simp
  note f = disk_fs_okD(5) [OF ok, unfolded l]
  show "header_ok (hdr_at v (entry_sector e))" "0 \<le> entry_sector e" "entry_sector e < NumSectors" using f by (auto simp: files_ok_def)
  show "name_of e \<notin> fst ` set (map (file_at v) B)" using f by (auto simp: files_ok_def file_at_def)
  show n: "name_of e \<notin> fst ` set (map (file_at v) A)" using f by (auto simp: files_ok_def file_at_def)
  have "map_of (map (file_at v) A @ file_at v e # map (file_at v) B) (name_of e) = Some (file_bytes (hdr_at v (entry_sector e)) v)"
    unfolding file_at_def [of v e] map_of_middle [OF n] by simp
  then show "fs_files fs v (name_of e) = Some (file_bytes (hdr_at v (entry_sector e)) v)" unfolding fs_files_def l by simp
  show "distinct (system_sectors fs @ sectors_of v A @ own v e @ sectors_of v B)"
    "marked (map_at fs v) = set (system_sectors fs) \<union> set (sectors_of v A) \<union> set (own v e) \<union> set (sectors_of v B)"
    using disk_fs_okD(6,7) [OF ok] unfolding l by auto
qed

lemma removed:
  assumes ok: "disk_fs_ok fs v" and k: "k < length (dir_at fs v)" "inUse (dir_at fs v ! k)"
    and v': "vol_ok v'" "dir_at fs v' = (dir_at fs v)[k := (dir_at fs v ! k)\<lparr>inUse := False\<rparr>]"
      "marked (map_at fs v') = marked (map_at fs v) - set (own v (dir_at fs v ! k))"
    and same: "\<forall>s. s \<notin> set (blocks (map_hdr fs)) \<union> set (blocks (dir_hdr fs)) \<longrightarrow> v' s = v s"
  shows "disk_fs_ok fs v'" "fs_files fs v' = (fs_files fs v)(name_of (dir_at fs v ! k) := None)"
proof -
  define e A B where "e = dir_at fs v ! k" and "A = live (take k (dir_at fs v))" and "B = live (drop (Suc k) (dir_at fs v))"
  note l = live_entry [OF ok k, folded e_def A_def B_def]
  have l': "live (dir_at fs v') = A @ B" using live_split(2) [OF k(1)] unfolding v'(2) A_def B_def by simp
  have eq: "\<forall>s\<in>set (sectors_of v (A @ B)). v' s = v s" using same system_apart(6,7) [OF ok] unfolding l(1) by auto
  note fr = layout_frame [OF eq]
  have "files_ok v (A @ B)" using disk_fs_okD(5) [OF ok] unfolding l(1) by (auto simp: files_ok_def)
  moreover have "distinct (system_sectors fs @ sectors_of v' (A @ B))" using l(8) unfolding fr(2) by auto
  moreover have "marked (map_at fs v') = set (system_sectors fs @ sectors_of v' (A @ B))"
    using l(8) unfolding fr(2) v'(3) l(9) e_def [symmetric] by auto
  moreover have "hdr_at v' FreeMapSector = map_hdr fs" "hdr_at v' DirectorySector = dir_hdr fs"
    using system_files_kept [OF ok same] system_apart(1-4) [OF ok] by auto
  ultimately show "disk_fs_ok fs v'" using v'(1) disk_fs_okD(2) [OF ok] fr(1) unfolding disk_fs_ok_def l' by blast
  show "fs_files fs v' = (fs_files fs v)(name_of (dir_at fs v ! k) := None)"
    unfolding fs_files_def l' l(1) fr(3) e_def [symmetric] using map_of_without [OF l(2,3), of "file_bytes (hdr_at v (entry_sector e)) v"]
    by (simp add: file_at_def)
qed

lemma Remove_eq:
  assumes ok: "disk_fs_ok fs v" and g: "heap_ok g"
  shows "cname name \<notin> dom (fs_files fs v) \<Longrightarrow> DiskFS_Remove g name fs v = Inr (False, v)"
    "fs_files fs v (cname name) = Some bytes \<Longrightarrow> \<exists>v'. DiskFS_Remove g name fs v = Inr (True, v') \<and> disk_fs_ok fs v' \<and>
       fs_files fs v' = (fs_files fs v)(cname name := None) \<and> free_sectors fs v' = free_sectors fs v + 1 + sectors_for (int (length bytes))"
proof -
  note o = disk_fs_okD(2,1) [OF ok]
  note d = fetch_directory_eq [OF o g] and b = fetch_bitmap_eq(1) [OF o, of g] fetch_bitmap_eq(2,3) [OF o]
  show "cname name \<notin> dom (fs_files fs v) \<Longrightarrow> DiskFS_Remove g name fs v = Inr (False, v)"
    using Directory_Find_eq(1) [OF ok d(3)] by (simp add: DiskFS_Remove_def d(1))
  assume some: "fs_files fs v (cname name) = Some bytes"
  let ?es = "dir_at fs v" and ?M = "marked (map_at fs v)"
  obtain k where k: "k < 10" "FindIndex name (dir_of ?es) = int k" "inUse (?es ! k)" "name_of (?es ! k) = cname name"
    "Directory_Find name (dir_of ?es) = entry_sector (?es ! k)" "0 \<le> entry_sector (?es ! k)" "entry_sector (?es ! k) < NumSectors"
    using Directory_Find_eq(2) [OF ok d(3), of name] some by blast
  define e where "e = ?es ! k"
  have kl: "k < length ?es" using k(1) d(3) by simp
  note l = live_entry [OF ok kl k(3), folded e_def]
  let ?h = "hdr_at v (entry_sector e)" and ?s = "nat (entry_sector e)"
  have fetch: "FileHeader_FetchFrom (entry_sector e) v = Inr ?h" using k(6,7) by (simp add: FileHeader_FetchFrom_def disk_read_def hdr_at_def e_def)
  have own: "own v e = ?s # blocks ?h" by (simp add: own_def)
  have sub: "set (blocks ?h) \<subseteq> ?M" "?s \<in> ?M" "?s \<notin> set (blocks ?h)" using l(8,9) own by auto
  obtain fm1 where fm1: "Deallocate ?h (map_at fs v) = Inr fm1" "bitmap_ok fm1" "nbits fm1 = 1024" "marked fm1 = ?M - set (blocks ?h)"
    using Deallocate_ok [OF l(4) b(2,3) sub(1)] by blast
  have "?s < nbits fm1" using l(5,6) fm1(3) by simp
  from bits.free_ok [OF fm1(2) this] obtain fm2 where
    fm2: "BitMap_Clear fm1 (int ?s) = Inr fm2" "bitmap_ok fm2" "marked fm2 = marked fm1 - {?s}" "nbits fm2 = nbits fm1" by blast
  from BitMap_WriteBack_eq [OF o fm2(2), of "new_bytes g"] numBits_nbits [OF fm2(2), of 1024] fm2(4) fm1(3) obtain v1 where
    v1: "BitMap_WriteBack (new_bytes g) (freeMapFile fs) fm2 v = Inr v1" "vol_ok v1" "\<forall>s. s \<notin> set (blocks (map_hdr fs)) \<longrightarrow> v1 s = v s" "map_at fs v1 = fm2"
    by auto
  let ?es' = "?es[k := e\<lparr>inUse := False\<rparr>]"
  have "entry_ok (e\<lparr>inUse := False\<rparr>)" using d(2) kl by (auto simp: e_def entry_ok_def)
  then have "\<forall>x\<in>set ?es'. entry_ok x" "length ?es' = 10" using d(2,3) by (auto dest!: set_update_subset_insert [THEN subsetD])
  from Directory_WriteBack_eq [OF o(1) v1(2) this, of "new_bytes g"] obtain v2 where
    v2: "Directory_WriteBack (new_bytes g) (directoryFile fs) (dir_of ?es') v1 = Inr v2" "vol_ok v2"
      "\<forall>s. s \<notin> set (blocks (dir_hdr fs)) \<longrightarrow> v2 s = v1 s" "dir_at fs v2 = ?es'" by blast
  have m2: "map_at fs v2 = fm2" using map_at_cong [of fs v2 v1] v1(4) v2(3) system_apart(5) [OF ok] by auto
  have "marked (map_at fs v2) = ?M - set (own v e)" unfolding m2 fm2(3) fm1(4) own by auto
  moreover have "\<forall>s. s \<notin> set (blocks (map_hdr fs)) \<union> set (blocks (dir_hdr fs)) \<longrightarrow> v2 s = v s" using v1(3) v2(3) by simp
  ultimately have r: "disk_fs_ok fs v2" "fs_files fs v2 = (fs_files fs v)(cname name := None)"
    using removed [OF ok kl k(3) v2(2), folded e_def, OF v2(4)] k(4) by (simp_all add: e_def)
  have "snd (Directory_Remove name (dir_of ?es)) = dir_of ?es'" using k(2) by (simp add: Directory_Remove_def e_def)
  then have "DiskFS_Remove g name fs v = Inr (True, v2)"
    using k(5,6) fetch fm1(1) fm2(1) v1(1) v2(1) by (simp add: DiskFS_Remove_def d(1) b(1) e_def Let_def)
  moreover have "free_sectors fs v2 = free_sectors fs v + 1 + sectors_for (int (length bytes))"
  proof -
    have "bytes = file_bytes ?h v" using l(7) some k(4) by (simp add: e_def)
    then have "length (own v e) = 1 + sectors_for (int (length bytes))"
      using length_file_bytes [OF l(4) o(2)] header_okD(1,7) [OF l(4)] l(4) by (simp add: own sectors_for_def header_ok_def)
    moreover have "card (set (own v e)) = length (own v e)" using l(8) by (intro distinct_card) simp
    moreover have "card (marked (map_at fs v2)) = card ?M - card (set (own v e))"
      unfolding \<open>marked (map_at fs v2) = ?M - set (own v e)\<close> using sub own by (intro card_Diff_subset) auto
    moreover have "card (set (own v e)) \<le> card ?M" using sub own finite_subset [OF marked_subset [of "map_at fs v"]] by (intro card_mono) auto
    moreover have "card ?M \<le> 1024" using card_mono [OF _ marked_subset [of "map_at fs v"]] b(3) by simp
    ultimately show ?thesis by (simp add: free_sectors_def)
  qed
  ultimately show "\<exists>v'. DiskFS_Remove g name fs v = Inr (True, v') \<and> disk_fs_ok fs v' \<and>
       fs_files fs v' = (fs_files fs v)(cname name := None) \<and> free_sectors fs v' = free_sectors fs v + 1 + sectors_for (int (length bytes))"
    using r by blast
qed

lemma Open_eq:
  assumes ok: "disk_fs_ok fs v" and g: "heap_ok g"
  shows "cname name \<notin> dom (fs_files fs v) \<Longrightarrow> DiskFS_Open g name fs v = Inr None"
    "cname name \<in> dom (fs_files fs v) \<Longrightarrow> \<exists>k<NumDirEntries. inUse (dir_at fs v ! k) \<and> name_of (dir_at fs v ! k) = cname name \<and>
       DiskFS_Open g name fs v = Inr (Some \<lparr>hdr = hdr_at v (entry_sector (dir_at fs v ! k)), seekPosition = 0\<rparr>)"
proof -
  note o = disk_fs_okD(2,1) [OF ok]
  note d = fetch_directory_eq [OF o g]
  show "cname name \<notin> dom (fs_files fs v) \<Longrightarrow> DiskFS_Open g name fs v = Inr None"
    using Directory_Find_eq(1) [OF ok d(3)] by (simp add: DiskFS_Open_def d(1))
  assume "cname name \<in> dom (fs_files fs v)"
  then obtain k where k: "k < NumDirEntries" "inUse (dir_at fs v ! k)" "name_of (dir_at fs v ! k) = cname name"
    "Directory_Find name (dir_of (dir_at fs v)) = entry_sector (dir_at fs v ! k)" "0 \<le> entry_sector (dir_at fs v ! k)" "entry_sector (dir_at fs v ! k) < NumSectors"
    using Directory_Find_eq(2) [OF ok d(3), of name] by blast
  then have "DiskFS_Open g name fs v = Inr (Some \<lparr>hdr = hdr_at v (entry_sector (dir_at fs v ! k)), seekPosition = 0\<rparr>)"
    by (simp add: DiskFS_Open_def d(1) DiskFile_new_def FileHeader_FetchFrom_def disk_read_def hdr_at_def)
  then show "\<exists>k<NumDirEntries. inUse (dir_at fs v ! k) \<and> name_of (dir_at fs v ! k) = cname name \<and>
       DiskFS_Open g name fs v = Inr (Some \<lparr>hdr = hdr_at v (entry_sector (dir_at fs v ! k)), seekPosition = 0\<rparr>)" using k(1-3) by blast
qed

lemma written:
  assumes ok: "disk_fs_ok fs v" and k: "k < length (dir_at fs v)" "inUse (dir_at fs v ! k)" and v': "vol_ok v'"
    and same: "\<forall>s. s \<notin> set (blocks (hdr_at v (entry_sector (dir_at fs v ! k)))) \<longrightarrow> v' s = v s"
  shows "disk_fs_ok fs v'"
    "fs_files fs v' = (fs_files fs v)(name_of (dir_at fs v ! k) \<mapsto> file_bytes (hdr_at v (entry_sector (dir_at fs v ! k))) v')"
proof -
  define e A B where "e = dir_at fs v ! k" and "A = live (take k (dir_at fs v))" and "B = live (drop (Suc k) (dir_at fs v))"
  let ?h = "hdr_at v (entry_sector e)"
  note l = live_entry [OF ok k, folded e_def A_def B_def] and s = same [folded e_def]
  have own: "own v e = nat (entry_sector e) # blocks ?h" by (simp add: own_def)
  have dis: "set (blocks ?h) \<inter> set (system_sectors fs) = {}" "set (blocks ?h) \<inter> set (sectors_of v A @ sectors_of v B) = {}" "nat (entry_sector e) \<notin> set (blocks ?h)"
    using l(8) own by auto
  have eq: "\<forall>s\<in>set (sectors_of v (A @ B)). v' s = v s" using s dis(2) by auto
  note fr = layout_frame [OF eq]
  have frA: "sectors_of v' A = sectors_of v A" "sectors_of v' B = sectors_of v B" using eq by (auto intro: layout_frame(2))
  have he: "hdr_at v' (entry_sector e) = ?h" using s dis(3) by (simp add: hdr_at_def)
  have so: "sectors_of v' (A @ e # B) = sectors_of v (A @ e # B)" using frA he by (simp add: own_def)
  have sys: "dir_at fs v' = dir_at fs v" "map_at fs v' = map_at fs v"
    using s dis(1) by (auto intro!: dir_at_cong map_at_cong simp: system_sectors_def)
  have hs: "hdr_at v' FreeMapSector = map_hdr fs" "hdr_at v' DirectorySector = dir_hdr fs"
    using system_files_kept [OF ok s] dis(1) by (auto simp: system_sectors_def)
  have "files_ok v' (A @ e # B)"
    using disk_fs_okD(5) [OF ok] fr(1) he unfolding l(1) by (auto simp: files_ok_def)
  then show "disk_fs_ok fs v'" using v' disk_fs_okD(2,6,7) [OF ok] hs unfolding disk_fs_ok_def sys l(1) so by simp
  have f: "map (file_at v') (A @ e # B) = map (file_at v) A @ (name_of e, file_bytes ?h v') # map (file_at v) B"
    using fr(3) he by (simp add: file_at_def)
  have "fs_files fs v' = (map_of (map (file_at v) A @ map (file_at v) B))(name_of e \<mapsto> file_bytes ?h v')"
    unfolding fs_files_def sys l(1) f map_of_middle [OF l(2)] ..
  moreover have "map (file_at v) (A @ e # B) = map (file_at v) A @ (name_of e, file_bytes ?h v) # map (file_at v) B" by (simp add: file_at_def)
  then have "fs_files fs v = (map_of (map (file_at v) A @ map (file_at v) B))(name_of e \<mapsto> file_bytes ?h v)"
    unfolding fs_files_def l(1) using map_of_middle [OF l(2)] by metis
  ultimately show "fs_files fs v' = (fs_files fs v)(name_of (dir_at fs v ! k) \<mapsto> file_bytes (hdr_at v (entry_sector (dir_at fs v ! k))) v')"
    unfolding e_def [symmetric] by simp
qed

section \<open>Formatting\<close>

lemma open_system_files_eq:
  assumes "disk_fs_ok fs v"
  shows "open_system_files v = Inr \<lparr>freeMapFile = (freeMapFile fs)\<lparr>seekPosition := 0\<rparr>, directoryFile = (directoryFile fs)\<lparr>seekPosition := 0\<rparr>\<rparr>"
  using disk_fs_okD(3,4) [OF assms]
  by (simp add: open_system_files_def DiskFile_new_def FileHeader_FetchFrom_def disk_read_def hdr_at_def)

lemma formatted:
  assumes v: "vol_ok v" and g: "heap_ok g"
  shows "\<exists>fs v'. FileSystem_format g v = Inr (fs, v') \<and> disk_fs_ok fs v' \<and> fs_files fs v' = Map.empty \<and> free_sectors fs v' = 1019 \<and>
     open_system_files v' = Inr fs"
proof -
  obtain fm0 where fm0: "BitMap_new (new_words g) NumSectors = Inr fm0" "bitmap_ok fm0" "numBits fm0 = NumSectors" "marked fm0 = {}"
    using BitMap_new_ok [of NumSectors "new_words g"] by auto
  then obtain fm1 where fm1: "BitMap_Mark fm0 (int 0) = Inr fm1" "bitmap_ok fm1" "numBits fm1 = NumSectors" "marked fm1 = {0}"
    using mark_ok [OF fm0(2), of 0] by (auto simp: nbits_def)
  then obtain fm2 where fm2: "BitMap_Mark fm1 (int 1) = Inr fm2" "bitmap_ok fm2" "numBits fm2 = NumSectors" "marked fm2 = {0, 1}"
    using mark_ok [OF fm1(2), of 1] by (auto simp: nbits_def insert_commute)
  have hg: "length (dataSectors (new_header g)) = NumDirect" "\<forall>s\<in>set (dataSectors (new_header g)). int32 s" using g by (auto simp: heap_ok_def)
  have sf: "sectors_for 128 = 1" "sectors_for 200 = 2" by (simp_all add: sectors_for_def divRoundUp_def c_arith)
  have n2: "nbits fm2 = 1024" using fm2(3) by (simp add: nbits_def)
  obtain mh fm3 where mh: "Allocate FreeMapFileSize (new_header g) fm2 = Inr (True, mh, fm3)" "header_ok mh" "numBytes mh = 128" "bitmap_ok fm3" "nbits fm3 = 1024"
    "length (blocks mh) = 1" "set (blocks mh) \<inter> {0, 1} = {}" "marked fm3 = {0, 1} \<union> set (blocks mh)" "\<And>bs. image_header (header_image mh @ bs) = mh"
    using Allocate_ok [OF fm2(2) n2 _ _ hg, of 128] fm2(4) sf by auto
  have c3: "card (marked fm3) = 3"
    using mh(2,6,7,8) distinct_card [of "blocks mh"] by (subst mh(8), subst card_Un_disjoint) (auto simp: header_ok_def)
  obtain dh fm4 where dh: "Allocate DirectoryFileSize (new_header g) fm3 = Inr (True, dh, fm4)" "header_ok dh" "numBytes dh = 200" "bitmap_ok fm4" "nbits fm4 = 1024"
    "length (blocks dh) = 2" "set (blocks dh) \<inter> marked fm3 = {}" "marked fm4 = marked fm3 \<union> set (blocks dh)" "\<And>bs. image_header (header_image dh @ bs) = dh"
    using Allocate_ok [OF mh(4,5) _ _ hg, of 200] c3 sf by auto
  have c4: "card (marked fm4) = 5" using dh(2,6,7,8) c3 distinct_card [of "blocks dh"] finite_subset [OF marked_subset [of fm3]]
    by (subst dh(8), subst card_Un_disjoint) (auto simp: header_ok_def)
  have hl: "length (header_image h) = 128" if "header_ok h" for h
    using that length_blocks [of "map int_bytes (dataSectors h)" 4] by (simp add: header_image_def header_ok_def)
  let ?v1 = "v(0 := header_image mh)" and ?v2 = "v(0 := header_image mh, 1 := header_image dh)"
  have v1: "disk_write 0 (header_image mh) v = Inr ?v1" "vol_ok ?v1" using disk_write_eq [OF v, of 0 "header_image mh"] hl [OF mh(2)] by auto
  have v2: "disk_write 1 (header_image dh) ?v1 = Inr ?v2" "vol_ok ?v2" using disk_write_eq [OF v1(2), of 1 "header_image dh"] hl [OF dh(2)] by auto
  define fs where "fs = \<lparr>freeMapFile = \<lparr>hdr = mh, seekPosition = 0\<rparr>, directoryFile = \<lparr>hdr = dh, seekPosition = 0\<rparr>\<rparr>"
  have fs: "map_hdr fs = mh" "dir_hdr fs = dh" by (simp_all add: fs_def)
  have op: "open_system_files ?v2 = Inr fs"
    using mh(9) [of "[]"] dh(9) [of "[]"] by (simp add: open_system_files_def DiskFile_new_def FileHeader_FetchFrom_def disk_read_def fs_def)
  have sy: "system_files fs" using mh(2,3) dh(2,3) fs by (simp add: system_files_def)
  from BitMap_WriteBack_eq [OF sy v2(2) dh(4), of "new_bytes g"] numBits_nbits [OF dh(4,5)] obtain v3 where
    v3: "BitMap_WriteBack (new_bytes g) (freeMapFile fs) fm4 ?v2 = Inr v3" "vol_ok v3" "\<forall>s. s \<notin> set (blocks mh) \<longrightarrow> v3 s = ?v2 s" "map_at fs v3 = fm4"
    unfolding fs by auto
  let ?es = "table (Directory_new (new_entries g) NumDirEntries)"
  have es: "\<forall>e\<in>set ?es. entry_ok e" "length ?es = 10" "Directory_new (new_entries g) NumDirEntries = dir_of ?es" "live ?es = []"
    using g by (auto simp: Directory_new_def heap_ok_def entry_ok_def live_def)
  from Directory_WriteBack_eq [OF sy v3(2) es(1,2), of "new_bytes g"] obtain v4 where
    v4: "Directory_WriteBack (new_bytes g) (directoryFile fs) (dir_of ?es) v3 = Inr v4" "vol_ok v4" "\<forall>s. s \<notin> set (blocks dh) \<longrightarrow> v4 s = v3 s" "dir_at fs v4 = ?es"
    unfolding fs by blast
  have ap: "0 \<notin> set (blocks mh)" "1 \<notin> set (blocks mh)" "0 \<notin> set (blocks dh)" "1 \<notin> set (blocks dh)" "set (blocks mh) \<inter> set (blocks dh) = {}"
    using mh(7,8) dh(7) by auto
  have "map_at fs v4 = map_at fs v3" using v4(3) ap(5) unfolding fs by (intro map_at_cong) (auto simp: fs)
  then have m4: "map_at fs v4 = fm4" using v3(4) by simp
  have "v4 0 = header_image mh" "v4 1 = header_image dh" using v3(3) v4(3) ap by auto
  then have h4: "hdr_at v4 FreeMapSector = mh" "hdr_at v4 DirectorySector = dh" using mh(9) [of "[]"] dh(9) [of "[]"] by (simp_all add: hdr_at_def)
  have "distinct (system_sectors fs)" using ap mh(2) dh(2) by (auto simp: system_sectors_def fs header_ok_def)
  then have ok: "disk_fs_ok fs v4"
    using v4(2) sy h4 m4 dh(8) mh(8) unfolding disk_fs_ok_def v4(4) es(4) fs by (auto simp: files_ok_def sectors_of_def system_sectors_def fs)
  have "fs_files fs v4 = Map.empty" by (simp add: fs_files_def v4(4) es(4))
  moreover have "free_sectors fs v4 = 1019" by (simp add: free_sectors_def m4 c4)
  moreover have "open_system_files v4 = Inr fs" using open_system_files_eq [OF ok] by (simp add: fs_def)
  moreover have "FileSystem_format g v = Inr (fs, v4)"
  proof -
    have m: "BitMap_Mark fm0 FreeMapSector = Inr fm1" "BitMap_Mark fm1 DirectorySector = Inr fm2" using fm1(1) fm2(1) by simp_all
    show ?thesis unfolding FileSystem_format_def Let_def FileHeader_WriteBack_def fm0(1) rbind_Inr m mh(1) dh(1) prod.case rbind_ASSERT_true [OF TrueI]
        v1(1) v2(1) op v3(1) using v4(1) unfolding es(3) [symmetric] by simp
  qed
  ultimately show ?thesis using ok by blast
qed

section \<open>Properties of the file system\<close>

text \<open>
  C30: formatting makes an empty file system of any disk, whatever the disk and the uninitialised memory held: the
  invariant of the file system holds, no file exists and 1019 sectors are free; and the file system that a later start opens
  from the disk is the same one.
\<close>

theorem disk_fs_format:
  assumes "vol_ok v" "heap_ok g"
  shows "\<exists>fs v'. DiskFS_new g True v = Inr (fs, v') \<and> disk_fs_ok fs v' \<and> fs_files fs v' = Map.empty \<and> free_sectors fs v' = 1019 \<and>
     DiskFS_new g False v' = Inr (fs, v')"
proof -
  obtain fs v' where "FileSystem_format g v = Inr (fs, v')" "disk_fs_ok fs v'" "fs_files fs v' = Map.empty" "free_sectors fs v' = 1019" "open_system_files v' = Inr fs"
    using formatted [OF assms] by blast
  then show ?thesis by (intro exI [of _ fs] exI [of _ v']) (simp add: DiskFS_new_def)
qed

definition demo_heap :: Heap where
  "demo_heap = \<lparr>new_words = \<lambda>i. 3735928559, new_entries = \<lambda>i. \<lparr>inUse = True, pad1 = [1, 2, 3], entry_sector = 7, entry_name = replicate 10 65, pad2 = [4, 5]\<rparr>,
     new_header = \<lparr>numBytes = 5, numSectors = 6, dataSectors = replicate 30 7\<rparr>, new_bytes = \<lambda>i. 238\<rparr>"

definition blank :: volume where
  "blank i = replicate 128 0"

lemma demo_heap_ok: "heap_ok demo_heap" "vol_ok blank"
  by (simp_all add: heap_ok_def demo_heap_def int32_def vol_ok_def blank_def)

theorem disk_fs_format_witness:
  "\<exists>fs v'. DiskFS_new demo_heap True blank = Inr (fs, v') \<and> fs_files fs v' = Map.empty \<and> DiskFS_new demo_heap False v' = Inr (fs, v')"
  using disk_fs_format [OF demo_heap_ok(2,1)] by blast

text \<open>
  C2: on disk the file system is a finite map from names (their first nine characters) to files of fixed size. \<open>Create\<close>
  fails, and leaves the disk as it is, exactly when the name exists, the directory has ten files or there are too few free
  sectors for the header and the data; otherwise it adds a file of the given size. \<open>Remove\<close> takes an existing file out
  and frees its sectors, \<open>Open\<close> gives the contents at position 0, both refuse any other name. No other file
  changes, and the invariant (no sector in two files, the bitmap marks exactly the sectors in use) is kept.
\<close>

theorem disk_fs_refines:
  assumes "disk_fs_ok fs v" "heap_ok g" "0 \<le> sz" "sz \<le> 3840"
  shows "(if cname name \<in> dom (fs_files fs v) \<or> card (dom (fs_files fs v)) = NumDirEntries \<or> free_sectors fs v < 1 + sectors_for sz
      then DiskFS_Create g name sz fs v = Inr (False, v)
      else \<exists>v' bytes. DiskFS_Create g name sz fs v = Inr (True, v') \<and> disk_fs_ok fs v' \<and> length bytes = nat sz \<and>
        fs_files fs v' = (fs_files fs v)(cname name \<mapsto> bytes)) \<and>
    (case fs_files fs v (cname name) of
       None \<Rightarrow> DiskFS_Remove g name fs v = Inr (False, v) \<and> DiskFS_Open g name fs v = Inr None
     | Some bytes \<Rightarrow>
         (\<exists>v'. DiskFS_Remove g name fs v = Inr (True, v') \<and> disk_fs_ok fs v' \<and> fs_files fs v' = (fs_files fs v)(cname name := None) \<and>
            free_sectors fs v' = free_sectors fs v + 1 + sectors_for (int (length bytes))) \<and>
         (\<exists>f. DiskFS_Open g name fs v = Inr (Some f) \<and> seekPosition f = 0 \<and> header_ok (hdr f) \<and> file_bytes (hdr f) v = bytes))"
proof (intro conjI)
  show "if cname name \<in> dom (fs_files fs v) \<or> card (dom (fs_files fs v)) = NumDirEntries \<or> free_sectors fs v < 1 + sectors_for sz
      then DiskFS_Create g name sz fs v = Inr (False, v)
      else \<exists>v' bytes. DiskFS_Create g name sz fs v = Inr (True, v') \<and> disk_fs_ok fs v' \<and> length bytes = nat sz \<and>
        fs_files fs v' = (fs_files fs v)(cname name \<mapsto> bytes)"
    using Create_refused [OF assms] Create_succeeds [OF assms] by (simp only: de_Morgan_disj not_less split: if_split) blast
  show "case fs_files fs v (cname name) of
       None \<Rightarrow> DiskFS_Remove g name fs v = Inr (False, v) \<and> DiskFS_Open g name fs v = Inr None
     | Some bytes \<Rightarrow>
         (\<exists>v'. DiskFS_Remove g name fs v = Inr (True, v') \<and> disk_fs_ok fs v' \<and> fs_files fs v' = (fs_files fs v)(cname name := None) \<and>
            free_sectors fs v' = free_sectors fs v + 1 + sectors_for (int (length bytes))) \<and>
         (\<exists>f. DiskFS_Open g name fs v = Inr (Some f) \<and> seekPosition f = 0 \<and> header_ok (hdr f) \<and> file_bytes (hdr f) v = bytes)"
  proof (cases "fs_files fs v (cname name)")
    case None
    then have "cname name \<notin> dom (fs_files fs v)" by blast
    then show ?thesis using None Remove_eq(1) [OF assms(1,2)] Open_eq(1) [OF assms(1,2)] by simp
  next
    case (Some bytes)
    then obtain k where k: "k < NumDirEntries" "inUse (dir_at fs v ! k)" "name_of (dir_at fs v ! k) = cname name"
       "DiskFS_Open g name fs v = Inr (Some \<lparr>hdr = hdr_at v (entry_sector (dir_at fs v ! k)), seekPosition = 0\<rparr>)"
      using Open_eq(2) [OF assms(1,2), of name] by blast
    have "length (dir_at fs v) = NumDirEntries" by (simp add: dir_at_def)
    then have kl: "k < length (dir_at fs v)" using k(1) by simp
    have "\<exists>f. DiskFS_Open g name fs v = Inr (Some f) \<and> seekPosition f = 0 \<and> header_ok (hdr f) \<and> file_bytes (hdr f) v = bytes"
      using k(3,4) live_entry(4,7) [OF assms(1) kl k(2)] Some by simp
    then show ?thesis unfolding Some option.case using Remove_eq(2) [OF assms(1,2) Some] by blast
  qed
qed

theorem disk_fs_refines_witness:
  "\<exists>fs v v1 v2. DiskFS_new demo_heap True blank = Inr (fs, v) \<and> DiskFS_Create demo_heap [97, 98] 300 fs v = Inr (True, v1) \<and>
     dom (fs_files fs v1) = {cname [97, 98]} \<and> DiskFS_Create demo_heap [97, 98] 5 fs v1 = Inr (False, v1) \<and>
     DiskFS_Remove demo_heap [97, 98] fs v1 = Inr (True, v2) \<and> fs_files fs v2 = Map.empty"
proof -
  obtain fs v where f: "DiskFS_new demo_heap True blank = Inr (fs, v)" "disk_fs_ok fs v" "fs_files fs v = Map.empty" "free_sectors fs v = 1019"
    using formatted [OF demo_heap_ok(2,1)] by (auto simp: DiskFS_new_def)
  have s: "sectors_for 300 = 3" by (simp add: sectors_for_def divRoundUp_def c_arith)
  obtain v1 bytes where c: "DiskFS_Create demo_heap [97, 98] 300 fs v = Inr (True, v1)" "disk_fs_ok fs v1" "fs_files fs v1 = [cname [97, 98] \<mapsto> bytes]"
    using disk_fs_refines [OF f(2) demo_heap_ok(1), of 300 "[97, 98]"] f(3,4) s by auto
  obtain v2 where r: "DiskFS_Remove demo_heap [97, 98] fs v1 = Inr (True, v2)" "fs_files fs v2 = Map.empty"
    using disk_fs_refines [OF c(2) demo_heap_ok(1), of 0 "[97, 98]"] c(3) by auto
  have "DiskFS_Create demo_heap [97, 98] 5 fs v1 = Inr (False, v1)"
    using disk_fs_refines [OF c(2) demo_heap_ok(1), of 5 "[97, 98]"] c(3) by simp
  then show ?thesis using f(1) c(1,3) r by auto
qed

text \<open>
  C15: writing through a file that was opened by name changes that file and nothing else: its contents become the old ones
  with the data written over from the position on (up to the end of the file), every other file of the file system, the directory and
  the bitmap of free sectors stay as they are, and the invariant is kept.
\<close>

theorem opened_write_isolated:
  assumes "disk_fs_ok fs v" "heap_ok g" "DiskFS_Open g name fs v = Inr (Some f)"
    and "0 \<le> position" "int32 (position + int (length data))"
  shows "\<exists>v' n bytes. DiskFile_Write garbage data (int (length data)) (DiskFile_Seek position f) v = Inr (n, DiskFile_Seek (position + n) f, v') \<and>
     disk_fs_ok fs v' \<and> fs_files fs v (cname name) = Some bytes \<and>
     fs_files fs v' = (fs_files fs v)(cname name \<mapsto> write_at bytes (nat position) data) \<and> n = int (min (length data) (length bytes - nat position))"
proof -
  have "cname name \<in> dom (fs_files fs v)" using Open_eq(1) [OF assms(1,2), of name] assms(3) by auto
  then obtain k where k: "k < NumDirEntries" "inUse (dir_at fs v ! k)" "name_of (dir_at fs v ! k) = cname name"
     "f = \<lparr>hdr = hdr_at v (entry_sector (dir_at fs v ! k)), seekPosition = 0\<rparr>"
    using Open_eq(2) [OF assms(1,2), of name] assms(3) by auto
  let ?h = "hdr_at v (entry_sector (dir_at fs v ! k))" and ?bytes = "file_bytes (hdr_at v (entry_sector (dir_at fs v ! k))) v"
  have "length (dir_at fs v) = NumDirEntries" by (simp add: dir_at_def)
  then have kl: "k < length (dir_at fs v)" using k(1) by simp
  note l = live_entry [OF assms(1) kl k(2)]
  note o = disk_fs_okD(1) [OF assms(1)]
  let ?n = "min (length data) (length ?bytes - nat position)"
  obtain v' where v': "WriteAt garbage ?h data (int (length data)) position v = Inr (int ?n, v')" "vol_ok v'"
      "\<forall>s. s \<notin> set (blocks ?h) \<longrightarrow> v' s = v s" "file_bytes ?h v' = write_at ?bytes (nat position) data"
    using WriteAt_eq [OF l(4) o assms(4,5), of data garbage] length_file_bytes [OF l(4) o] by auto
  have "int32 (position + int ?n)" using assms(4,5) by (auto simp: int32_def)
  then have "DiskFile_Write garbage data (int (length data)) (DiskFile_Seek position f) v = Inr (int ?n, DiskFile_Seek (position + int ?n) f, v')"
    using v'(1) by (simp add: DiskFile_Write_def DiskFile_Seek_def k(4) wrap32_int32)
  moreover have "fs_files fs v (cname name) = Some ?bytes" using l(7) k(3) by simp
  moreover have "disk_fs_ok fs v'" "fs_files fs v' = (fs_files fs v)(cname name \<mapsto> write_at ?bytes (nat position) data)"
    using written [OF assms(1) kl k(2) v'(2,3)] v'(4) k(3) by simp_all
  ultimately show ?thesis by blast
qed

theorem opened_write_isolated_witness:
  "\<exists>fs v v1 f v2. DiskFS_new demo_heap True blank = Inr (fs, v) \<and> DiskFS_Create demo_heap [97, 98] 300 fs v = Inr (True, v1) \<and>
     DiskFS_Open demo_heap [97, 98] fs v1 = Inr (Some f) \<and>
     DiskFile_Write (\<lambda>_. 0) [1, 2, 3, 4, 5] 5 (DiskFile_Seek 298 f) v1 = Inr (2, DiskFile_Seek 300 f, v2) \<and>
     (\<exists>bytes. fs_files fs v2 (cname [97, 98]) = Some bytes \<and> drop 298 bytes = [1, 2])"
proof -
  obtain fs v where f: "DiskFS_new demo_heap True blank = Inr (fs, v)" "disk_fs_ok fs v" "fs_files fs v = Map.empty" "free_sectors fs v = 1019"
    using formatted [OF demo_heap_ok(2,1)] by (auto simp: DiskFS_new_def)
  have s: "sectors_for 300 = 3" by (simp add: sectors_for_def divRoundUp_def c_arith)
  obtain v1 bytes where c: "DiskFS_Create demo_heap [97, 98] 300 fs v = Inr (True, v1)" "disk_fs_ok fs v1" "length bytes = 300" "fs_files fs v1 = [cname [97, 98] \<mapsto> bytes]"
    using Create_succeeds [OF f(2) demo_heap_ok(1), of 300 "[97, 98]"] f(3,4) s by auto
  obtain file' where o: "DiskFS_Open demo_heap [97, 98] fs v1 = Inr (Some file')"
    using Open_eq(2) [OF c(2) demo_heap_ok(1), of "[97, 98]"] c(4) by auto
  obtain v2 where w: "DiskFile_Write (\<lambda>_. 0) [1, 2, 3, 4, 5] 5 (DiskFile_Seek 298 file') v1 = Inr (2, DiskFile_Seek 300 file', v2)"
     "fs_files fs v2 = (fs_files fs v1)(cname [97, 98] \<mapsto> write_at bytes 298 [1, 2, 3, 4, 5])"
    using opened_write_isolated [OF c(2) demo_heap_ok(1) o, of 298 "[1, 2, 3, 4, 5]" "\<lambda>_. 0"] c(3,4) by (auto simp: int32_def)
  have "drop 298 (write_at bytes 298 [1, 2, 3, 4, 5]) = [1, 2]" using c(3) by (simp add: write_at_def Let_def)
  then show ?thesis using f(1) c(1) o w by auto
qed

end
