(* ===== verification/Post_Office.thy ===== *)
theory Post_Office
  imports Disk_File
begin

text \<open>
  Messages between machines: the synchronised list of \<open>threads/synchlist.cc\<close> over the locks and conditions of
  \<open>threads/synch.cc\<close>, which are empty in this kernel, and the post office of \<open>network/post.cc\<close> over the network
  device. A semaphore is its value, as \<open>Threads\<close> justifies; an operation that would sleep in \<open>P\<close> gives \<open>None\<close>.
\<close>

section \<open>Locks, conditions and synchronised lists\<close>

definition Lock_Acquire :: "unit res" where "Lock_Acquire = Inr ()"
definition Lock_Release :: "unit res" where "Lock_Release = Inr ()"
definition Condition_Wait :: "unit res" where "Condition_Wait = ASSERT False"
definition Condition_Signal :: "unit res" where "Condition_Signal = Inr ()"

definition SynchList_Append :: "'a option \<Rightarrow> 'a klist \<Rightarrow> 'a klist res" where
  "SynchList_Append it xs = rbind Lock_Acquire (\<lambda>_. rbind Condition_Signal (\<lambda>_. rbind Lock_Release (\<lambda>_. Inr (kl_append xs it))))"

text \<open>\<open>while (list->IsEmpty()) listEmpty->Wait(lock);\<close> ends at its first \<open>Wait\<close>, which aborts.\<close>

definition SynchList_Remove :: "'a klist \<Rightarrow> ('a option \<times> 'a klist) res" where
  "SynchList_Remove xs = rbind Lock_Acquire (\<lambda>_.
     rbind (if xs = [] then Condition_Wait else Inr ()) (\<lambda>_.
     case kl_remove xs of (it, _, ys) \<Rightarrow>
       rbind (ASSERT (it \<noteq> None)) (\<lambda>_. rbind Lock_Release (\<lambda>_. Inr (it, ys)))))"

section \<open>Mail\<close>

abbreviation MailHeaderSize :: int where "MailHeaderSize \<equiv> 12"
abbreviation MaxMailSize :: int where "MaxMailSize \<equiv> 40"

record MailHeader =
  mail_to :: int
  mail_from :: int
  mail_length :: int

record Mail =
  pktHdr :: PacketHeader
  mailHdr :: MailHeader
  mail_data :: "byte list"

definition mail_image :: "MailHeader \<Rightarrow> byte list" where
  "mail_image h = int_bytes (mail_to h) @ int_bytes (mail_from h) @ int_bytes (mail_length h)"

definition image_mail :: "byte list \<Rightarrow> MailHeader" where
  "image_mail bs = \<lparr>mail_to = bytes_int bs, mail_from = bytes_int (drop 4 bs), mail_length = uint (bytes_word (drop 8 bs))\<rparr>"

text \<open>\<open>bcopy\<close> of \<open>n\<close> bytes out of a buffer.\<close>

definition copy_bytes :: "int \<Rightarrow> byte list \<Rightarrow> byte list res" where
  "copy_bytes n bs = (if int (length bs) < n then Inl OutOfBounds else Inr (take (nat n) bs))"

definition Mail_new :: "PacketHeader \<Rightarrow> MailHeader \<Rightarrow> byte list \<Rightarrow> Mail res" where
  "Mail_new pktH mailH msgData =
     rbind (ASSERT (mail_length mailH \<le> MaxMailSize)) (\<lambda>_.
     rbind (copy_bytes (mail_length mailH) msgData) (\<lambda>bs. Inr \<lparr>pktHdr = pktH, mailHdr = mailH, mail_data = bs\<rparr>))"

type_synonym MailBox = "Mail klist"

definition MailBox_Put :: "PacketHeader \<Rightarrow> MailHeader \<Rightarrow> byte list \<Rightarrow> MailBox \<Rightarrow> MailBox res" where
  "MailBox_Put ph mh bs box = rbind (Mail_new ph mh bs) (\<lambda>mail. SynchList_Append (Some mail) box)"

definition MailBox_Get :: "MailBox \<Rightarrow> (PacketHeader \<times> MailHeader \<times> byte list \<times> MailBox) res" where
  "MailBox_Get box = rbind (SynchList_Remove box) (\<lambda>(it, box'). case it of
     None \<Rightarrow> Inl NullDeref
   | Some mail \<Rightarrow> rbind (copy_bytes (mail_length (mailHdr mail)) (mail_data mail)) (\<lambda>bs. Inr (pktHdr mail, mailHdr mail, bs, box')))"

section \<open>The post office\<close>

record PostOffice =
  netAddr :: int
  numBoxes :: int
  boxes :: "MailBox list"
  messageAvailable :: nat
  messageSent :: nat
  buffer :: "byte list"

text \<open>The constructor, without the thread it forks to run \<open>PostalDelivery\<close>; \<open>fresh\<close> is that thread's buffer.\<close>

definition PostOffice_new :: "byte list \<Rightarrow> int \<Rightarrow> rat \<Rightarrow> nat \<Rightarrow> (nat \<Rightarrow> Packet option) \<Rightarrow> (int \<Rightarrow> bool) \<Rightarrow> 'k sim \<Rightarrow> (PostOffice \<times> 'k sim) res" where
  "PostOffice_new fresh addr reliability nBoxes arrivals peers s =
     rbind (Network_new addr reliability arrivals peers s) (\<lambda>s'.
       Inr (\<lparr>netAddr = addr, numBoxes = int nBoxes, boxes = replicate nBoxes [], messageAvailable = 0, messageSent = 0, buffer = fresh\<rparr>, s'))"

text \<open>One round of the loop of \<open>PostalDelivery\<close>. What is behind a short packet in the buffer is from earlier rounds.\<close>

definition PostalDelivery_round :: "PostOffice \<Rightarrow> 'k sim \<Rightarrow> (PostOffice \<times> 'k sim) option res" where
  "PostalDelivery_round po s =
     (if messageAvailable po = 0 then Inr None
      else case Receive s of ((ph, bs), s') \<Rightarrow>
        rbind (overlay (buffer po) 0 bs) (\<lambda>buf.
        let mh = image_mail buf
        in rbind (ASSERT (0 \<le> mail_to mh \<and> mail_to mh < numBoxes po)) (\<lambda>_.
           rbind (ASSERT (mail_length mh \<le> MaxMailSize)) (\<lambda>_.
           rbind (MailBox_Put ph mh (drop (nat MailHeaderSize) buf) (boxes po ! nat (mail_to mh))) (\<lambda>box.
             Inr (Some (po\<lparr>messageAvailable := messageAvailable po - 1, boxes := (boxes po)[nat (mail_to mh) := box], buffer := buf\<rparr>, s')))))))"

text \<open>
  \<open>Send\<close> up to \<open>messageSent->P()\<close>, where the sender waits for \<open>PacketSent\<close>. \<open>pad\<close> is the uninitialised rest of the
  two buffers on the way to the wire.
\<close>

definition PostOffice_Send :: "byte list \<Rightarrow> PacketHeader \<Rightarrow> MailHeader \<Rightarrow> byte list \<Rightarrow> PostOffice \<Rightarrow> 'k sim \<Rightarrow> 'k sim res" where
  "PostOffice_Send pad ph mh bs po s =
     rbind (ASSERT (mail_length mh \<le> MaxMailSize)) (\<lambda>_.
     rbind (ASSERT (0 \<le> mail_to mh \<and> mail_to mh < numBoxes po)) (\<lambda>_.
     rbind (copy_bytes (mail_length mh) bs) (\<lambda>payload.
     rbind Lock_Acquire (\<lambda>_.
       Send pad (ph\<lparr>pkt_from := netAddr po, pkt_length := mail_length mh + MailHeaderSize\<rparr>) (mail_image mh @ payload) s))))"

definition PostOffice_Receive :: "int \<Rightarrow> PostOffice \<Rightarrow> (PacketHeader \<times> MailHeader \<times> byte list \<times> PostOffice) res" where
  "PostOffice_Receive box po =
     rbind (ASSERT (0 \<le> box \<and> box < numBoxes po)) (\<lambda>_.
     rbind (MailBox_Get (boxes po ! nat box)) (\<lambda>(ph, mh, bs, b).
     rbind (ASSERT (mail_length mh \<le> MaxMailSize)) (\<lambda>_.
       Inr (ph, mh, bs, po\<lparr>boxes := (boxes po)[nat box := b]\<rparr>))))"

definition IncomingPacket :: "PostOffice \<Rightarrow> PostOffice" where
  "IncomingPacket po = po\<lparr>messageAvailable := messageAvailable po + 1\<rparr>"

definition PacketSent :: "PostOffice \<Rightarrow> PostOffice" where
  "PacketSent po = po\<lparr>messageSent := messageSent po + 1\<rparr>"

section \<open>A message arrives as it was sent\<close>

definition mail_ok :: "MailHeader \<Rightarrow> bool" where
  "mail_ok h \<longleftrightarrow> int32 (mail_to h) \<and> int32 (mail_from h) \<and> 0 \<le> mail_length h \<and> mail_length h \<le> MaxMailSize"

lemma length_mail_image [simp]: "length (mail_image h) = 12"
  by (simp add: mail_image_def)

lemma mail_roundtrip: "mail_ok h \<Longrightarrow> image_mail (mail_image h @ bs) = h"
proof -
  assume h: "mail_ok h"
  have "uint (bytes_word (int_bytes (mail_length h) @ bs)) = mail_length h"
    using h by (simp add: int_bytes_def mail_ok_def uint_word_of_int)
  then show ?thesis using h by (simp add: image_mail_def mail_image_def mail_ok_def bytes_int_bytes)
qed

definition office_ok :: "PostOffice \<Rightarrow> bool" where
  "office_ok po \<longleftrightarrow> 0 \<le> numBoxes po \<and> length (boxes po) = nat (numBoxes po) \<and> length (buffer po) = nat MaxPacketSize"

lemma Send_delivers:
  assumes n: "n = network (world s)" and ph: "\<not> sendBusy n" "0 < pkt_length ph" "pkt_length ph \<le> MaxPacketSize" "pkt_from ph = ident n"
    and luck: "\<not> chanceToWork n * 100 \<le> rat_of_int (rand (world s) (drawn (world s)) smod 100)"
    and bs: "int (length bs) = pkt_length ph" and peer: "listening n (pkt_to ph)"
  shows "\<exists>s'. Send pad ph bs s = Inr s' \<and> wire (network (world s')) = wire n @ [(pkt_to ph, (ph, take (nat MaxPacketSize) (bs @ pad)))]"
proof -
  have t: "take (nat (pkt_length ph)) bs = bs" using bs by simp
  have l: "\<not> length bs < nat (pkt_length ph)" using bs by simp
  show ?thesis using assms t l by (simp add: Send_def Let_def Schedule_def Random_def upd_defs)
qed

lemma CheckPktAvail_receives:
  assumes n: "n = network (world s)" and p: "arriving n (socket_polled n) = Some (ph, payload)" "pkt_length (inHdr n) = 0" "pkt_to ph = ident n"
      "0 < pkt_length ph" "pkt_length ph \<le> MaxPacketSize"
  shows "\<exists>s' s''. CheckPktAvail up s = Inr s' \<and> Receive s' = ((ph, take (nat (pkt_length ph)) payload), s'')"
  using assms by (simp add: CheckPktAvail_def Let_def Schedule_def upd_defs Receive_def)

text \<open>The message as it lies in a mailbox.\<close>

definition delivered :: "int \<Rightarrow> PacketHeader \<Rightarrow> MailHeader \<Rightarrow> byte list \<Rightarrow> Mail" where
  "delivered addr ph mh bs = \<lparr>pktHdr = ph\<lparr>pkt_from := addr, pkt_length := mail_length mh + MailHeaderSize\<rparr>, mailHdr = mh, mail_data = take (nat (mail_length mh)) bs\<rparr>"

text \<open>The packet it travels in; \<open>pad\<close> fills it up.\<close>

definition packet_of :: "int \<Rightarrow> PacketHeader \<Rightarrow> MailHeader \<Rightarrow> byte list \<Rightarrow> byte list \<Rightarrow> Packet" where
  "packet_of addr ph mh bs pad = (ph\<lparr>pkt_from := addr, pkt_length := mail_length mh + MailHeaderSize\<rparr>,
     take (nat MaxPacketSize) ((mail_image mh @ take (nat (mail_length mh)) bs) @ pad))"

lemma round_puts:
  assumes po: "office_ok po" "0 < messageAvailable po" and mh: "mail_ok mh" "0 \<le> mail_to mh" "mail_to mh < numBoxes po"
    and len: "mail_length mh \<le> int (length bs)"
    and r: "Receive s = ((ph, mail_image mh @ take (nat (mail_length mh)) bs), s')"
  shows "\<exists>po'. PostalDelivery_round po s = Inr (Some (po', s')) \<and> office_ok po' \<and> numBoxes po' = numBoxes po \<and>
     boxes po' = (boxes po)[nat (mail_to mh) := boxes po ! nat (mail_to mh) @ [(0, Some \<lparr>pktHdr = ph, mailHdr = mh, mail_data = take (nat (mail_length mh)) bs\<rparr>)]]"
proof -
  let ?d = "take (nat (mail_length mh)) bs" and ?l = "nat (mail_length mh)"
  have l: "length ?d = ?l" "?l \<le> 40" "0 \<le> mail_length mh" "mail_length mh \<le> 40" using len mh(1) by (auto simp: mail_ok_def)
  have b: "length (buffer po) = 52" "length (boxes po) = nat (numBoxes po)" using po(1) by (simp_all add: office_ok_def)
  define buf where "buf = mail_image mh @ ?d @ drop (12 + ?l) (buffer po)"
  have o: "overlay (buffer po) 0 (mail_image mh @ ?d) = Inr buf" using l b by (simp add: overlay_def buf_def)
  have i: "image_mail buf = mh" using mail_roundtrip [OF mh(1)] by (simp add: buf_def)
  have c: "copy_bytes (mail_length mh) (drop 12 buf) = Inr ?d" using l by (simp add: copy_bytes_def buf_def)
  let ?m = "\<lparr>pktHdr = ph, mailHdr = mh, mail_data = ?d\<rparr>" and ?k = "nat (mail_to mh)"
  have put: "MailBox_Put ph mh (drop 12 buf) (boxes po ! ?k) = Inr (boxes po ! ?k @ [(0, Some ?m)])"
    using c l(4) by (simp add: MailBox_Put_def Mail_new_def SynchList_Append_def Lock_Acquire_def Lock_Release_def Condition_Signal_def kl_append_def)
  have "length buf = 52" using l b(1) by (simp add: buf_def)
  then show ?thesis using po r o i put mh(2,3) l(4) b(2) by (simp add: PostalDelivery_round_def office_ok_def)
qed

lemma Receive_first:
  assumes "office_ok po" "0 \<le> box" "box < numBoxes po" "boxes po ! nat box = (0, Some m) # rest"
    "mail_length (mailHdr m) \<le> MaxMailSize" "int (length (mail_data m)) = mail_length (mailHdr m)"
  shows "PostOffice_Receive box po = Inr (pktHdr m, mailHdr m, mail_data m, po\<lparr>boxes := (boxes po)[nat box := rest]\<rparr>)"
proof -
  have "take (nat (mail_length (mailHdr m))) (mail_data m) = mail_data m" using assms(6) by simp
  then show ?thesis using assms
    by (simp add: PostOffice_Receive_def MailBox_Get_def SynchList_Remove_def Lock_Acquire_def Lock_Release_def copy_bytes_def)
qed

text \<open>
  C27: a message that the network does not drop arrives as it was sent. \<open>Send\<close> puts one packet on the wire; when a machine
  takes it in, the postal worker puts the message, with its mail header, its data and the address of the sender, at the
  end of the mailbox it is addressed to and touches no other mailbox, and \<open>Receive\<close> on a mailbox that was empty returns just
  that message. No assertion of either machine fails, whatever the unused bytes of the packet and of the
  buffers hold. An empty mailbox, on the other hand, aborts the receiver, since \<open>Condition::Wait\<close> is not implemented.
\<close>

theorem post_office_roundtrip:
  assumes mh: "mail_ok mh" "mail_length mh \<le> int (length bs)" "0 \<le> mail_to mh" "mail_to mh < numBoxes po1" "mail_to mh < numBoxes po2" "office_ok po2"
    and net: "\<not> sendBusy (network (world s1))" "ident (network (world s1)) = netAddr po1" "listening (network (world s1)) (pkt_to ph)"
      "\<not> chanceToWork (network (world s1)) * 100 \<le> rat_of_int (rand (world s1) (drawn (world s1)) smod 100)"
  shows "\<exists>s1'. PostOffice_Send pad ph mh bs po1 s1 = Inr s1' \<and>
     wire (network (world s1')) = wire (network (world s1)) @ [(pkt_to ph, packet_of (netAddr po1) ph mh bs pad)] \<and>
     (arriving (network (world s2)) (socket_polled (network (world s2))) = Some (packet_of (netAddr po1) ph mh bs pad) \<and> pkt_length (inHdr (network (world s2))) = 0 \<and>
        ident (network (world s2)) = pkt_to ph \<longrightarrow>
      (\<exists>s2' po2' s2''. CheckPktAvail up s2 = Inr s2' \<and> PostalDelivery_round (IncomingPacket po2) s2' = Inr (Some (po2', s2'')) \<and>
         boxes po2' = (boxes po2)[nat (mail_to mh) := boxes po2 ! nat (mail_to mh) @ [(0, Some (delivered (netAddr po1) ph mh bs))]] \<and>
         (boxes po2 ! nat (mail_to mh) = [] \<longrightarrow> PostOffice_Receive (mail_to mh) po2 = Inl AssertFail \<and>
            PostOffice_Receive (mail_to mh) po2' =
              Inr (ph\<lparr>pkt_from := netAddr po1, pkt_length := mail_length mh + MailHeaderSize\<rparr>, mh, take (nat (mail_length mh)) bs,
                   po2'\<lparr>boxes := (boxes po2')[nat (mail_to mh) := []]\<rparr>))))"
proof -
  let ?ph = "ph\<lparr>pkt_from := netAddr po1, pkt_length := mail_length mh + MailHeaderSize\<rparr>" and ?d = "take (nat (mail_length mh)) bs"
  let ?b = "mail_image mh @ ?d" and ?m = "delivered (netAddr po1) ph mh bs" and ?k = "nat (mail_to mh)"
  have len: "0 \<le> mail_length mh" "mail_length mh \<le> 40" "length ?d = nat (mail_length mh)" using mh(1,2) by (auto simp: mail_ok_def)
  let ?p = "packet_of (netAddr po1) ph mh bs pad"
  have p: "?p = (?ph, take (nat MaxPacketSize) (?b @ pad))" by (simp add: packet_of_def)
  obtain s1' where s1': "Send pad ?ph ?b s1 = Inr s1'" "wire (network (world s1')) = wire (network (world s1)) @ [(pkt_to ph, ?p)]"
    using Send_delivers [OF refl net(1), of ?ph ?b pad] net(2-4) len by (auto simp: p)
  have send: "PostOffice_Send pad ph mh bs po1 s1 = Inr s1'"
    using s1'(1) mh len by (simp add: PostOffice_Send_def copy_bytes_def Lock_Acquire_def)
  have "\<exists>s2' po2' s2''. CheckPktAvail up s2 = Inr s2' \<and> PostalDelivery_round (IncomingPacket po2) s2' = Inr (Some (po2', s2'')) \<and>
         boxes po2' = (boxes po2)[?k := boxes po2 ! ?k @ [(0, Some ?m)]] \<and>
         (boxes po2 ! ?k = [] \<longrightarrow> PostOffice_Receive (mail_to mh) po2 = Inl AssertFail \<and>
            PostOffice_Receive (mail_to mh) po2' = Inr (?ph, mh, ?d, po2'\<lparr>boxes := (boxes po2')[?k := []]\<rparr>))"
    if a: "arriving (network (world s2)) (socket_polled (network (world s2))) = Some ?p" "pkt_length (inHdr (network (world s2))) = 0"
      "ident (network (world s2)) = pkt_to ph"
  proof -
    have "take (nat (pkt_length ?ph)) (take (nat MaxPacketSize) (?b @ pad)) = ?b" using len by (simp add: nat_add_distrib)
    then obtain s2' s2'' where s2: "CheckPktAvail up s2 = Inr s2'" "Receive s2' = ((?ph, ?b), s2'')"
      using CheckPktAvail_receives [OF refl a(1) [unfolded p] a(2), of up] a(3) len by auto
    have po: "office_ok (IncomingPacket po2)" "0 < messageAvailable (IncomingPacket po2)" "boxes (IncomingPacket po2) = boxes po2" "numBoxes (IncomingPacket po2) = numBoxes po2"
      using mh(6) by (simp_all add: IncomingPacket_def office_ok_def)
    have "?m = \<lparr>pktHdr = ?ph, mailHdr = mh, mail_data = ?d\<rparr>" by (simp add: delivered_def)
    with round_puts [OF po(1,2) mh(1,3) _ mh(2) s2(2)] mh(5) po obtain po2' where
      r: "PostalDelivery_round (IncomingPacket po2) s2' = Inr (Some (po2', s2''))" "office_ok po2'" "numBoxes po2' = numBoxes po2"
        "boxes po2' = (boxes po2)[?k := boxes po2 ! ?k @ [(0, Some ?m)]]" by auto
    have "PostOffice_Receive (mail_to mh) po2' = Inr (?ph, mh, ?d, po2'\<lparr>boxes := (boxes po2')[?k := []]\<rparr>)" if "boxes po2 ! ?k = []"
    proof -
      have "?k < length (boxes po2)" using mh(3,5,6) by (simp add: office_ok_def)
      then have "boxes po2' ! ?k = (0, Some ?m) # []" using r(4) that by simp
      from Receive_first [OF r(2) mh(3) _ this] show ?thesis using mh(5) r(3) len by (simp add: delivered_def)
    qed
    moreover have "PostOffice_Receive (mail_to mh) po2 = Inl AssertFail" if "boxes po2 ! ?k = []"
      using that mh(3,5) by (simp add: PostOffice_Receive_def MailBox_Get_def SynchList_Remove_def Lock_Acquire_def Condition_Wait_def)
    ultimately show ?thesis using s2(1) r(1,4) by blast
  qed
  then show ?thesis using send s1'(2) by blast
qed

definition demo_office :: PostOffice where
  "demo_office = \<lparr>netAddr = 0, numBoxes = 2, boxes = [[], []], messageAvailable = 0, messageSent = 0, buffer = replicate 52 9\<rparr>"

definition demo_mail :: MailHeader where
  "demo_mail = \<lparr>mail_to = 1, mail_from = 0, mail_length = 3\<rparr>"

definition demo_packet :: PacketHeader where
  "demo_packet = \<lparr>pkt_to = 0, pkt_from = 0, pkt_length = 0\<rparr>"

definition sim_arrival :: "Signal list sim" where
  "sim_arrival = sim1\<lparr>world := (world sim1)\<lparr>network := (network (world sim1))\<lparr>arriving := \<lambda>_. Some (packet_of 0 demo_packet demo_mail [5, 6, 7] [])\<rparr>\<rparr>\<rparr>"

lemma demo_mail_ok: "mail_ok demo_mail" "office_ok demo_office"
  by (simp_all add: mail_ok_def demo_mail_def office_ok_def demo_office_def int32_def)

lemma sim1_network: "network (world sim1) = network devices0" "rand (world sim1) = (\<lambda>_. 0)"
  by (simp_all add: sim1_def Interrupt_new_def devices0_def)

theorem post_office_roundtrip_witness:
  "\<exists>s1 s2 po s3 po'. PostOffice_Send [] demo_packet demo_mail [5, 6, 7] demo_office sim1 = Inr s1 \<and>
     CheckPktAvail (\<lambda>sig. (#) sig) sim_arrival = Inr s2 \<and> PostalDelivery_round (IncomingPacket demo_office) s2 = Inr (Some (po, s3)) \<and>
     PostOffice_Receive 1 po = Inr (demo_packet\<lparr>pkt_length := 15\<rparr>, demo_mail, [5, 6, 7], po')"
proof -
  have d: "mail_length demo_mail = 3" "mail_to demo_mail = 1" "netAddr demo_office = 0" "numBoxes demo_office = 2" "boxes demo_office = [[], []]"
    "pkt_to demo_packet = 0" "demo_packet\<lparr>pkt_from := 0, pkt_length := 15\<rparr> = demo_packet\<lparr>pkt_length := 15\<rparr>"
    by (simp_all add: demo_mail_def demo_office_def demo_packet_def)
  have n: "\<not> sendBusy (network (world sim1))" "ident (network (world sim1)) = 0" "listening (network (world sim1)) 0" "chanceToWork (network (world sim1)) = 1"
    by (simp_all add: sim1_network devices0_def)
  have a: "arriving (network (world sim_arrival)) k = Some (packet_of 0 demo_packet demo_mail [5, 6, 7] [])" "pkt_length (inHdr (network (world sim_arrival))) = 0"
     "ident (network (world sim_arrival)) = 0" for k by (simp_all add: sim_arrival_def sim1_network devices0_def)
  show ?thesis
    using post_office_roundtrip [OF demo_mail_ok(1), of "[5, 6, 7]" demo_office demo_office sim1 demo_packet "[]" sim_arrival "\<lambda>sig. (#) sig"]
      demo_mail_ok(2) d n a sim1_network(2) by auto
qed

end
